(* ===== verification/Homa_Prelude.thy ===== *)
theory Homa_Prelude
imports
  Main
  "HOL-Library.Word"
  "HOL-Library.Multiset"
  "HOL-Library.Signed_Division"
begin

text \<open>
  The shared vocabulary of the Homa development: names of the C types, the
  error codes of the kernel, 32-bit wrap-around on \<^typ>\<open>int\<close>, the kernel's
  insertion into an ordered list together with the interface of the orders it
  is used with.  The collections below gather the facts that the component
  proofs hand to the simplifier.
\<close>

section \<open>Fact collections\<close>

named_theorems wrap_simps \<open>reading back machine integers that are in range\<close>
named_theorems heap_simps \<open>reading a component of the state after an update\<close>

section \<open>Machine types\<close>

type_synonym u8 = "8 word"
type_synonym u16 = "16 word"
type_synonym u32 = "32 word"
type_synonym u64 = "64 word"
type_synonym bytes = "8 word list"

text \<open>Pointers to kernel objects are indices into the heap of their type.\<close>

type_synonym rpc_ptr = nat
type_synonym sock_ptr = nat
type_synonym peer_ptr = nat

text \<open>The error numbers that the modelled functions return (as negated values in C).\<close>

datatype errno =
    EPERM | EINTR | EAGAIN | ENOMEM | EFAULT | EINVAL | ENOTCONN | EADDRINUSE
  | EADDRNOTAVAIL | EAFNOSUPPORT | ESHUTDOWN | ETIMEDOUT | EHOSTUNREACH
  | EDESTADDRREQ | EPROTONOSUPPORT | ENOPROTOOPT | EISCONN | EOPNOTSUPP

subsection \<open>The C type \<open>int\<close>\<close>

text \<open>
  A C \<open>int\<close> is an \<^typ>\<open>int\<close>; where the code can leave the range of 32 bits the
  wrap-around is written out with \<open>wrap_s32\<close> (the kernel is compiled with
  \<open>-fno-strict-overflow\<close>, so signed arithmetic wraps).
\<close>

definition wrap_s32 :: "int \<Rightarrow> int" where
  "wrap_s32 x = (x + 2 ^ 31) mod 2 ^ 32 - 2 ^ 31"

text \<open>A value stored in a \<open>__u32\<close>.\<close>

definition wrap_u32 :: "int \<Rightarrow> int" where
  "wrap_u32 x = x mod 2 ^ 32"

lemma wrap_u32_id [wrap_simps]: "0 \<le> x \<Longrightarrow> x < 4294967296 \<Longrightarrow> wrap_u32 x = x"
  by (simp add: wrap_u32_def)

definition s32_range :: "int \<Rightarrow> bool" where
  "s32_range x \<longleftrightarrow> - (2 ^ 31) \<le> x \<and> x < 2 ^ 31"

lemma wrap_s32_id [wrap_simps]: "- 2147483648 \<le> x \<Longrightarrow> x < 2147483648 \<Longrightarrow> wrap_s32 x = x"
  by (simp add: wrap_s32_def)

lemma wrap_s32_over:
  assumes "2147483648 \<le> x" and "x < 6442450944"
  shows "wrap_s32 x = x - 4294967296"
proof -
  have "(x + 2147483648) mod 4294967296 = (x + 2147483648 - 4294967296) mod 4294967296"
    by (rule minus_mod_self2 [symmetric])
  also have "\<dots> = x + 2147483648 - 4294967296"
    by (rule mod_pos_pos_trivial) (use assms in simp_all)
  finally show ?thesis by (simp add: wrap_s32_def)
qed

lemma wrap_s32_range: "s32_range (wrap_s32 x)"
proof -
  have "0 \<le> (x + 2147483648) mod 4294967296" "(x + 2147483648) mod 4294967296 < 4294967296"
    by simp_all
  then show ?thesis
    by (simp add: s32_range_def wrap_s32_def)
qed

lemma wrap_s32_signed: "wrap_s32 x = sint (word_of_int x :: u32)"
  by (simp add: wrap_s32_def signed_of_int signed_take_bit_eq_take_bit_shift take_bit_eq_mod)

lemma ceil_div:
  assumes "0 < (s :: int)"
  shows "(x + s - 1) div s = x div s + (if x mod s = 0 then 0 else 1)"
proof -
  define q r where "q = x div s" and "r = x mod s"
  have x: "x = r + q * s" and r: "0 \<le> r" "r < s" using assms by (simp_all add: q_def r_def)
  have "(x + s - 1) div s = (r + s - 1 + q * s) div s" by (simp add: x algebra_simps)
  also have "\<dots> = q + (r + s - 1) div s" using assms by simp
  also have "(r + s - 1) div s = (if r = 0 then 0 else 1)"
  proof (cases "r = 0")
    case True
    then show ?thesis using assms by simp
  next
    case False
    have "(r + s - 1) div s = (r - 1 + s) div s" by (simp add: algebra_simps)
    also have "\<dots> = (r - 1) div s + 1" using assms by (subst div_add_self2) simp_all
    finally show ?thesis using r False by simp
  qed
  finally show ?thesis by (simp add: q_def r_def)
qed

lemma list_all_True [simp]: "list_all (\<lambda>_. True) xs"
  by (simp add: list_all_iff)

lemma list_all_update [intro]: "list_all P xs \<Longrightarrow> P x \<Longrightarrow> list_all P (xs[i := x])"
  by (cases "i < length xs") (auto simp: list_all_length nth_list_update)

section \<open>Ordered kernel lists\<close>

text \<open>
  The kernel keeps several queues ordered by walking the list with
  \<open>list_for_each_entry\<close> and calling \<open>list_add_tail(new, &cand->links)\<close> at the first
  entry that must come after the new one.  \<open>insert_before\<close> is that loop on the list
  of entries.
\<close>

fun insert_before :: "('a \<Rightarrow> bool) \<Rightarrow> 'a \<Rightarrow> 'a list \<Rightarrow> 'a list" where
  "insert_before after x [] = [x]"
| "insert_before after x (y # ys) =
     (if after y then x # y # ys else y # insert_before after x ys)"

text \<open>
  An entry whose rank has improved is moved towards the head while it outranks
  its predecessor.  The first list is the part before the entry, nearest
  predecessor first; the second is the part behind it.
\<close>

fun move_up :: "('a \<Rightarrow> 'a \<Rightarrow> bool) \<Rightarrow> 'a \<Rightarrow> 'a list \<Rightarrow> 'a list \<Rightarrow> 'a list" where
  "move_up better x [] ys = x # ys"
| "move_up better x (p # ps) ys =
     (if better x p then move_up better x ps (p # ys) else rev ps @ p # x # ys)"

text \<open>An entry moves towards the end while the next entry satisfies the test.\<close>

fun move_down :: "('a \<Rightarrow> bool) \<Rightarrow> 'a \<Rightarrow> 'a list \<Rightarrow> 'a list" where
  "move_down ahead x [] = [x]"
| "move_down ahead x (y # ys) = (if ahead y then y # move_down ahead x ys else x # y # ys)"

text \<open>The entries before and behind an entry of a list.\<close>

definition before :: "'a \<Rightarrow> 'a list \<Rightarrow> 'a list" where
  "before x xs = takeWhile (\<lambda>y. y \<noteq> x) xs"

definition behind :: "'a \<Rightarrow> 'a list \<Rightarrow> 'a list" where
  "behind x xs = tl (dropWhile (\<lambda>y. y \<noteq> x) xs)"

text \<open>Nothing in the list is outranked by a later entry.\<close>

definition ranked :: "('a \<Rightarrow> 'a \<Rightarrow> bool) \<Rightarrow> 'a list \<Rightarrow> bool" where
  "ranked better xs \<longleftrightarrow> sorted_wrt (\<lambda>x y. \<not> better y x) xs"

lemma ranked_simps [simp]:
  "ranked better []"
  "ranked better (x # xs) \<longleftrightarrow> (\<forall>y \<in> set xs. \<not> better y x) \<and> ranked better xs"
  by (auto simp: ranked_def)

lemma ranked_append:
  "ranked better (xs @ ys) \<longleftrightarrow>
     ranked better xs \<and> ranked better ys \<and> (\<forall>x \<in> set xs. \<forall>y \<in> set ys. \<not> better y x)"
  by (auto simp: ranked_def sorted_wrt_append)

lemma ranked_filter: "ranked better xs \<Longrightarrow> ranked better (filter P xs)"
  by (auto simp: ranked_def intro: sorted_wrt_filter)

lemma ranked_take: "ranked better xs \<Longrightarrow> ranked better (take n xs)"
  by (auto simp: ranked_def intro: sorted_wrt_take)

lemma ranked_cong:
  assumes "\<And>x y. x \<in> set xs \<Longrightarrow> y \<in> set xs \<Longrightarrow> better x y = better' x y"
  shows "ranked better xs = ranked better' xs"
  using assms by (induction xs) auto

lemma set_insert_before [simp]: "set (insert_before P x xs) = insert x (set xs)"
  by (induction xs) auto

lemma length_insert_before [simp]: "length (insert_before P x xs) = Suc (length xs)"
  by (induction xs) auto

lemma distinct_insert_before [simp]:
  "distinct (insert_before P x xs) \<longleftrightarrow> x \<notin> set xs \<and> distinct xs"
  by (induction xs) auto

lemma insert_before_mset: "mset (insert_before P x xs) = add_mset x (mset xs)"
  by (induction xs) auto

lemma split_at: "x \<in> set xs \<Longrightarrow> xs = before x xs @ x # behind x xs"
proof -
  assume "x \<in> set xs"
  then have "dropWhile (\<lambda>y. y \<noteq> x) xs = x # behind x xs"
    unfolding behind_def by (induction xs) auto
  then show ?thesis using takeWhile_dropWhile_id [of "\<lambda>y. y \<noteq> x" xs] by (simp add: before_def)
qed

lemma behind_append [simp]: "x \<notin> set as \<Longrightarrow> behind x (as @ x # bs) = bs"
  by (induction as) (auto simp: behind_def)

lemma behind_Cons: "behind x (y # ys) = (if y = x then ys else behind x ys)"
  by (simp add: behind_def)

lemma behind_subset: "set (behind x xs) \<subseteq> set xs"
  by (induction xs) (auto simp: behind_Cons behind_def)

lemma behind_notin: "distinct xs \<Longrightarrow> x \<notin> set (behind x xs)"
  by (induction xs) (auto simp: behind_Cons behind_def)

lemma notin_before: "x \<notin> set (before x xs)"
  by (auto simp: before_def dest: set_takeWhileD)

lemma behind_next:
  assumes "distinct xs" and "x \<in> set xs" and "behind x xs = y # ys"
  shows "behind y xs = ys"
proof -
  obtain as where xs: "xs = as @ x # y # ys" using split_at [OF assms(2)] assms(3) by simp
  then have "y \<notin> set (as @ [x])" using assms(1) by auto
  from behind_append [OF this, of ys] show ?thesis by (simp add: xs)
qed

lemma behind_remove1:
  assumes "distinct xs" and "x \<in> set xs" and "h \<noteq> x"
  shows "behind x (remove1 h xs) = remove1 h (behind x xs)"
proof -
  obtain as bs where xs: "xs = as @ x # bs" and bs: "behind x xs = bs" and notin: "x \<notin> set as"
    using split_at [OF assms(2)] notin_before [of x xs] by blast
  have "behind x (remove1 h xs) = remove1 h bs"
  proof (cases "h \<in> set as")
    case True
    then have "h \<notin> set bs" using assms(1) by (auto simp: xs)
    moreover have "x \<notin> set (remove1 h as)" using notin notin_set_remove1 by fast
    ultimately show ?thesis using True by (simp add: xs remove1_append remove1_idem)
  qed (use notin assms(3) in \<open>simp add: xs remove1_append\<close>)
  then show ?thesis by (simp add: bs)
qed

lemma move_down_insert: "move_down ahead x ys = insert_before (\<lambda>y. \<not> ahead y) x ys"
  by (induction ys) auto

lemma move_up_cong:
  "(\<And>y. y \<in> set ps \<Longrightarrow> better x y = better' x y) \<Longrightarrow> move_up better x ps ys = move_up better' x ps ys"
  by (induction ps arbitrary: ys) auto

lemma insert_before_cong:
  "(\<And>y. y \<in> set ys \<Longrightarrow> P y = Q y) \<Longrightarrow> insert_before P x ys = insert_before Q x ys"
  by (induction ys) auto

lemma move_up_stays:
  "\<forall>y \<in> set ps. \<not> better x y \<Longrightarrow> move_up better x ps ys = rev ps @ x # ys"
  by (cases ps) auto

lemma insert_before_append: "\<forall>y \<in> set ys. \<not> P y \<Longrightarrow> insert_before P x ys = ys @ [x]"
  by (induction ys) auto

lemma set_move_up [simp]: "set (move_up better x ps ys) = insert x (set ps \<union> set ys)"
  by (induction ps arbitrary: ys) auto

lemma distinct_move_up [simp]:
  "distinct (move_up better x ps ys) \<longleftrightarrow> distinct (rev ps @ x # ys)"
  by (induction ps arbitrary: ys) auto

text \<open>
  The interface of the orders: a strict weak order.  Entries that neither
  outrank each other may stand in either order.
\<close>

locale rank_order =
  fixes better :: "'a \<Rightarrow> 'a \<Rightarrow> bool"
  assumes better_asym: "better x y \<Longrightarrow> \<not> better y x"
    and better_weak: "better x z \<Longrightarrow> better x y \<or> better y z"
begin

lemma better_irrefl [simp]: "\<not> better x x"
  using better_asym by blast

lemma better_trans: "better x y \<Longrightarrow> better y z \<Longrightarrow> better x z"
  using better_asym better_weak by blast

lemma insert_ranked:
  assumes "ranked better xs"
  shows "ranked better (insert_before (better x) x xs)"
  using assms
  by (induction xs) (auto dest: better_asym better_trans)

lemma move_up_ranked:
  assumes "ranked better (rev ps @ ys)" and "\<forall>y \<in> set ys. \<not> better y x"
  shows "ranked better (move_up better x ps ys)"
  using assms
proof (induction ps arbitrary: ys)
  case Nil
  then show ?case by simp
next
  case (Cons p ps)
  show ?case
  proof (cases "better x p")
    case True
    have "ranked better (rev ps @ p # ys)" and "\<forall>y \<in> set (p # ys). \<not> better y x"
      using Cons.prems True by (auto dest: better_asym)
    then show ?thesis using True Cons.IH by simp
  next
    case False
    have "\<not> better x q" if "q \<in> set ps" for q
      using Cons.prems(1) False that better_weak [of x q p] by (auto simp: ranked_append)
    then show ?thesis using False Cons.prems by (auto simp: ranked_append)
  qed
qed

lemma ranked_hd_best:
  assumes "ranked better xs" and "x \<in> set xs"
  shows "\<not> better x (hd xs)"
  using assms better_asym by (cases xs) auto

end

text \<open>Orders given by a numeric key, least first.\<close>

lemma rank_order_key: "rank_order (\<lambda>x y. (key x :: int) < key y)"
  by unfold_locales auto

lemma ranked_key: "ranked (\<lambda>x y. (key x :: int) < key y) xs \<longleftrightarrow> sorted (map key xs)"
  by (induction xs) (auto simp: not_less)

end
