(* ===== verification/Homa_MsgIn.thy ===== *)
theory Homa_MsgIn
imports Homa_Prelude
begin

text \<open>
  Reassembly of an incoming message: \<open>struct homa_gap\<close> and
  \<open>struct homa_message_in\<close> of \<open>homa_rpc.h\<close>, and \<open>homa_gap_new\<close> and
  \<open>homa_add_packet\<close> of \<open>homa_incoming.c\<close>.  The abstract view of a message is the
  set of byte offsets that have been received; the lemmas show that the gap
  list represents it and that \<open>homa_add_packet\<close> maintains it for packets that
  arrive in any order, more than once, or overlapping earlier ones.
\<close>

section \<open>Data\<close>

record homa_gap =
  gap_start :: int
  gap_end :: int
  gap_time :: nat

text \<open>What the receive path reads of a DATA packet: its offset (the signed value of
  \<open>ntohl(h->seg.offset)\<close>), its payload and the retransmit flag.\<close>

record data_skb =
  sk_offset :: int
  sk_data :: bytes
  sk_retransmit :: bool

definition homa_data_len :: "data_skb \<Rightarrow> int" where
  "homa_data_len skb = int (length (sk_data skb))"

record homa_message_in =
  mi_length :: int
  mi_packets :: "data_skb list"
  mi_recv_end :: int
  mi_gaps :: "homa_gap list"
  mi_bytes_remaining :: int
  mi_granted :: int
  mi_rec_incoming :: int
  mi_rank :: int
  mi_priority :: int
  mi_resend_all :: bool
  mi_birth :: nat
  mi_num_bpages :: int
  mi_bpage_offsets :: "int list"

text \<open>The assignments at the start of \<open>homa_message_in_init\<close>, up to the call of
  \<open>homa_pool_allocate\<close>.\<close>

definition message_in_fields :: "homa_message_in \<Rightarrow> int \<Rightarrow> int \<Rightarrow> homa_message_in" where
  "message_in_fields m len unsched = m \<lparr>
     mi_length := len,
     mi_packets := [],
     mi_recv_end := 0,
     mi_gaps := [],
     mi_bytes_remaining := len,
     mi_granted := (if unsched > len then len else unsched),
     mi_rec_incoming := 0,
     mi_rank := -1,
     mi_priority := 0,
     mi_resend_all := False,
     mi_num_bpages := 0\<rparr>"

section \<open>Operations\<close>

text \<open>A gap object; None when \<open>kmalloc\<close> fails.  The caller links it.\<close>

definition homa_gap_new :: "bool \<Rightarrow> nat \<Rightarrow> int \<Rightarrow> int \<Rightarrow> homa_gap option" where
  "homa_gap_new mem now start end' =
     (if mem then Some \<lparr>gap_start = start, gap_end = end', gap_time = now\<rparr> else None)"

text \<open>
  The loop over the gaps in \<open>homa_add_packet\<close>: \<open>Some\<close> is \<open>goto keep\<close> with the new
  gap list, \<open>None\<close> is \<open>goto discard\<close> (also by leaving the loop at its end).
\<close>

fun gap_fill :: "bool \<Rightarrow> nat \<Rightarrow> int \<Rightarrow> int \<Rightarrow> homa_gap list \<Rightarrow> homa_gap list option" where
  "gap_fill mem now start end' [] = None"
| "gap_fill mem now start end' (gap # gaps) =
     (if start \<le> gap_start gap then
        if end' \<le> gap_start gap then
          map_option ((#) gap) (gap_fill mem now start end' gaps)
        else if start < gap_start gap then None
        else if end' > gap_end gap then None
        else
          let gap' = gap\<lparr>gap_start := end'\<rparr> in
          Some (if gap_start gap' \<ge> gap_end gap' then gaps else gap' # gaps)
      else if end' \<ge> gap_end gap then
        if start \<ge> gap_end gap then
          map_option ((#) gap) (gap_fill mem now start end' gaps)
        else if end' > gap_end gap then None
        else Some (gap\<lparr>gap_end := start\<rparr> # gaps)
      else
        case homa_gap_new mem now (gap_start gap) start of
          None \<Rightarrow> None
        | Some gap2 \<Rightarrow>
            Some (gap2\<lparr>gap_time := gap_time gap\<rparr> # gap\<lparr>gap_start := end'\<rparr> # gaps))"

text \<open>
  \<open>homa_add_packet\<close>.  The flag of the result tells whether the packet was
  kept (queued on \<open>msgin.packets\<close>) or discarded.  All sums are \<open>int\<close> additions in C.
\<close>

definition keep_packet :: "homa_message_in \<Rightarrow> data_skb \<Rightarrow> homa_message_in" where
  "keep_packet m skb = m \<lparr>
     mi_packets := mi_packets m @ [skb],
     mi_bytes_remaining := wrap_s32 (mi_bytes_remaining m - homa_data_len skb)\<rparr>"

definition homa_add_packet ::
  "bool \<Rightarrow> nat \<Rightarrow> homa_message_in \<Rightarrow> data_skb \<Rightarrow> homa_message_in \<times> bool" where
  "homa_add_packet mem now m skb =
     (let start = sk_offset skb;
          len = homa_data_len skb;
          end' = wrap_s32 (start + len)
      in if end' > mi_length m then (m, False)
         else if start = mi_recv_end m then
           (keep_packet (m\<lparr>mi_recv_end := wrap_s32 (mi_recv_end m + len)\<rparr>) skb, True)
         else if start > mi_recv_end m then
           (case homa_gap_new mem now (mi_recv_end m) start of
              None \<Rightarrow> (m, False)
            | Some gap \<Rightarrow>
                (keep_packet (m\<lparr>mi_gaps := mi_gaps m @ [gap], mi_recv_end := end'\<rparr>) skb, True))
         else
           (case gap_fill mem now start end' (mi_gaps m) of
              None \<Rightarrow> (m, False)
            | Some gaps \<Rightarrow> (keep_packet (m\<lparr>mi_gaps := gaps\<rparr>) skb, True)))"

section \<open>The abstract view: the set of bytes received\<close>

definition missing :: "homa_gap list \<Rightarrow> int set" where
  "missing gaps = (\<Union>g \<in> set gaps. {gap_start g ..< gap_end g})"

definition received :: "homa_message_in \<Rightarrow> int set" where
  "received m = {0 ..< mi_recv_end m} - missing (mi_gaps m)"

definition skb_range :: "data_skb \<Rightarrow> int set" where
  "skb_range skb = {sk_offset skb ..< sk_offset skb + homa_data_len skb}"

text \<open>
  The gaps are non-empty, ascending and below \<open>hi\<close>.  With \<open>d = 1\<close> a received byte
  separates each gap from what follows it; that holds when no packet is empty.
\<close>

fun gaps_wf :: "int \<Rightarrow> int \<Rightarrow> homa_gap list \<Rightarrow> int \<Rightarrow> bool" where
  "gaps_wf d lo [] hi \<longleftrightarrow> lo \<le> hi"
| "gaps_wf d lo (g # gs) hi \<longleftrightarrow>
     lo \<le> gap_start g \<and> gap_start g < gap_end g \<and> gaps_wf d (gap_end g + d) gs hi"

definition msgin_wf :: "int \<Rightarrow> homa_message_in \<Rightarrow> bool" where
  "msgin_wf d m \<longleftrightarrow>
     0 \<le> mi_recv_end m \<and> mi_recv_end m \<le> mi_length m \<and> mi_length m < 2 ^ 31 \<and>
     gaps_wf d 0 (mi_gaps m) (mi_recv_end m) \<and>
     mi_bytes_remaining m = mi_length m - int (card (received m))"

lemma missing_simps [simp]:
  "missing [] = {}"
  "missing (g # gs) = {gap_start g ..< gap_end g} \<union> missing gs"
  "missing (gs @ hs) = missing gs \<union> missing hs"
  by (auto simp: missing_def)

lemma homa_gap_new_simps [simp]:
  "homa_gap_new True now s e = Some \<lparr>gap_start = s, gap_end = e, gap_time = now\<rparr>"
  "homa_gap_new False now s e = None"
  by (simp_all add: homa_gap_new_def)

lemma data_len_nonneg: "0 \<le> homa_data_len skb"
  by (simp add: homa_data_len_def)

lemma gaps_wf_le: "0 \<le> d \<Longrightarrow> gaps_wf d lo gs hi \<Longrightarrow> lo \<le> hi"
  by (induction gs arbitrary: lo) fastforce+

lemma gaps_wf_mono: "gaps_wf d lo gs hi \<Longrightarrow> lo' \<le> lo \<Longrightarrow> gaps_wf d lo' gs hi"
  by (cases gs) auto

lemma gaps_wf_hi_mono: "gaps_wf d lo gs hi \<Longrightarrow> hi \<le> hi' \<Longrightarrow> gaps_wf d lo gs hi'"
  by (induction gs arbitrary: lo) auto

lemma missing_bounds:
  "0 \<le> d \<Longrightarrow> gaps_wf d lo gs hi \<Longrightarrow> x \<in> missing gs \<Longrightarrow> lo \<le> x \<and> x < hi"
proof (induction gs arbitrary: lo)
  case (Cons g gs)
  then show ?case using gaps_wf_le [of d "gap_end g + d" gs hi] by fastforce
qed simp

lemma gaps_wf_snoc:
  "gaps_wf d lo gs hi \<Longrightarrow> hi < s \<Longrightarrow> s + d \<le> e \<Longrightarrow>
   gaps_wf d lo (gs @ [\<lparr>gap_start = hi, gap_end = s, gap_time = t\<rparr>]) e"
  by (induction gs arbitrary: lo) auto

text \<open>The loop removes exactly the packet's bytes from the missing ones.\<close>

lemma gap_fill_sound:
  assumes "gap_fill mem now s e gs = Some gs'" and "gaps_wf d lo gs hi"
    and "0 \<le> d" and "s + d \<le> e"
  shows "gaps_wf d lo gs' hi" and "missing gs' = missing gs - {s ..< e}"
    and "{s ..< e} \<subseteq> missing gs"
proof -
  have "gaps_wf d lo gs' hi \<and> missing gs' = missing gs - {s ..< e} \<and> {s ..< e} \<subseteq> missing gs"
    using assms(1,2)
  proof (induction gs arbitrary: lo gs')
    case Nil
    then show ?case by simp
  next
    case (Cons g gs)
    have above: "gap_end g + d \<le> x" if "x \<in> missing gs" for x
      using Cons.prems(2) that missing_bounds [OF assms(3)] by fastforce
    consider (skip) gs1 where "gap_fill mem now s e gs = Some gs1" "gs' = g # gs1"
        "e \<le> gap_start g \<or> gap_end g \<le> s"
      | (whole) "s = gap_start g" "e = gap_end g" "gs' = gs" "gap_start g < e"
      | (head) "s = gap_start g" "gap_start g < e" "e < gap_end g" "gs' = g\<lparr>gap_start := e\<rparr> # gs"
      | (tail) "gap_start g < s" "s < gap_end g" "e = gap_end g" "gs' = g\<lparr>gap_end := s\<rparr> # gs"
      | (middle) t where "gap_start g < s" "e < gap_end g"
          "gs' = \<lparr>gap_start = gap_start g, gap_end = s, gap_time = t\<rparr> # g\<lparr>gap_start := e\<rparr> # gs"
      using Cons.prems(1)
      by (auto simp: homa_gap_new_def Let_def split: if_splits option.splits)
    then show ?case
    proof cases
      case skip
      with Cons.IH [OF skip(1), of "gap_end g + d"] Cons.prems(2) show ?thesis by auto
    next
      case whole
      with Cons.prems(2) show ?thesis
        using above assms(3) by (auto intro: gaps_wf_mono) fastforce+
    next
      case head
      with Cons.prems(2) show ?thesis
        using above assms(3) by (auto) fastforce+
    next
      case tail
      with Cons.prems(2) show ?thesis
        using above assms(3,4) by (auto intro: gaps_wf_mono) fastforce+
    next
      case middle
      with Cons.prems(2) show ?thesis
        using above assms(3,4) by (auto) fastforce+
    qed
  qed
  then show "gaps_wf d lo gs' hi" "missing gs' = missing gs - {s ..< e}"
    "{s ..< e} \<subseteq> missing gs" by blast+
qed

text \<open>With separated gaps the loop accepts every packet that lies in the missing bytes.\<close>

lemma gap_fill_complete:
  assumes "gaps_wf 1 lo gs hi" and "s < e" and "{s ..< e} \<subseteq> missing gs"
  shows "gap_fill True now s e gs \<noteq> None"
  using assms
proof (induction gs arbitrary: lo)
  case Nil
  then show ?case by simp
next
  case (Cons g gs)
  have above: "gap_end g + 1 \<le> x" if "x \<in> missing gs" for x
    using Cons.prems(1) that missing_bounds [of 1] by fastforce
  have low: "gap_start g \<le> s"
  proof -
    have "s \<in> missing (g # gs)" using Cons.prems(2,3) by auto
    then show ?thesis using above [of s] Cons.prems(1) by auto
  qed
  show ?case
  proof (cases "gap_end g \<le> s")
    case True
    then have "{s ..< e} \<subseteq> missing gs" using Cons.prems(3) by fastforce
    with Cons.IH [of "gap_end g + 1"] Cons.prems(1,2) obtain gs' where
      "gap_fill True now s e gs = Some gs'" by auto
    with True low Cons.prems(1,2) show ?thesis by auto
  next
    case False
    have "e \<le> gap_end g"
    proof (rule ccontr)
      assume "\<not> e \<le> gap_end g"
      then have "gap_end g \<in> {s ..< e}" using False by simp
      then have "gap_end g \<in> missing (g # gs)" using Cons.prems(3) by blast
      then show False using above [of "gap_end g"] by auto
    qed
    with False low Cons.prems(2) show ?thesis by (auto simp: Let_def)
  qed
qed

section \<open>Correctness of \<open>homa_add_packet\<close>\<close>

lemma finite_received [simp]: "finite (received m)"
  by (simp add: received_def)

lemma received_keep [simp]: "received (keep_packet m skb) = received m"
  by (simp add: received_def keep_packet_def)

lemma received_bounds: "received m \<subseteq> {0 ..< mi_recv_end m}"
  by (auto simp: received_def)

lemma card_skb_range [simp]: "int (card (skb_range skb)) = homa_data_len skb"
  by (simp add: skb_range_def data_len_nonneg)

text \<open>
  How a packet is accepted.  Whatever branch is taken, the set of bytes received
  grows by exactly the packet's range, which was disjoint from it.
\<close>

lemma add_packet_cases:
  assumes wf: "msgin_wf d m" and d: "0 \<le> d" "d \<le> homa_data_len skb"
    and range: "s32_range (sk_offset skb)" "sk_offset skb + homa_data_len skb < 2 ^ 31"
    and kept: "homa_add_packet mem now m skb = (m', True)"
  obtains gaps recv_end where
    "m' = keep_packet (m\<lparr>mi_gaps := gaps, mi_recv_end := recv_end\<rparr>) skb"
    "gaps_wf d 0 gaps recv_end" "mi_recv_end m \<le> recv_end" "recv_end \<le> mi_length m"
    "received (m\<lparr>mi_gaps := gaps, mi_recv_end := recv_end\<rparr>) = received m \<union> skb_range skb"
    "received m \<inter> skb_range skb = {}"
proof -
  let ?s = "sk_offset skb" and ?n = "homa_data_len skb" and ?r = "mi_recv_end m"
  have e: "wrap_s32 (?s + ?n) = ?s + ?n"
    using range data_len_nonneg [of skb] unfolding s32_range_def
    by (intro wrap_s32_id) auto
  have inv: "gaps_wf d 0 (mi_gaps m) ?r" "0 \<le> ?r" "?r \<le> mi_length m"
    using wf by (auto simp: msgin_wf_def)
  have below: "\<And>x. x \<in> missing (mi_gaps m) \<Longrightarrow> 0 \<le> x \<and> x < ?r"
    using missing_bounds [OF d(1) inv(1)] by simp
  consider (seq) "?s = ?r" "?s + ?n \<le> mi_length m"
      "m' = keep_packet (m\<lparr>mi_recv_end := ?s + ?n\<rparr>) skb"
    | (gap) "?r < ?s" "?s + ?n \<le> mi_length m"
      "m' = keep_packet (m\<lparr>mi_gaps := mi_gaps m @ [\<lparr>gap_start = ?r, gap_end = ?s, gap_time = now\<rparr>],
                           mi_recv_end := ?s + ?n\<rparr>) skb"
    | (fill) gaps where "?s < ?r" "gap_fill mem now ?s (?s + ?n) (mi_gaps m) = Some gaps"
      "m' = keep_packet (m\<lparr>mi_gaps := gaps\<rparr>) skb"
    using kept e
    by (auto simp: homa_add_packet_def homa_gap_new_def Let_def split: if_splits option.splits)
  then show ?thesis
  proof cases
    case seq
    show ?thesis
    proof (rule that [where gaps = "mi_gaps m" and recv_end = "?s + ?n"])
      show "gaps_wf d 0 (mi_gaps m) (?s + ?n)"
        using gaps_wf_hi_mono [OF inv(1)] seq(1) data_len_nonneg [of skb] by simp
    qed (use seq inv(2) below data_len_nonneg [of skb] in \<open>force simp: received_def skb_range_def\<close>)+
  next
    case gap
    show ?thesis
    proof (rule that [where recv_end = "?s + ?n"
          and gaps = "mi_gaps m @ [\<lparr>gap_start = ?r, gap_end = ?s, gap_time = now\<rparr>]"])
      show "gaps_wf d 0 (mi_gaps m @ [\<lparr>gap_start = ?r, gap_end = ?s, gap_time = now\<rparr>]) (?s + ?n)"
        using gaps_wf_snoc [OF inv(1) gap(1)] d(2) by simp
    qed (use gap inv(2) below data_len_nonneg [of skb] in \<open>force simp: received_def skb_range_def\<close>)+
  next
    case fill
    note sound = gap_fill_sound [OF fill(2) inv(1) d(1)]
    have sub: "{?s ..< ?s + ?n} \<subseteq> missing (mi_gaps m)" using sound(3) d(2) by simp
    show ?thesis
    proof (rule that [where gaps = gaps and recv_end = ?r])
      show "gaps_wf d 0 gaps ?r" using sound(1) d(2) by simp
      show "received (m\<lparr>mi_gaps := gaps, mi_recv_end := ?r\<rparr>) = received m \<union> skb_range skb"
        using sound(2) d(2) sub below by (auto simp: received_def skb_range_def)
    qed (use fill(3) inv(3) sub in \<open>auto simp: received_def skb_range_def\<close>)
  qed
qed

lemma add_packet_discard:
  "homa_add_packet mem now m skb = (m', False) \<Longrightarrow> m' = m"
  by (auto simp: homa_add_packet_def Let_def split: if_splits option.splits)

text \<open>One packet refines the addition of its range to the set of received bytes.\<close>

lemma add_packet_kept:
  assumes wf: "msgin_wf d m" and d: "0 \<le> d" "d \<le> homa_data_len skb"
    and range: "s32_range (sk_offset skb)" "sk_offset skb + homa_data_len skb < 2 ^ 31"
    and kept: "homa_add_packet mem now m skb = (m', True)"
  shows "msgin_wf d m'" and "received m' = received m \<union> skb_range skb"
    and "received m \<inter> skb_range skb = {}" and "mi_length m' = mi_length m"
    and "mi_packets m' = mi_packets m @ [skb]"
proof -
  obtain gaps recv_end where m': "m' = keep_packet (m\<lparr>mi_gaps := gaps, mi_recv_end := recv_end\<rparr>) skb"
    and g: "gaps_wf d 0 gaps recv_end" and r: "mi_recv_end m \<le> recv_end" "recv_end \<le> mi_length m"
    and rec: "received (m\<lparr>mi_gaps := gaps, mi_recv_end := recv_end\<rparr>) = received m \<union> skb_range skb"
    and dis: "received m \<inter> skb_range skb = {}"
    using add_packet_cases [OF assms] by blast
  show "received m' = received m \<union> skb_range skb" "received m \<inter> skb_range skb = {}"
    using rec dis m' by simp_all
  show "mi_length m' = mi_length m" "mi_packets m' = mi_packets m @ [skb]"
    by (simp_all add: m' keep_packet_def)
  have card: "int (card (received m \<union> skb_range skb)) = int (card (received m)) + homa_data_len skb"
    using dis by (subst card_Un_disjoint) (simp_all add: skb_range_def data_len_nonneg)
  have "received m \<union> skb_range skb \<subseteq> {0 ..< mi_length m}"
    using r(2) received_bounds rec by fastforce
  then have "card (received m \<union> skb_range skb) \<le> card {0 ..< mi_length m}"
    by (intro card_mono) simp_all
  then show "msgin_wf d m'"
    using wf g r card rec
    by (auto simp: msgin_wf_def m' keep_packet_def received_def wrap_simps)
qed

lemma separated_last_received:
  "gaps_wf 1 lo gs hi \<Longrightarrow> lo < hi \<Longrightarrow> hi - 1 \<notin> missing gs"
proof (induction gs arbitrary: lo)
  case (Cons g gs)
  then have "gap_end g + 1 \<le> hi" using gaps_wf_le [of 1 "gap_end g + 1" gs hi] by simp
  with Cons.IH [of "gap_end g + 1"] Cons.prems(1) missing_bounds [of 1 "gap_end g + 1" gs hi "hi - 1"]
  show ?case by (cases "gap_end g + 1 < hi") auto
qed simp

text \<open>A non-empty packet inside the message that overlaps nothing received is kept.\<close>

lemma add_packet_accepts:
  assumes wf: "msgin_wf 1 m" and pos: "0 < homa_data_len skb" "0 \<le> sk_offset skb"
    and fits: "sk_offset skb + homa_data_len skb \<le> mi_length m"
    and new: "received m \<inter> skb_range skb = {}"
  shows "snd (homa_add_packet True now m skb)"
proof -
  let ?s = "sk_offset skb" and ?e = "sk_offset skb + homa_data_len skb" and ?r = "mi_recv_end m"
  have e: "wrap_s32 ?e = ?e"
    using pos fits wf by (intro wrap_s32_id) (auto simp: msgin_wf_def)
  have inv: "gaps_wf 1 0 (mi_gaps m) ?r" using wf by (simp add: msgin_wf_def)
  have "gap_fill True now ?s ?e (mi_gaps m) \<noteq> None" if "?s < ?r"
  proof (rule gap_fill_complete [OF inv])
    have "?r - 1 \<in> received m"
      using separated_last_received [OF inv] that pos(2) by (auto simp: received_def)
    then have "?e \<le> ?r" using new that by (fastforce simp: skb_range_def)
    then have "x \<in> missing (mi_gaps m)" if "x \<in> {?s ..< ?e}" for x
    proof -
      have "x \<notin> received m" using new that by (auto simp: skb_range_def)
      then show ?thesis using that pos(2) \<open>?e \<le> ?r\<close> by (auto simp: received_def)
    qed
    then show "{?s ..< ?e} \<subseteq> missing (mi_gaps m)" by blast
  qed (use pos in simp)
  then show ?thesis using fits by (auto simp: homa_add_packet_def Let_def e)
qed

section \<open>A whole message\<close>

definition homa_add_packets :: "nat \<Rightarrow> homa_message_in \<Rightarrow> data_skb list \<Rightarrow> homa_message_in" where
  "homa_add_packets now m skbs = foldl (\<lambda>m skb. fst (homa_add_packet True now m skb)) m skbs"

text \<open>Packets that a sender cuts from one message: any two carry the same range or
  disjoint ranges.\<close>

definition segments_of :: "int \<Rightarrow> data_skb set \<Rightarrow> bool" where
  "segments_of len S \<longleftrightarrow>
     (\<forall>p \<in> S. 0 \<le> sk_offset p \<and> 0 < homa_data_len p \<and> sk_offset p + homa_data_len p \<le> len) \<and>
     (\<forall>p \<in> S. \<forall>q \<in> S. skb_range p = skb_range q \<or> skb_range p \<inter> skb_range q = {})"

lemma message_in_fields_wf:
  "0 \<le> len \<Longrightarrow> len < 2 ^ 31 \<Longrightarrow> msgin_wf d (message_in_fields m len unsched)"
  by (simp add: msgin_wf_def message_in_fields_def received_def)

lemma message_in_fields_received [simp]: "received (message_in_fields m len unsched) = {}"
  by (simp add: message_in_fields_def received_def)

lemma add_packet_segment:
  assumes seg: "segments_of (mi_length m) S" "A \<subseteq> S" "p \<in> S"
    and wf: "msgin_wf 1 m" and rec: "received m = \<Union> (skb_range ` A)"
  shows "msgin_wf 1 (fst (homa_add_packet True now m p))"
    and "received (fst (homa_add_packet True now m p)) = \<Union> (skb_range ` insert p A)"
    and "mi_length (fst (homa_add_packet True now m p)) = mi_length m"
proof -
  obtain m' kept where r: "homa_add_packet True now m p = (m', kept)" by fastforce
  have p: "0 \<le> sk_offset p" "0 < homa_data_len p" "sk_offset p + homa_data_len p \<le> mi_length m"
    using seg by (auto simp: segments_of_def)
  have fits: "s32_range (sk_offset p)" "sk_offset p + homa_data_len p < 2 ^ 31"
    using p wf by (auto simp: s32_range_def msgin_wf_def)
  note keep = add_packet_kept [OF wf _ _ fits]
  have "msgin_wf 1 m' \<and> received m' = \<Union> (skb_range ` insert p A) \<and> mi_length m' = mi_length m"
  proof (cases kept)
    case True
    with r p(2) have "homa_add_packet True now m p = (m', True)" by simp
    from keep [OF _ _ this] p(2) rec show ?thesis by auto
  next
    case False
    with r have m': "m' = m" using add_packet_discard [of True now m p m'] by simp
    have "received m \<inter> skb_range p \<noteq> {}"
      using add_packet_accepts [OF wf p(2,1,3), of now] r False by auto
    then obtain q where "q \<in> A" "skb_range q \<inter> skb_range p \<noteq> {}" using rec by auto
    then have "skb_range p = skb_range q" using seg unfolding segments_of_def by blast
    then show ?thesis using m' rec wf \<open>q \<in> A\<close> by auto
  qed
  then show "msgin_wf 1 (fst (homa_add_packet True now m p))"
    "received (fst (homa_add_packet True now m p)) = \<Union> (skb_range ` insert p A)"
    "mi_length (fst (homa_add_packet True now m p)) = mi_length m" using r by auto
qed

lemma add_packets_segments:
  assumes "segments_of (mi_length m) S" "A \<subseteq> S" "set arrivals \<subseteq> S"
    and "msgin_wf 1 m" "received m = \<Union> (skb_range ` A)"
  shows "msgin_wf 1 (homa_add_packets now m arrivals) \<and>
    received (homa_add_packets now m arrivals) = \<Union> (skb_range ` (A \<union> set arrivals)) \<and>
    mi_length (homa_add_packets now m arrivals) = mi_length m"
  using assms
proof (induction arrivals arbitrary: m A)
  case Nil
  then show ?case by (simp add: homa_add_packets_def)
next
  case (Cons p ps)
  then have "p \<in> S" by simp
  note step = add_packet_segment [OF Cons.prems(1,2) this Cons.prems(4,5), of now]
  from Cons.IH [of "fst (homa_add_packet True now m p)" "insert p A"] Cons.prems step
  show ?case by (simp add: homa_add_packets_def)
qed

lemma all_received_iff:
  assumes "msgin_wf d m"
  shows "mi_bytes_remaining m = 0 \<longleftrightarrow> received m = {0 ..< mi_length m}"
proof
  assume "mi_bytes_remaining m = 0"
  then have "card (received m) = card {0 ..< mi_length m}"
    using assms by (simp add: msgin_wf_def)
  moreover have "received m \<subseteq> {0 ..< mi_length m}"
    using received_bounds [of m] assms by (fastforce simp: msgin_wf_def)
  ultimately show "received m = {0 ..< mi_length m}"
    by (intro card_subset_eq) simp_all
next
  assume "received m = {0 ..< mi_length m}"
  then show "mi_bytes_remaining m = 0" using assms by (simp add: msgin_wf_def)
qed

section \<open>Properties\<close>

text \<open>
  C1: \<open>homa_add_packet\<close> refines set insertion.  For every packet whose end does not
  overflow an \<open>int\<close>, the gap list stays well formed, the bytes received grow by
  exactly the packet's range when it is kept (and then nothing in it had been
  received before), and nothing changes when it is discarded.
\<close>

theorem homa_add_packet_refines:
  assumes "msgin_wf 0 m" and "s32_range (sk_offset skb)"
    and "sk_offset skb + homa_data_len skb < 2 ^ 31"
    and "homa_add_packet mem now m skb = (m', kept)"
  shows "msgin_wf 0 m' \<and> mi_length m' = mi_length m \<and>
    (if kept then received m' = received m \<union> skb_range skb \<and> received m \<inter> skb_range skb = {}
     else m' = m)"
proof (cases kept)
  case True
  then show ?thesis
    using add_packet_kept [OF assms(1) _ _ assms(2,3)] assms(4) data_len_nonneg by auto
next
  case False
  then show ?thesis using add_packet_discard [of mem now m skb m'] assms(1,4) by simp
qed

definition example_skb :: "int \<Rightarrow> nat \<Rightarrow> data_skb" where
  "example_skb off len = \<lparr>sk_offset = off, sk_data = replicate len 0, sk_retransmit = False\<rparr>"

definition example_msgin :: homa_message_in where
  "example_msgin = \<lparr>mi_length = 10, mi_packets = [], mi_recv_end = 6,
     mi_gaps = [\<lparr>gap_start = 1, gap_end = 4, gap_time = 0\<rparr>], mi_bytes_remaining = 7,
     mi_granted = 10, mi_rec_incoming = 0, mi_rank = -1, mi_priority = 0, mi_resend_all = False,
     mi_birth = 0, mi_num_bpages = 1, mi_bpage_offsets = [0]\<rparr>"

lemma example_received: "received example_msgin = {0, 4, 5}"
  by (auto simp: received_def example_msgin_def)

lemma example_msgin_wf: "msgin_wf d example_msgin \<longleftrightarrow> d \<le> 2"
  by (simp add: msgin_wf_def example_received) (auto simp: example_msgin_def)

lemma homa_add_packet_refines_witness:
  "\<exists>m'. homa_add_packet True 5 example_msgin (example_skb 2 1) = (m', True) \<and> msgin_wf 0 m' \<and>
     received m' = {0, 2, 4, 5}"
proof -
  obtain m' where r: "homa_add_packet True 5 example_msgin (example_skb 2 1) = (m', True)"
    by (simp add: homa_add_packet_def example_msgin_def example_skb_def homa_data_len_def
        wrap_s32_def Let_def)
  have "skb_range (example_skb 2 1) = {2}"
    by (auto simp: skb_range_def example_skb_def homa_data_len_def)
  then show ?thesis
    using homa_add_packet_refines [OF _ _ _ r] r
    by (auto simp: example_msgin_wf example_received s32_range_def example_skb_def homa_data_len_def)
qed

text \<open>
  C2: Reassembly of a whole message.  Let a sender cut a message of \<open>len\<close> bytes
  into segments.  Whatever the order in which packets of these segments arrive,
  and however often each arrives, the bytes received are exactly the union of
  the ranges that arrived, and \<open>bytes_remaining\<close> is zero exactly when they cover
  the message.
\<close>

theorem homa_message_reassembly:
  assumes "0 \<le> len" and "len < 2 ^ 31" and "segments_of len S" and "set arrivals \<subseteq> S"
  shows "let m' = homa_add_packets now (message_in_fields m len unsched) arrivals in
    received m' = \<Union> (skb_range ` set arrivals) \<and>
    (mi_bytes_remaining m' = 0 \<longleftrightarrow> \<Union> (skb_range ` set arrivals) = {0 ..< len})"
proof -
  let ?m = "message_in_fields m len unsched"
  have "mi_length ?m = len" by (simp add: message_in_fields_def)
  with assms have "msgin_wf 1 (homa_add_packets now ?m arrivals) \<and>
    received (homa_add_packets now ?m arrivals) = \<Union> (skb_range ` ({} \<union> set arrivals)) \<and>
    mi_length (homa_add_packets now ?m arrivals) = mi_length ?m"
    by (intro add_packets_segments [where S = S]) (auto intro: message_in_fields_wf)
  with \<open>mi_length ?m = len\<close> show ?thesis
    using all_received_iff [of 1 "homa_add_packets now ?m arrivals"] by (simp add: Let_def)
qed

lemma homa_message_reassembly_witness:
  "mi_bytes_remaining (homa_add_packets 3 (message_in_fields example_msgin 5 5)
     [example_skb 2 2, example_skb 4 1, example_skb 2 2, example_skb 0 2]) = 0"
proof -
  let ?S = "{example_skb 0 2, example_skb 2 2, example_skb 4 1}"
  have ranges: "skb_range (example_skb 0 2) = {0, 1}" "skb_range (example_skb 2 2) = {2, 3}"
    "skb_range (example_skb 4 1) = {4}" "skb_range (example_skb 4 (Suc 0)) = {4}"
    by (auto simp: skb_range_def example_skb_def homa_data_len_def)
  have "segments_of 5 ?S"
    by (simp add: segments_of_def ranges) (simp add: example_skb_def homa_data_len_def)
  moreover have "{0 ..< 5 :: int} = {0, 1, 2, 3, 4}" by auto
  ultimately show ?thesis
    using homa_message_reassembly [of 5 ?S
        "[example_skb 2 2, example_skb 4 1, example_skb 2 2, example_skb 0 2]" 3 example_msgin 5]
    by (auto simp: Let_def ranges)
qed

text \<open>
  \<open>homa_add_packet\<close> never drops new data.  When memory is available, a non-empty
  packet that lies inside the message and overlaps no byte already received is
  kept, so a retransmitted packet can always fill its gap.
\<close>

theorem homa_add_packet_accepts_new:
  assumes "msgin_wf 1 m" and "0 < homa_data_len skb" and "0 \<le> sk_offset skb"
    and "sk_offset skb + homa_data_len skb \<le> mi_length m"
    and "received m \<inter> skb_range skb = {}"
  shows "\<exists>m'. homa_add_packet True now m skb = (m', True) \<and> msgin_wf 1 m' \<and>
    received m' = received m \<union> skb_range skb \<and>
    mi_bytes_remaining m' = mi_bytes_remaining m - homa_data_len skb"
proof -
  obtain m' where r: "homa_add_packet True now m skb = (m', True)"
    using add_packet_accepts [OF assms, of now] by (metis prod.collapse)
  have fits: "s32_range (sk_offset skb)" "sk_offset skb + homa_data_len skb < 2 ^ 31"
    using assms(1-4) by (auto simp: s32_range_def msgin_wf_def)
  have d: "0 \<le> (1 :: int)" "1 \<le> homa_data_len skb" using assms(2) by simp_all
  note k = add_packet_kept [OF assms(1) d fits r]
  have "card (received m') = card (received m) + card (skb_range skb)"
    using k(2,3) by (simp add: card_Un_disjoint skb_range_def)
  with k assms(1) r card_skb_range [of skb] show ?thesis by (auto simp: msgin_wf_def)
qed

lemma homa_add_packet_accepts_new_witness:
  "\<exists>m'. homa_add_packet True 9 example_msgin (example_skb 1 3) = (m', True) \<and>
     received m' = {0, 1, 2, 3, 4, 5} \<and> mi_bytes_remaining m' = 4"
proof -
  have "skb_range (example_skb 1 3) = {1, 2, 3}"
    by (auto simp: skb_range_def example_skb_def homa_data_len_def)
  then show ?thesis
    using homa_add_packet_accepts_new [of example_msgin "example_skb 1 3" 9]
    by (auto simp: example_msgin_wf example_received example_skb_def homa_data_len_def)
      (auto simp: example_msgin_def)
qed

text \<open>
  C35: The bound on the packet's end in C1 is needed.  The code compares
  \<open>start + length\<close> with the message length in 32-bit arithmetic: a packet
  beyond the data received so far whose end exceeds \<open>INT_MAX\<close> passes the check, is
  kept although it lies outside the message, and makes \<open>recv_end\<close> negative.
\<close>

theorem homa_add_packet_end_wraps:
  assumes "mi_recv_end m < sk_offset skb" and "0 \<le> mi_length m" and "sk_offset skb < 2 ^ 31"
    and "2 ^ 31 \<le> sk_offset skb + homa_data_len skb"
    and "homa_data_len skb < 2 ^ 31"
  shows "\<exists>m'. homa_add_packet True now m skb = (m', True) \<and> mi_recv_end m' < 0 \<and>
    \<not> msgin_wf d m'"
proof -
  let ?x = "sk_offset skb + homa_data_len skb"
  have "wrap_s32 ?x = ?x - 2 ^ 32"
    using assms(3-5) by (simp add: wrap_s32_over)
  with assms show ?thesis
    by (auto simp: homa_add_packet_def Let_def keep_packet_def msgin_wf_def)
qed

lemma homa_add_packet_end_wraps_witness:
  "\<exists>m'. homa_add_packet True 1 example_msgin (example_skb 2147483647 1) = (m', True) \<and>
     mi_recv_end m' < 0 \<and> \<not> msgin_wf 0 m'"
  using homa_add_packet_end_wraps [of example_msgin "example_skb 2147483647 1" 1 0]
  by (simp add: example_msgin_def example_skb_def homa_data_len_def)

end
