(* ===== verification/Homa_Wire.thy ===== *)
theory Homa_Wire
imports Homa_Prelude
begin

text \<open>
  The wire format of Homa packets (\<open>homa_wire.h\<close>).  Each packed struct is a record
  together with its decoder, which reads the big-endian fields in the order the struct declares them, and an
  encoder, which is the decoder's inverse and shows that it reads every field once.  The interface \<open>codec\<close> collects
  what the rest of the code relies on; it is interpreted for every header.
\<close>

unbundle bit_operations_syntax

section \<open>Codecs\<close>

type_synonym 'a decoder = "bytes \<Rightarrow> ('a \<times> bytes) option"

definition dec_pair :: "'a decoder \<Rightarrow> 'b decoder \<Rightarrow> ('a \<times> 'b) decoder" where
  "dec_pair d1 d2 bs =
     (case d1 bs of None \<Rightarrow> None
      | Some (x, r) \<Rightarrow> (case d2 r of None \<Rightarrow> None | Some (y, r') \<Rightarrow> Some ((x, y), r')))"

definition enc_pair :: "('a \<Rightarrow> bytes) \<Rightarrow> ('b \<Rightarrow> bytes) \<Rightarrow> 'a \<times> 'b \<Rightarrow> bytes" where
  "enc_pair e1 e2 p = e1 (fst p) @ e2 (snd p)"

definition dec_map :: "('a \<Rightarrow> 'b) \<Rightarrow> 'a decoder \<Rightarrow> 'b decoder" where
  "dec_map f d bs = map_option (\<lambda>(x, r). (f x, r)) (d bs)"

fun dec_array :: "nat \<Rightarrow> 'a decoder \<Rightarrow> 'a list decoder" where
  "dec_array 0 d bs = Some ([], bs)"
| "dec_array (Suc n) d bs =
     (case d bs of None \<Rightarrow> None
      | Some (x, r) \<Rightarrow>
          (case dec_array n d r of None \<Rightarrow> None | Some (xs, r') \<Rightarrow> Some (x # xs, r')))"

definition enc_array :: "('a \<Rightarrow> bytes) \<Rightarrow> 'a list \<Rightarrow> bytes" where
  "enc_array e xs = concat (map e xs)"

locale codec =
  fixes enc :: "'a \<Rightarrow> bytes" and dec :: "'a decoder" and valid :: "'a \<Rightarrow> bool" and size :: nat
  assumes dec_enc_app: "valid x \<Longrightarrow> dec (enc x @ rest) = Some (x, rest)"
    and dec_Some: "dec bs = Some (x, rest) \<Longrightarrow> valid x \<and> bs = enc x @ rest"
    and dec_None: "dec bs = None \<longleftrightarrow> length bs < size"
begin

lemma dec_enc: "valid x \<Longrightarrow> dec (enc x) = Some (x, [])"
  using dec_enc_app [of x "[]"] by simp

lemma length_enc:
  assumes "valid x"
  shows "length (enc x) = size"
proof -
  have ge: "size \<le> length (enc x)"
    using dec_enc [OF assms] dec_None [of "enc x"] by (simp add: not_less)
  then have "dec (take size (enc x)) \<noteq> None" using dec_None [of "take size (enc x)"] by simp
  then obtain y r where "dec (take size (enc x)) = Some (y, r)" by auto
  then have y: "valid y" "take size (enc x) = enc y @ r" using dec_Some by auto
  have "enc x = take size (enc x) @ drop size (enc x)" by simp
  then have "enc x = enc y @ (r @ drop size (enc x))" unfolding y(2) by simp
  then have "dec (enc x) = Some (y, r @ drop size (enc x))"
    using dec_enc_app [OF y(1), of "r @ drop size (enc x)"] by metis
  with dec_enc [OF assms] ge show ?thesis by simp
qed

lemma enc_prefix_free:
  assumes "valid x" "valid y" "enc x @ r = enc y @ r'"
  shows "x = y \<and> r = r'"
proof -
  have "Some (x, r) = dec (enc x @ r)" by (rule dec_enc_app [OF assms(1), symmetric])
  also have "\<dots> = Some (y, r')" unfolding assms(3) by (rule dec_enc_app [OF assms(2)])
  finally show ?thesis by simp
qed

lemma dec_complete: "size \<le> length bs \<Longrightarrow> \<exists>x rest. dec bs = Some (x, rest)"
  using dec_None [of bs] by (cases "dec bs") auto

end

text \<open>Codecs compose: pairs, changes of representation, arrays.\<close>

lemma codec_pair:
  assumes "codec e1 d1 v1 n1" and "codec e2 d2 v2 n2"
  shows "codec (enc_pair e1 e2) (dec_pair d1 d2) (\<lambda>p. v1 (fst p) \<and> v2 (snd p)) (n1 + n2)"
proof
  fix p rest
  assume "v1 (fst p) \<and> v2 (snd p)"
  then show "dec_pair d1 d2 (enc_pair e1 e2 p @ rest) = Some (p, rest)"
    using codec.dec_enc_app [OF assms(1)] codec.dec_enc_app [OF assms(2)]
    by (simp add: dec_pair_def enc_pair_def)
next
  fix bs p rest
  assume "dec_pair d1 d2 bs = Some (p, rest)"
  then show "(v1 (fst p) \<and> v2 (snd p)) \<and> bs = enc_pair e1 e2 p @ rest"
    using codec.dec_Some [OF assms(1)] codec.dec_Some [OF assms(2)]
    by (fastforce simp: dec_pair_def enc_pair_def split: option.splits)
next
  fix bs
  show "dec_pair d1 d2 bs = None \<longleftrightarrow> length bs < n1 + n2"
  proof (cases "d1 bs")
    case None
    then show ?thesis
      using codec.dec_None [OF assms(1), of bs] by (simp add: dec_pair_def)
  next
    case (Some xr)
    obtain x r where xr: "xr = (x, r)" by fastforce
    then have "v1 x" "bs = e1 x @ r" using Some codec.dec_Some [OF assms(1)] by auto
    then have "length bs = n1 + length r" using codec.length_enc [OF assms(1)] by simp
    then show ?thesis
      using codec.dec_None [OF assms(2), of r] Some xr
      by (auto simp: dec_pair_def split: option.splits)
  qed
qed

lemma codec_map:
  assumes "codec e d v n" and "\<And>x. f (g x) = x" and "\<And>y. g (f y) = y"
  shows "codec (\<lambda>x. e (g x)) (dec_map f d) (\<lambda>x. v (g x)) n"
proof
  fix x rest
  assume "v (g x)"
  then show "dec_map f d (e (g x) @ rest) = Some (x, rest)"
    using codec.dec_enc_app [OF assms(1)] assms(2) by (simp add: dec_map_def)
next
  fix bs x rest
  assume "dec_map f d bs = Some (x, rest)"
  then show "v (g x) \<and> bs = e (g x) @ rest"
    using codec.dec_Some [OF assms(1)] assms(3) by (fastforce simp: dec_map_def)
next
  fix bs
  show "dec_map f d bs = None \<longleftrightarrow> length bs < n"
    using codec.dec_None [OF assms(1), of bs] by (simp add: dec_map_def)
qed

lemma codec_array:
  assumes "codec e d v n"
  shows "codec (enc_array e) (dec_array k d) (\<lambda>xs. length xs = k \<and> list_all v xs) (k * n)"
proof (induction k)
  case 0
  show ?case by unfold_locales (auto simp: enc_array_def)
next
  case (Suc k)
  have step: "dec_array (Suc k) d = dec_map (\<lambda>(x, xs). x # xs) (dec_pair d (dec_array k d))"
    by (rule ext) (auto simp: dec_map_def dec_pair_def split: option.splits)
  have pair: "codec (enc_pair e (enc_array e)) (dec_pair d (dec_array k d))
    (\<lambda>p. v (fst p) \<and> length (snd p) = k \<and> list_all v (snd p)) (n + k * n)"
    using codec_pair [OF assms Suc.IH] .
  show ?case
  proof
    fix xs rest
    assume "length xs = Suc k \<and> list_all v xs"
    then obtain y ys where "xs = y # ys" "v y" "length ys = k" "list_all v ys"
      by (cases xs) auto
    then show "dec_array (Suc k) d (enc_array e xs @ rest) = Some (xs, rest)"
      using codec.dec_enc_app [OF pair, of "(y, ys)" rest]
      by (simp add: step dec_map_def enc_pair_def enc_array_def)
  next
    fix bs xs rest
    assume "dec_array (Suc k) d bs = Some (xs, rest)"
    then obtain y ys where "xs = y # ys" "dec_pair d (dec_array k d) bs = Some ((y, ys), rest)"
      by (auto simp: step dec_map_def simp del: dec_array.simps)
    then show "(length xs = Suc k \<and> list_all v xs) \<and> bs = enc_array e xs @ rest"
      using codec.dec_Some [OF pair, of bs "(y, ys)" rest]
      by (simp add: enc_pair_def enc_array_def)
  next
    fix bs
    show "dec_array (Suc k) d bs = None \<longleftrightarrow> length bs < Suc k * n"
      using codec.dec_None [OF pair, of bs]
      by (simp add: step dec_map_def del: dec_array.simps)
  qed
qed

section \<open>Big-endian integers\<close>

definition enc_u8 :: "u8 \<Rightarrow> bytes" where
  "enc_u8 b = [b]"

fun dec_u8 :: "u8 decoder" where
  "dec_u8 (b # r) = Some (b, r)"
| "dec_u8 [] = None"

definition be16_of :: "u8 \<Rightarrow> u8 \<Rightarrow> u16" where
  "be16_of a b = push_bit 8 (ucast a) OR ucast b"

definition enc_be16 :: "u16 \<Rightarrow> bytes" where
  "enc_be16 w = [ucast (drop_bit 8 w), ucast w]"

fun dec_be16 :: "u16 decoder" where
  "dec_be16 (a # b # r) = Some (be16_of a b, r)"
| "dec_be16 _ = None"

definition be32_of :: "u16 \<Rightarrow> u16 \<Rightarrow> u32" where
  "be32_of a b = push_bit 16 (ucast a) OR ucast b"

definition enc_be32 :: "u32 \<Rightarrow> bytes" where
  "enc_be32 w = enc_pair enc_be16 enc_be16 (ucast (drop_bit 16 w), ucast w)"

definition dec_be32 :: "u32 decoder" where
  "dec_be32 = dec_map (\<lambda>(hi, lo). be32_of hi lo) (dec_pair dec_be16 dec_be16)"

definition be64_of :: "u32 \<Rightarrow> u32 \<Rightarrow> u64" where
  "be64_of a b = push_bit 32 (ucast a) OR ucast b"

definition enc_be64 :: "u64 \<Rightarrow> bytes" where
  "enc_be64 w = enc_pair enc_be32 enc_be32 (ucast (drop_bit 32 w), ucast w)"

definition dec_be64 :: "u64 decoder" where
  "dec_be64 = dec_map (\<lambda>(hi, lo). be64_of hi lo) (dec_pair dec_be32 dec_be32)"

lemma be16_join: "be16_of (ucast (drop_bit 8 w)) (ucast w) = w"
  by (rule bit_word_eqI) (auto simp: be16_of_def bit_simps)

lemma be16_split: "ucast (drop_bit 8 (be16_of a b)) = a" "ucast (be16_of a b) = b"
  unfolding be16_of_def
  by (rule bit_word_eqI, auto simp: bit_simps dest: bit_imp_le_length)+

lemma be32_join: "be32_of (ucast (drop_bit 16 w)) (ucast w) = w"
  by (rule bit_word_eqI) (auto simp: be32_of_def bit_simps)

lemma be32_split: "ucast (drop_bit 16 (be32_of a b)) = a" "ucast (be32_of a b) = b"
  unfolding be32_of_def
  by (rule bit_word_eqI, auto simp: bit_simps dest: bit_imp_le_length)+

lemma be64_join: "be64_of (ucast (drop_bit 32 w)) (ucast w) = w"
  by (rule bit_word_eqI) (auto simp: be64_of_def bit_simps)

lemma be64_split: "ucast (drop_bit 32 (be64_of a b)) = a" "ucast (be64_of a b) = b"
  unfolding be64_of_def
  by (rule bit_word_eqI, auto simp: bit_simps dest: bit_imp_le_length)+

interpretation u8: codec enc_u8 dec_u8 "\<lambda>_. True" 1
  by unfold_locales (auto simp: enc_u8_def elim: dec_u8.elims)

interpretation be16: codec enc_be16 dec_be16 "\<lambda>_. True" 2
proof
  fix bs
  show "dec_be16 bs = None \<longleftrightarrow> length bs < 2" by (cases bs rule: dec_be16.cases) auto
qed (auto simp: enc_be16_def be16_join be16_split elim!: dec_be16.elims)

interpretation be32: codec enc_be32 dec_be32 "\<lambda>_. True" 4
  using codec_map [OF codec_pair [OF be16.codec_axioms be16.codec_axioms],
      of "\<lambda>(hi, lo). be32_of hi lo" "\<lambda>w. (ucast (drop_bit 16 w), ucast w)"]
  by (simp add: be32_join be32_split split_beta enc_be32_def [abs_def] dec_be32_def)

interpretation be64: codec enc_be64 dec_be64 "\<lambda>_. True" 8
  using codec_map [OF codec_pair [OF be32.codec_axioms be32.codec_axioms],
      of "\<lambda>(hi, lo). be64_of hi lo" "\<lambda>w. (ucast (drop_bit 32 w), ucast w)"]
  by (simp add: be64_join be64_split split_beta enc_be64_def [abs_def] dec_be64_def)


section \<open>Constants\<close>

definition HOMA_MAX_PRIORITIES :: nat where "HOMA_MAX_PRIORITIES = 8"
definition HOMA_MAX_ACKS_PER_PKT :: nat where "HOMA_MAX_ACKS_PER_PKT = 5"
definition HOMA_MAX_HEADER :: nat where "HOMA_MAX_HEADER = 90"
definition HOMA_MIN_PKT_LENGTH :: nat where "HOMA_MIN_PKT_LENGTH = 26"
definition HOMA_IPV6_HEADER_LENGTH :: nat where "HOMA_IPV6_HEADER_LENGTH = 40"
definition HOMA_IPV4_HEADER_LENGTH :: nat where "HOMA_IPV4_HEADER_LENGTH = 20"
definition HOMA_ETH_OVERHEAD :: nat where "HOMA_ETH_OVERHEAD = 42"
definition HOMA_TCP_FLAGS :: u8 where "HOMA_TCP_FLAGS = 6"
definition HOMA_TCP_URGENT :: u16 where "HOMA_TCP_URGENT = 0xb97d"

text \<open>\<open>enum homa_packet_type\<close>, without the value used only in unit tests.\<close>

datatype homa_packet_type =
  DATA | GRANT | RESEND | UNKNOWN | BUSY | CUTOFFS | FREEZE | NEED_ACK | ACK

primrec type_code :: "homa_packet_type \<Rightarrow> u8" where
  "type_code DATA = 0x10"
| "type_code GRANT = 0x11"
| "type_code RESEND = 0x12"
| "type_code UNKNOWN = 0x13"
| "type_code BUSY = 0x14"
| "type_code CUTOFFS = 0x15"
| "type_code FREEZE = 0x16"
| "type_code NEED_ACK = 0x17"
| "type_code ACK = 0x18"

definition packet_types :: "homa_packet_type list" where
  "packet_types = [DATA, GRANT, RESEND, UNKNOWN, BUSY, CUTOFFS, FREEZE, NEED_ACK, ACK]"

text \<open>The packet type that a type byte stands for; None for a byte that names none.\<close>

definition packet_type_of :: "u8 \<Rightarrow> homa_packet_type option" where
  "packet_type_of b = find (\<lambda>t. type_code t = b) packet_types"

lemma packet_type_roundtrip [simp]: "packet_type_of (type_code t) = Some t"
  by (cases t) (simp_all add: packet_type_of_def packet_types_def)

lemma packet_type_of_Some: "packet_type_of b = Some t \<Longrightarrow> type_code t = b"
  by (auto simp: packet_type_of_def find_Some_iff)

section \<open>Headers\<close>

lemmas c8 = u8.codec_axioms
lemmas c16 = be16.codec_axioms
lemmas c32 = be32.codec_axioms
lemmas c64 = be64.codec_axioms

text \<open>A struct is the tuple of its fields, encoded field by field.\<close>

lemma codec_record:
  assumes "codec e d v n" and "\<And>x. f (g x) = x" and "\<And>y. g (f y) = y"
    and "\<And>x. enc x = e (g x)" and "dec = dec_map f d" and "\<And>x. v' x \<longleftrightarrow> v (g x)" and "n' = n"
  shows "codec enc dec v' n'"
proof -
  have "enc = (\<lambda>x. e (g x))" "v' = (\<lambda>x. v (g x))" using assms(4,6) by auto
  then show ?thesis using codec_map [OF assms(1), of f g] assms(2,3,5,7) by simp
qed

text \<open>The first bytes of every Homa packet, laid out as a TCP header.\<close>

record homa_common_hdr =
  ch_sport :: u16
  ch_dport :: u16
  ch_sequence :: u32
  ch_ack1 :: u16
  ch_ack2 :: u8
  ch_type :: u8
  ch_doff :: u8
  ch_flags :: u8
  ch_window :: u16
  ch_checksum :: u16
  ch_urgent :: u16
  ch_sender_id :: u64

definition enc_common_hdr :: "homa_common_hdr \<Rightarrow> bytes" where
  "enc_common_hdr h = enc_pair enc_be16 (enc_pair enc_be16 (enc_pair enc_be32 (enc_pair
     enc_be16 (enc_pair enc_u8 (enc_pair enc_u8 (enc_pair enc_u8 (enc_pair enc_u8 (enc_pair
     enc_be16 (enc_pair enc_be16 (enc_pair enc_be16 enc_be64)))))))))) (ch_sport h,
     ch_dport h, ch_sequence h, ch_ack1 h, ch_ack2 h, ch_type h, ch_doff h, ch_flags h,
     ch_window h, ch_checksum h, ch_urgent h, ch_sender_id h)"

definition dec_common_hdr :: "homa_common_hdr decoder" where
  "dec_common_hdr = dec_map (\<lambda>(sport', dport', sequence', ack1', ack2', type',
     doff', flags', window', checksum', urgent', sender_id'). \<lparr>ch_sport = sport',
     ch_dport = dport', ch_sequence = sequence', ch_ack1 = ack1', ch_ack2 = ack2', ch_type
     = type', ch_doff = doff', ch_flags = flags', ch_window = window', ch_checksum =
     checksum', ch_urgent = urgent', ch_sender_id = sender_id'\<rparr>) (dec_pair dec_be16
     (dec_pair dec_be16 (dec_pair dec_be32 (dec_pair dec_be16 (dec_pair dec_u8 (dec_pair
     dec_u8 (dec_pair dec_u8 (dec_pair dec_u8 (dec_pair dec_be16 (dec_pair dec_be16
     (dec_pair dec_be16 dec_be64)))))))))))"

interpretation common_hdr: codec enc_common_hdr dec_common_hdr "\<lambda>_. True" 28
  by (rule codec_record [where f = "\<lambda>(sport', dport', sequence', ack1', ack2', type', doff', flags', window',
          checksum', urgent', sender_id'). \<lparr>ch_sport = sport', ch_dport = dport',
          ch_sequence = sequence', ch_ack1 = ack1', ch_ack2 = ack2', ch_type = type', ch_doff =
          doff', ch_flags = flags', ch_window = window', ch_checksum = checksum', ch_urgent =
          urgent', ch_sender_id = sender_id'\<rparr>"
        and g = "\<lambda>h. (ch_sport h, ch_dport h, ch_sequence h, ch_ack1 h, ch_ack2 h, ch_type h,
          ch_doff h, ch_flags h, ch_window h, ch_checksum h, ch_urgent h, ch_sender_id h)",
        OF codec_pair [OF c16 codec_pair [OF c16 codec_pair [OF c32 codec_pair [OF c16 codec_pair
          [OF c8 codec_pair [OF c8 codec_pair [OF c8 codec_pair [OF c8 codec_pair [OF c16
          codec_pair [OF c16 codec_pair [OF c16 c64]]]]]]]]]]]])
    (auto simp: enc_common_hdr_def dec_common_hdr_def)

text \<open>An acknowledgment of one RPC.\<close>

record homa_ack =
  ak_client_id :: u64
  ak_server_port :: u16

definition enc_ack :: "homa_ack \<Rightarrow> bytes" where
  "enc_ack h = enc_pair enc_be64 enc_be16 (ak_client_id h, ak_server_port h)"

definition dec_ack :: "homa_ack decoder" where
  "dec_ack = dec_map (\<lambda>(client_id', server_port'). \<lparr>ak_client_id =
     client_id', ak_server_port = server_port'\<rparr>) (dec_pair dec_be64 dec_be16)"

interpretation ack: codec enc_ack dec_ack "\<lambda>_. True" 10
  by (rule codec_record [where f = "\<lambda>(client_id', server_port'). \<lparr>ak_client_id = client_id', ak_server_port
          = server_port'\<rparr>"
        and g = "\<lambda>h. (ak_client_id h, ak_server_port h)",
        OF codec_pair [OF c64 c16]])
    (auto simp: enc_ack_def dec_ack_def)

record homa_seg_hdr =
  sg_offset :: u32

definition enc_seg_hdr :: "homa_seg_hdr \<Rightarrow> bytes" where
  "enc_seg_hdr h = enc_be32 (sg_offset h)"

definition dec_seg_hdr :: "homa_seg_hdr decoder" where
  "dec_seg_hdr = dec_map (\<lambda>offset'. \<lparr>sg_offset = offset'\<rparr>)
     (dec_be32)"

interpretation seg_hdr: codec enc_seg_hdr dec_seg_hdr "\<lambda>_. True" 4
  by (rule codec_record [where f = "\<lambda>offset'. \<lparr>sg_offset = offset'\<rparr>"
        and g = "\<lambda>h. sg_offset h",
        OF c32])
    (auto simp: enc_seg_hdr_def dec_seg_hdr_def)

record homa_data_hdr =
  dh_common :: homa_common_hdr
  dh_message_length :: u32
  dh_incoming :: u32
  dh_ack :: homa_ack
  dh_cutoff_version :: u16
  dh_retransmit :: u8
  dh_pad :: "u8 list"
  dh_seg :: homa_seg_hdr

definition enc_data_hdr :: "homa_data_hdr \<Rightarrow> bytes" where
  "enc_data_hdr h = enc_pair enc_common_hdr (enc_pair enc_be32 (enc_pair enc_be32
     (enc_pair enc_ack (enc_pair enc_be16 (enc_pair enc_u8 (enc_pair (enc_array enc_u8)
     enc_seg_hdr)))))) (dh_common h, dh_message_length h, dh_incoming h, dh_ack h,
     dh_cutoff_version h, dh_retransmit h, dh_pad h, dh_seg h)"

definition dec_data_hdr :: "homa_data_hdr decoder" where
  "dec_data_hdr = dec_map (\<lambda>(common', message_length', incoming', ack',
     cutoff_version', retransmit', pad', seg'). \<lparr>dh_common = common',
     dh_message_length = message_length', dh_incoming = incoming', dh_ack = ack',
     dh_cutoff_version = cutoff_version', dh_retransmit = retransmit', dh_pad = pad',
     dh_seg = seg'\<rparr>) (dec_pair dec_common_hdr (dec_pair dec_be32 (dec_pair dec_be32
     (dec_pair dec_ack (dec_pair dec_be16 (dec_pair dec_u8 (dec_pair (dec_array 3 dec_u8)
     dec_seg_hdr)))))))"

interpretation data_hdr: codec enc_data_hdr dec_data_hdr "\<lambda>h. length (dh_pad h) = 3" 56
  by (rule codec_record [where f = "\<lambda>(common', message_length', incoming', ack', cutoff_version', retransmit',
          pad', seg'). \<lparr>dh_common = common', dh_message_length = message_length',
          dh_incoming = incoming', dh_ack = ack', dh_cutoff_version = cutoff_version',
          dh_retransmit = retransmit', dh_pad = pad', dh_seg = seg'\<rparr>"
        and g = "\<lambda>h. (dh_common h, dh_message_length h, dh_incoming h, dh_ack h,
          dh_cutoff_version h, dh_retransmit h, dh_pad h, dh_seg h)",
        OF codec_pair [OF common_hdr.codec_axioms codec_pair [OF c32 codec_pair [OF c32
          codec_pair [OF ack.codec_axioms codec_pair [OF c16 codec_pair [OF c8 codec_pair [OF
          codec_array [OF c8, of 3] seg_hdr.codec_axioms]]]]]]]])
    (auto simp: enc_data_hdr_def dec_data_hdr_def)

record homa_grant_hdr =
  gh_common :: homa_common_hdr
  gh_offset :: u32
  gh_priority :: u8
  gh_resend_all :: u8

definition enc_grant_hdr :: "homa_grant_hdr \<Rightarrow> bytes" where
  "enc_grant_hdr h = enc_pair enc_common_hdr (enc_pair enc_be32 (enc_pair enc_u8 enc_u8))
     (gh_common h, gh_offset h, gh_priority h, gh_resend_all h)"

definition dec_grant_hdr :: "homa_grant_hdr decoder" where
  "dec_grant_hdr = dec_map (\<lambda>(common', offset', priority', resend_all').
     \<lparr>gh_common = common', gh_offset = offset', gh_priority = priority',
     gh_resend_all = resend_all'\<rparr>) (dec_pair dec_common_hdr (dec_pair dec_be32
     (dec_pair dec_u8 dec_u8)))"

interpretation grant_hdr: codec enc_grant_hdr dec_grant_hdr "\<lambda>_. True" 34
  by (rule codec_record [where f = "\<lambda>(common', offset', priority', resend_all'). \<lparr>gh_common = common',
          gh_offset = offset', gh_priority = priority', gh_resend_all = resend_all'\<rparr>"
        and g = "\<lambda>h. (gh_common h, gh_offset h, gh_priority h, gh_resend_all h)",
        OF codec_pair [OF common_hdr.codec_axioms codec_pair [OF c32 codec_pair [OF c8 c8]]]])
    (auto simp: enc_grant_hdr_def dec_grant_hdr_def)

record homa_resend_hdr =
  rh_common :: homa_common_hdr
  rh_offset :: u32
  rh_length :: u32
  rh_priority :: u8

definition enc_resend_hdr :: "homa_resend_hdr \<Rightarrow> bytes" where
  "enc_resend_hdr h = enc_pair enc_common_hdr (enc_pair enc_be32 (enc_pair enc_be32
     enc_u8)) (rh_common h, rh_offset h, rh_length h, rh_priority h)"

definition dec_resend_hdr :: "homa_resend_hdr decoder" where
  "dec_resend_hdr = dec_map (\<lambda>(common', offset', length_', priority').
     \<lparr>rh_common = common', rh_offset = offset', rh_length = length_', rh_priority =
     priority'\<rparr>) (dec_pair dec_common_hdr (dec_pair dec_be32 (dec_pair dec_be32
     dec_u8)))"

interpretation resend_hdr: codec enc_resend_hdr dec_resend_hdr "\<lambda>_. True" 37
  by (rule codec_record [where f = "\<lambda>(common', offset', length_', priority'). \<lparr>rh_common = common',
          rh_offset = offset', rh_length = length_', rh_priority = priority'\<rparr>"
        and g = "\<lambda>h. (rh_common h, rh_offset h, rh_length h, rh_priority h)",
        OF codec_pair [OF common_hdr.codec_axioms codec_pair [OF c32 codec_pair [OF c32 c8]]]])
    (auto simp: enc_resend_hdr_def dec_resend_hdr_def)

record homa_cutoffs_hdr =
  cu_common :: homa_common_hdr
  cu_unsched_cutoffs :: "u32 list"
  cu_cutoff_version :: u16

definition enc_cutoffs_hdr :: "homa_cutoffs_hdr \<Rightarrow> bytes" where
  "enc_cutoffs_hdr h = enc_pair enc_common_hdr (enc_pair (enc_array enc_be32) enc_be16)
     (cu_common h, cu_unsched_cutoffs h, cu_cutoff_version h)"

definition dec_cutoffs_hdr :: "homa_cutoffs_hdr decoder" where
  "dec_cutoffs_hdr = dec_map (\<lambda>(common', unsched_cutoffs', cutoff_version').
     \<lparr>cu_common = common', cu_unsched_cutoffs = unsched_cutoffs', cu_cutoff_version
     = cutoff_version'\<rparr>) (dec_pair dec_common_hdr (dec_pair (dec_array
     HOMA_MAX_PRIORITIES dec_be32) dec_be16))"

interpretation cutoffs_hdr: codec enc_cutoffs_hdr dec_cutoffs_hdr "\<lambda>h. length (cu_unsched_cutoffs h) = HOMA_MAX_PRIORITIES" 62
  by (rule codec_record [where f = "\<lambda>(common', unsched_cutoffs', cutoff_version'). \<lparr>cu_common = common',
          cu_unsched_cutoffs = unsched_cutoffs', cu_cutoff_version = cutoff_version'\<rparr>"
        and g = "\<lambda>h. (cu_common h, cu_unsched_cutoffs h, cu_cutoff_version h)",
        OF codec_pair [OF common_hdr.codec_axioms codec_pair [OF codec_array [OF c32, of
          HOMA_MAX_PRIORITIES] c16]]])
    (auto simp: enc_cutoffs_hdr_def dec_cutoffs_hdr_def HOMA_MAX_PRIORITIES_def)

record homa_ack_hdr =
  ah_common :: homa_common_hdr
  ah_num_acks :: u16
  ah_acks :: "homa_ack list"

definition enc_ack_hdr :: "homa_ack_hdr \<Rightarrow> bytes" where
  "enc_ack_hdr h = enc_pair enc_common_hdr (enc_pair enc_be16 (enc_array enc_ack))
     (ah_common h, ah_num_acks h, ah_acks h)"

definition dec_ack_hdr :: "homa_ack_hdr decoder" where
  "dec_ack_hdr = dec_map (\<lambda>(common', num_acks', acks'). \<lparr>ah_common =
     common', ah_num_acks = num_acks', ah_acks = acks'\<rparr>) (dec_pair dec_common_hdr
     (dec_pair dec_be16 (dec_array HOMA_MAX_ACKS_PER_PKT dec_ack)))"

interpretation ack_hdr: codec enc_ack_hdr dec_ack_hdr "\<lambda>h. length (ah_acks h) = HOMA_MAX_ACKS_PER_PKT" 80
  by (rule codec_record [where f = "\<lambda>(common', num_acks', acks'). \<lparr>ah_common = common', ah_num_acks =
          num_acks', ah_acks = acks'\<rparr>"
        and g = "\<lambda>h. (ah_common h, ah_num_acks h, ah_acks h)",
        OF codec_pair [OF common_hdr.codec_axioms codec_pair [OF c16 codec_array [OF
          ack.codec_axioms, of HOMA_MAX_ACKS_PER_PKT]]]])
    (auto simp: enc_ack_hdr_def dec_ack_hdr_def HOMA_MAX_ACKS_PER_PKT_def)

section \<open>Packets\<close>

text \<open>
  A packet as the receiver sees it after casting the bytes to the header of its
  type.  UNKNOWN, BUSY, FREEZE and NEED\_ACK packets have no fields besides the
  common header.  A DATA packet carries the bytes behind its header.
\<close>

datatype homa_packet =
    PData homa_data_hdr bytes
  | PGrant homa_grant_hdr
  | PResend homa_resend_hdr
  | PUnknown homa_common_hdr
  | PBusy homa_common_hdr
  | PCutoffs homa_cutoffs_hdr
  | PFreeze homa_common_hdr
  | PNeedAck homa_common_hdr
  | PAck homa_ack_hdr

primrec packet_common :: "homa_packet \<Rightarrow> homa_common_hdr" where
  "packet_common (PData h _) = dh_common h"
| "packet_common (PGrant h) = gh_common h"
| "packet_common (PResend h) = rh_common h"
| "packet_common (PUnknown h) = h"
| "packet_common (PBusy h) = h"
| "packet_common (PCutoffs h) = cu_common h"
| "packet_common (PFreeze h) = h"
| "packet_common (PNeedAck h) = h"
| "packet_common (PAck h) = ah_common h"

primrec packet_type :: "homa_packet \<Rightarrow> homa_packet_type" where
  "packet_type (PData _ _) = DATA"
| "packet_type (PGrant _) = GRANT"
| "packet_type (PResend _) = RESEND"
| "packet_type (PUnknown _) = UNKNOWN"
| "packet_type (PBusy _) = BUSY"
| "packet_type (PCutoffs _) = CUTOFFS"
| "packet_type (PFreeze _) = FREEZE"
| "packet_type (PNeedAck _) = NEED_ACK"
| "packet_type (PAck _) = ACK"

text \<open>The minimum length of each type: the table \<open>header_lengths\<close>, indexed by
  \<open>type - DATA\<close>.\<close>

definition header_lengths :: "nat list" where
  "header_lengths = [56, 34, 37, 28, 28, 62, 28, 28, 80]"

definition header_length :: "u8 \<Rightarrow> nat" where
  "header_length type = header_lengths ! unat (type - type_code DATA)"

text \<open>
  The checks of \<open>homa_softirq\<close> on a packet from the network (its bytes start at the
  Homa header): it is at least a common header long, its type is one of the
  protocol's, and it is at least as long as the header of that type.
\<close>

definition packet_acceptable :: "bytes \<Rightarrow> bool" where
  "packet_acceptable bs =
     (case dec_common_hdr bs of
        None \<Rightarrow> False
      | Some (h, _) \<Rightarrow>
          type_code DATA \<le> ch_type h \<and> ch_type h \<le> type_code ACK \<and>
          header_length (ch_type h) \<le> length bs)"

definition dec_packet :: "bytes \<Rightarrow> homa_packet option" where
  "dec_packet bs =
     (case dec_common_hdr bs of
        None \<Rightarrow> None
      | Some (h, _) \<Rightarrow>
          (case packet_type_of (ch_type h) of
             None \<Rightarrow> None
           | Some DATA \<Rightarrow> map_option (\<lambda>(h, r). PData h r) (dec_data_hdr bs)
           | Some GRANT \<Rightarrow> map_option (\<lambda>(h, _). PGrant h) (dec_grant_hdr bs)
           | Some RESEND \<Rightarrow> map_option (\<lambda>(h, _). PResend h) (dec_resend_hdr bs)
           | Some UNKNOWN \<Rightarrow> Some (PUnknown h)
           | Some BUSY \<Rightarrow> Some (PBusy h)
           | Some CUTOFFS \<Rightarrow> map_option (\<lambda>(h, _). PCutoffs h) (dec_cutoffs_hdr bs)
           | Some FREEZE \<Rightarrow> Some (PFreeze h)
           | Some NEED_ACK \<Rightarrow> Some (PNeedAck h)
           | Some ACK \<Rightarrow> map_option (\<lambda>(h, _). PAck h) (dec_ack_hdr bs)))"

section \<open>RPC identifiers\<close>

text \<open>
  \<open>homa_local_id\<close>: the identifier under which the receiver knows an RPC.  The low
  bit of an identifier is 0 on the client and 1 on the server.
\<close>

definition homa_local_id :: "u64 \<Rightarrow> u64" where
  "homa_local_id sender_id = sender_id XOR 1"

definition homa_is_client :: "u64 \<Rightarrow> bool" where
  "homa_is_client rid \<longleftrightarrow> rid AND 1 = 0"

lemma homa_local_id_involutive [simp]: "homa_local_id (homa_local_id rid) = rid"
  by (simp add: homa_local_id_def xor.assoc)

lemma is_client_even: "homa_is_client rid \<longleftrightarrow> even rid"
  by (auto simp: homa_is_client_def and_one_eq odd_iff_mod_2_eq_one even_iff_mod_2_eq_zero)

lemma homa_local_id_client: "homa_is_client (homa_local_id rid) \<longleftrightarrow> \<not> homa_is_client rid"
  by (simp add: is_client_even homa_local_id_def even_xor_iff)

section \<open>Properties\<close>

lemma header_length_simps [simp]:
  "header_length (type_code DATA) = 56" "header_length (type_code GRANT) = 34"
  "header_length (type_code RESEND) = 37" "header_length (type_code UNKNOWN) = 28"
  "header_length (type_code BUSY) = 28" "header_length (type_code CUTOFFS) = 62"
  "header_length (type_code FREEZE) = 28" "header_length (type_code NEED_ACK) = 28"
  "header_length (type_code ACK) = 80"
  by (simp_all add: header_length_def header_lengths_def)

lemma type_in_range_iff:
  "type_code DATA \<le> b \<and> b \<le> type_code ACK \<longleftrightarrow> packet_type_of b \<noteq> None"
proof
  assume "type_code DATA \<le> b \<and> b \<le> type_code ACK"
  then have "16 \<le> unat b" "unat b \<le> 24" by (simp_all add: word_le_nat_alt)
  then have "unat b \<in> {16, 17, 18, 19, 20, 21, 22, 23, 24}" by auto
  then have "b \<in> {0x10, 0x11, 0x12, 0x13, 0x14, 0x15, 0x16, 0x17, 0x18}"
    by (auto simp: word_unat_eq_iff)
  then show "packet_type_of b \<noteq> None"
    by (auto simp: packet_type_of_def packet_types_def)
next
  assume "packet_type_of b \<noteq> None"
  then obtain t where "b = type_code t" using packet_type_of_Some by fastforce
  then show "type_code DATA \<le> b \<and> b \<le> type_code ACK" by (cases t) simp_all
qed

declare type_code.simps [simp del]

text \<open>
  C28: The length checks of \<open>homa_softirq\<close> are exact.  A packet passes them if and
  only if the full header of its type can be read from it, so no handler reads
  a header field beyond the end of a packet and no well-formed packet is refused.
\<close>

theorem packet_acceptable_iff_decodable:
  "packet_acceptable bs \<longleftrightarrow> dec_packet bs \<noteq> None"
proof (cases "dec_common_hdr bs")
  case None
  then show ?thesis by (simp add: packet_acceptable_def dec_packet_def)
next
  case (Some hr)
  obtain h r where hr: "hr = (h, r)" by fastforce
  have len: "28 \<le> length bs"
    using Some common_hdr.dec_None [of bs] by (simp add: not_less [symmetric])
  have "(packet_type_of (ch_type h) \<noteq> None \<and> header_length (ch_type h) \<le> length bs) \<longleftrightarrow>
    dec_packet bs \<noteq> None"
  proof (cases "packet_type_of (ch_type h)")
    case None
    then show ?thesis using Some hr by (simp add: dec_packet_def)
  next
    case type: (Some t)
    then have "ch_type h = type_code t" using packet_type_of_Some by simp
    then show ?thesis
      using Some hr len
        data_hdr.dec_None [of bs] grant_hdr.dec_None [of bs] resend_hdr.dec_None [of bs]
        cutoffs_hdr.dec_None [of bs] ack_hdr.dec_None [of bs]
      by (cases t) (simp_all add: dec_packet_def not_less [symmetric])
  qed
  then show ?thesis
    using Some hr type_in_range_iff [of "ch_type h"] by (auto simp: packet_acceptable_def)
qed

text \<open>The static assertions of \<open>homa_wire.h\<close>: every header fits in \<open>HOMA_MAX_HEADER\<close>.\<close>

lemma headers_fit:
  "\<forall>n \<in> set header_lengths. n \<le> HOMA_MAX_HEADER"
  "HOMA_MIN_PKT_LENGTH \<le> header_length (type_code DATA)"
  "(header_length (type_code DATA) - 4) mod 4 = 0"
  by (simp_all add: header_lengths_def HOMA_MAX_HEADER_def HOMA_MIN_PKT_LENGTH_def)

end
