(* ===== verification/Homa_Addr.thy ===== *)
theory Homa_Addr
imports Homa_Wire
begin

text \<open>
  Addresses (\<open>homa_impl.h\<close>): Homa stores every address as an IPv6 address, IPv4
  addresses in their IPv4-mapped form.  A 32-bit group of an address is the
  number that \<open>ntohl\<close> gives for it.
\<close>

record in6_addr =
  a32_0 :: u32
  a32_1 :: u32
  a32_2 :: u32
  a32_3 :: u32

datatype sa_family = AF_INET | AF_INET6 | AF_OTHER nat

text \<open>\<open>union sockaddr_in_union\<close>: the family, the port, and the address bytes read as
  an IPv4 or as an IPv6 address.\<close>

record sockaddr_in_union =
  sa_fam :: sa_family
  sa_port :: u16
  sa_in4 :: u32
  sa_in6 :: in6_addr

definition in6addr_any :: in6_addr where
  "in6addr_any = \<lparr>a32_0 = 0, a32_1 = 0, a32_2 = 0, a32_3 = 0\<rparr>"

definition ipv4_to_ipv6 :: "u32 \<Rightarrow> in6_addr" where
  "ipv4_to_ipv6 ip4 =
     (if ip4 = 0 then in6addr_any
      else \<lparr>a32_0 = 0, a32_1 = 0, a32_2 = 0xffff, a32_3 = ip4\<rparr>)"

definition ipv6_to_ipv4 :: "in6_addr \<Rightarrow> u32" where
  "ipv6_to_ipv4 ip6 = a32_3 ip6"

definition canonical_ipv6_addr :: "sockaddr_in_union option \<Rightarrow> in6_addr" where
  "canonical_ipv6_addr addr =
     (case addr of
        Some a \<Rightarrow> if sa_fam a = AF_INET6 then sa_in6 a else ipv4_to_ipv6 (sa_in4 a)
      | None \<Rightarrow> in6addr_any)"

definition is_mapped_ipv4 :: "in6_addr \<Rightarrow> bool" where
  "is_mapped_ipv4 x \<longleftrightarrow> a32_0 x = 0 \<and> a32_1 x = 0 \<and> a32_2 x = 0xffff"

definition tt_addr :: "in6_addr \<Rightarrow> u32" where
  "tt_addr x =
     (if is_mapped_ipv4 x then a32_3 x
      else if a32_3 x \<noteq> 0 then a32_3 x else a32_1 x)"

text \<open>What \<open>is_homa_pkt\<close> and \<open>skb_canonical_ipv6_saddr\<close> read of the network headers.\<close>

record ip_packet =
  ip_version :: nat
  ip_protocol :: u8
  ip_saddr4 :: u32
  ip_saddr6 :: in6_addr
  tcp_urg_ptr :: u16

definition IPPROTO_HOMA :: u8 where "IPPROTO_HOMA = 146"
definition IPPROTO_TCP :: u8 where "IPPROTO_TCP = 6"

definition skb_is_ipv6 :: "ip_packet \<Rightarrow> bool" where
  "skb_is_ipv6 skb \<longleftrightarrow> ip_version skb = 6"

definition skb_canonical_ipv6_saddr :: "ip_packet \<Rightarrow> in6_addr" where
  "skb_canonical_ipv6_saddr skb =
     (if skb_is_ipv6 skb then ip_saddr6 skb else ipv4_to_ipv6 (ip_saddr4 skb))"

definition is_homa_pkt :: "ip_packet \<Rightarrow> bool" where
  "is_homa_pkt skb \<longleftrightarrow>
     ip_protocol skb = IPPROTO_HOMA \<or>
     (ip_protocol skb = IPPROTO_TCP \<and> tcp_urg_ptr skb = HOMA_TCP_URGENT)"

lemma ipv4_roundtrip [simp]: "ipv6_to_ipv4 (ipv4_to_ipv6 a) = a"
  by (simp add: ipv4_to_ipv6_def ipv6_to_ipv4_def in6addr_any_def)

lemma mapped_iff_ipv4: "is_mapped_ipv4 x \<and> a32_3 x \<noteq> 0 \<longleftrightarrow> (\<exists>a. a \<noteq> 0 \<and> x = ipv4_to_ipv6 a)"
  by (cases x) (auto simp: is_mapped_ipv4_def ipv4_to_ipv6_def in6addr_any_def)

text \<open>
  The canonical form loses nothing.  Converting an IPv4 address to the
  canonical form and back is the identity, the canonical forms are exactly the
  IPv4-mapped addresses (and the wildcard), and two IPv4 sockets share a
  canonical address only when they share their IPv4 address.
\<close>

theorem canonical_addr_faithful:
  "ipv6_to_ipv4 (canonical_ipv6_addr (Some a)) =
     (if sa_fam a = AF_INET6 then a32_3 (sa_in6 a) else sa_in4 a) \<and>
   (sa_fam a \<noteq> AF_INET6 \<longrightarrow>
      (is_mapped_ipv4 (canonical_ipv6_addr (Some a)) \<longleftrightarrow> sa_in4 a \<noteq> 0) \<and>
      (sa_fam b \<noteq> AF_INET6 \<longrightarrow>
         (canonical_ipv6_addr (Some a) = canonical_ipv6_addr (Some b) \<longleftrightarrow> sa_in4 a = sa_in4 b)))"
proof -
  have "ipv4_to_ipv6 u = ipv4_to_ipv6 v \<longleftrightarrow> u = v" for u v
    using ipv4_roundtrip by metis
  moreover have "is_mapped_ipv4 (ipv4_to_ipv6 u) \<longleftrightarrow> u \<noteq> 0" for u
    by (simp add: is_mapped_ipv4_def ipv4_to_ipv6_def in6addr_any_def)
  ultimately show ?thesis
    by (simp add: canonical_ipv6_addr_def ipv6_to_ipv4_def [symmetric])
qed

lemma canonical_addr_faithful_witness:
  "let a = \<lparr>sa_fam = AF_INET, sa_port = 80, sa_in4 = 0x0a000001, sa_in6 = in6addr_any\<rparr> in
   is_mapped_ipv4 (canonical_ipv6_addr (Some a)) \<and>
   ipv6_to_ipv4 (canonical_ipv6_addr (Some a)) = 0x0a000001"
  using canonical_addr_faithful
    [of "\<lparr>sa_fam = AF_INET, sa_port = 80, sa_in4 = 0x0a000001, sa_in6 = in6addr_any\<rparr>"]
  by (simp add: Let_def)

end
