(* ===== verification/Homa_Pool.thy ===== *)
theory Homa_Pool
imports Homa_MsgIn
begin

text \<open>
  The buffer pool of a socket (\<open>homa_pool.h\<close>, \<open>homa_pool.c\<close>): a region of the
  application's memory divided into bpages, from which space for incoming
  messages is allocated.  Whole bpages are handed out with one reference; the
  last, partial chunk of a message comes from a bpage that the allocating core
  owns and fills from its start.  Queueing an RPC that finds no space is in
  \<open>Homa_Buffers\<close>.

  Lock acquisition always succeeds here: the model is the sequential meaning of
  the critical sections.  \<open>sched_clock\<close> readings are parameters.
\<close>

section \<open>Data\<close>

definition HOMA_BPAGE_SIZE :: int where "HOMA_BPAGE_SIZE = 65536"
definition HOMA_MAX_BPAGES :: nat where "HOMA_MAX_BPAGES = 16"
definition HOMA_MAX_MESSAGE_LENGTH :: int where "HOMA_MAX_MESSAGE_LENGTH = 1000000"
definition MIN_POOL_SIZE :: int where "MIN_POOL_SIZE = 2"
definition MIN_EXTRA :: int where "MIN_EXTRA = 4"
definition INT_MAX :: int where "INT_MAX = 2147483647"
definition PAGE_SIZE :: nat where "PAGE_SIZE = 4096"

record homa_bpage =
  bp_refs :: int
  bp_owner :: int
  bp_expiration :: nat

record homa_pool_core =
  pc_page_hint :: nat
  pc_allocated :: int
  pc_next_candidate :: nat

text \<open>A region of 0 is the null pointer: the pool is not initialised.\<close>

record homa_pool =
  pl_region :: nat
  pl_num_bpages :: int
  pl_descriptors :: "homa_bpage list"
  pl_free_bpages :: int
  pl_bpages_needed :: int
  pl_cores :: "homa_pool_core list"

section \<open>Initialisation\<close>

definition homa_pool_destroy :: "homa_pool \<Rightarrow> homa_pool" where
  "homa_pool_destroy pool =
     (if pl_region pool = 0 then pool
      else pool\<lparr>pl_descriptors := [], pl_cores := [], pl_region := 0\<rparr>)"

text \<open>
  \<open>homa_pool_init\<close>; the two flags tell whether each of the two allocations
  succeeds, \<open>nr_cpu_ids\<close> is the number of cores.
\<close>

definition homa_pool_init ::
  "bool \<Rightarrow> bool \<Rightarrow> nat \<Rightarrow> homa_pool \<Rightarrow> nat \<Rightarrow> nat \<Rightarrow> homa_pool \<times> (errno + unit)" where
  "homa_pool_init mem1 mem2 nr_cpu_ids pool0 region region_size =
     (let pool = homa_pool_destroy pool0 in
      if region mod PAGE_SIZE \<noteq> 0 then (pool, Inl EINVAL)
      else
        let pool = pool\<lparr>pl_region := region,
                        pl_num_bpages := wrap_s32 (int (region_size div nat HOMA_BPAGE_SIZE)),
                        pl_descriptors := [], pl_cores := []\<rparr>
        in if pl_num_bpages pool < MIN_POOL_SIZE then (pool\<lparr>pl_region := 0\<rparr>, Inl EINVAL)
           else if \<not> mem1 then (pool\<lparr>pl_region := 0\<rparr>, Inl ENOMEM)
           else
             let pool = pool\<lparr>
               pl_descriptors := replicate (nat (pl_num_bpages pool))
                 \<lparr>bp_refs = 0, bp_owner = -1, bp_expiration = 0\<rparr>,
               pl_free_bpages := pl_num_bpages pool,
               pl_bpages_needed := INT_MAX\<rparr>
             in if \<not> mem2 then (pool\<lparr>pl_descriptors := [], pl_region := 0\<rparr>, Inl ENOMEM)
                else (pool\<lparr>pl_cores := replicate nr_cpu_ids
                       \<lparr>pc_page_hint = 0, pc_allocated = 0, pc_next_candidate = 0\<rparr>\<rparr>, Inr ()))"

text \<open>\<open>homa_pool_get_rcvbuf\<close>: the start and the length of the region.\<close>

definition homa_pool_get_rcvbuf :: "homa_pool \<Rightarrow> nat \<times> int" where
  "homa_pool_get_rcvbuf pool = (pl_region pool, wrap_s32 (pl_num_bpages pool * HOMA_BPAGE_SIZE))"

section \<open>Allocating whole pages\<close>

definition bpage_busy :: "nat \<Rightarrow> homa_bpage \<Rightarrow> bool" where
  "bpage_busy now bp \<longleftrightarrow>
     bp_refs bp \<ge> 2 \<or> (bp_refs bp = 1 \<and> (bp_owner bp < 0 \<or> bp_expiration bp > now))"

definition scan_limit :: "homa_pool \<Rightarrow> int" where
  "scan_limit pool =
     (let limit = pl_num_bpages pool - pl_free_bpages pool;
          extra = limit div 4;
          limit = limit + (if extra < MIN_EXTRA then MIN_EXTRA else extra)
      in if limit > pl_num_bpages pool then pl_num_bpages pool else limit)"

definition set_candidate :: "nat \<Rightarrow> nat \<Rightarrow> homa_pool \<Rightarrow> homa_pool" where
  "set_candidate core c pool =
     pool\<lparr>pl_cores := (pl_cores pool)[core := (pl_cores pool ! core)\<lparr>pc_next_candidate := c\<rparr>]\<rparr>"

text \<open>Who allocates, when, for how many microseconds of lease, and whether the
  core becomes the owner.\<close>

record page_claim =
  cl_core :: nat
  cl_now :: nat
  cl_lease_usecs :: nat
  cl_set_owner :: bool

definition claimed_bpage :: "page_claim \<Rightarrow> homa_bpage \<Rightarrow> homa_bpage" where
  "claimed_bpage cl bp =
     (if cl_set_owner cl
      then \<lparr>bp_refs = 2, bp_owner = int (cl_core cl),
            bp_expiration = cl_now cl + 1000 * cl_lease_usecs cl\<rparr>
      else bp\<lparr>bp_refs := 1, bp_owner := -1\<rparr>)"

definition claim_page :: "page_claim \<Rightarrow> nat \<Rightarrow> homa_pool \<Rightarrow> homa_pool" where
  "claim_page cl cur pool =
     (let bp = pl_descriptors pool ! cur in
      pool\<lparr>pl_free_bpages := (if bp_owner bp \<ge> 0 then pl_free_bpages pool + 1
                             else pl_free_bpages pool),
           pl_descriptors := (pl_descriptors pool)[cur := claimed_bpage cl bp]\<rparr>)"

text \<open>
  The loop of \<open>homa_pool_get_pages\<close>.  \<open>fuel\<close> bounds the number of iterations,
  \<open>limit = 0\<close> asks for the limit to be recomputed, and \<open>pages\<close> is the part of the
  result array filled so far, which has room for \<open>cap\<close> entries.  None means that
  the loop does not finish within the fuel or writes beyond the array.
\<close>

fun get_pages_loop ::
  "nat \<Rightarrow> page_claim \<Rightarrow> nat \<Rightarrow> int \<Rightarrow> homa_pool \<Rightarrow> int \<Rightarrow> nat list \<Rightarrow> (homa_pool \<times> nat list) option" where
  "get_pages_loop 0 cl cap num_pages pool limit pages = None"
| "get_pages_loop (Suc fuel) cl cap num_pages pool limit pages =
     (if int (length pages) = num_pages then Some (pool, pages)
      else
        let limit = (if limit = 0 then scan_limit pool else limit);
            cur = pc_next_candidate (pl_cores pool ! cl_core cl);
            pool' = set_candidate (cl_core cl) (cur + 1) pool
        in if int cur \<ge> limit then
             get_pages_loop fuel cl cap num_pages (set_candidate (cl_core cl) 0 pool') 0 pages
           else if bpage_busy (cl_now cl) (pl_descriptors pool' ! cur) then
             get_pages_loop fuel cl cap num_pages pool' limit pages
           else if length pages \<ge> cap then None
           else get_pages_loop fuel cl cap num_pages (claim_page cl cur pool') limit (pages @ [cur]))"

text \<open>
  \<open>homa_pool_get_pages\<close>: the inner None is the return value \<open>-1\<close>.
\<close>

definition homa_pool_get_pages ::
  "nat \<Rightarrow> page_claim \<Rightarrow> nat \<Rightarrow> homa_pool \<Rightarrow> int \<Rightarrow> (homa_pool \<times> nat list option) option" where
  "homa_pool_get_pages fuel cl cap pool num_pages =
     (if pl_free_bpages pool - num_pages < 0 then Some (pool, None)
      else map_option (\<lambda>(pool', pages). (pool', Some pages))
        (get_pages_loop fuel cl cap num_pages
           (pool\<lparr>pl_free_bpages := pl_free_bpages pool - num_pages\<rparr>) 0 []))"

section \<open>Releasing and finding buffers\<close>

text \<open>One iteration of \<open>homa_pool_release_buffers\<close>, and the loop.  The flag is
  true when some offset lies outside the pool (\<open>-EINVAL\<close>).\<close>

definition release_bpage :: "homa_pool \<Rightarrow> nat \<Rightarrow> homa_pool" where
  "release_bpage pool p =
     (let bp = pl_descriptors pool ! p; refs = bp_refs bp - 1 in
      pool\<lparr>pl_descriptors := (pl_descriptors pool)[p := bp\<lparr>bp_refs := refs\<rparr>],
           pl_free_bpages := (if refs = 0 then pl_free_bpages pool + 1 else pl_free_bpages pool)\<rparr>)"

fun release_loop :: "homa_pool \<Rightarrow> int list \<Rightarrow> bool \<Rightarrow> homa_pool \<times> bool" where
  "release_loop pool [] bad = (pool, bad)"
| "release_loop pool (buf # bufs) bad =
     (let bpage_index = buf div HOMA_BPAGE_SIZE in
      if bpage_index < pl_num_bpages pool
      then release_loop (release_bpage pool (nat bpage_index)) bufs bad
      else release_loop pool bufs True)"

definition homa_pool_release_buffers :: "homa_pool \<Rightarrow> int list \<Rightarrow> homa_pool \<times> (errno + unit)" where
  "homa_pool_release_buffers pool buffers =
     (if pl_region pool = 0 then (pool, Inr ())
      else let (pool', bad) = release_loop pool buffers False
           in (pool', if bad then Inl EINVAL else Inr ()))"

text \<open>
  \<open>homa_pool_get_buffer\<close>: the address for an offset of the message, and how many
  bytes may be stored there; None is the \<open>BUG_ON\<close>, which compares with an unsigned
  number and so holds for a negative index too.
\<close>

definition homa_pool_get_buffer :: "nat \<Rightarrow> homa_message_in \<Rightarrow> int \<Rightarrow> (int \<times> int) option" where
  "homa_pool_get_buffer region m off =
     (let bpage_index = off div HOMA_BPAGE_SIZE;
          bpage_offset = off mod HOMA_BPAGE_SIZE
      in if bpage_index < 0 \<or> bpage_index \<ge> mi_num_bpages m then None
         else Some (int region + mi_bpage_offsets m ! nat bpage_index + bpage_offset,
                    if bpage_index < mi_num_bpages m - 1 then HOMA_BPAGE_SIZE - bpage_offset
                    else mi_length m - off))"

section \<open>Allocating space for a message\<close>

text \<open>
  The part of \<open>homa_pool_allocate\<close> that takes the partial page, from the test of
  the current core's page to the label \<open>success\<close>.  The offsets are kept in
  an array of \<open>HOMA_MAX_BPAGES\<close> entries of type \<open>__u32\<close>: None is a store behind its end.
\<close>

definition store_offset :: "homa_message_in \<Rightarrow> int \<Rightarrow> homa_message_in option" where
  "store_offset m off =
     (if mi_num_bpages m \<ge> int HOMA_MAX_BPAGES then None
      else Some (m\<lparr>mi_bpage_offsets := take (nat (mi_num_bpages m)) (mi_bpage_offsets m) @ [wrap_u32 off],
                   mi_num_bpages := mi_num_bpages m + 1\<rparr>))"

text \<open>\<open>allocate_partial\<close>: cut \<open>partial\<close> bytes from the page of the core.\<close>

definition cut_partial :: "nat \<Rightarrow> int \<Rightarrow> homa_pool \<Rightarrow> homa_message_in \<Rightarrow> (homa_pool \<times> homa_message_in) option" where
  "cut_partial core partial pool m =
     (let c = pl_cores pool ! core in
      map_option (Pair (pool\<lparr>pl_cores := (pl_cores pool)[core := c\<lparr>pc_allocated := pc_allocated c + partial\<rparr>]\<rparr>))
        (store_offset m (pc_allocated c + int (pc_page_hint c) * HOMA_BPAGE_SIZE)))"

text \<open>What happens to the page of the core before it can be used: None is the
  jump to \<open>new_page\<close>.\<close>

definition use_own_page :: "nat \<Rightarrow> nat \<Rightarrow> nat \<Rightarrow> int \<Rightarrow> homa_pool \<Rightarrow> homa_pool \<times> bool" where
  "use_own_page core now lease partial pool =
     (let c = pl_cores pool ! core;
          bp = pl_descriptors pool ! pc_page_hint c;
          keep = (\<lambda>pool allocated.
            (pool\<lparr>pl_descriptors := (pl_descriptors pool)[pc_page_hint c :=
                    bp\<lparr>bp_expiration := now + 1000 * lease, bp_refs := bp_refs bp + 1\<rparr>],
                  pl_cores := (pl_cores pool)[core := c\<lparr>pc_allocated := allocated\<rparr>]\<rparr>, True))
      in if bp_owner bp \<noteq> int core then (pool, False)
         else if pc_allocated c + partial > HOMA_BPAGE_SIZE then
           if bp_refs bp = 1 then keep pool 0
           else (pool\<lparr>pl_descriptors := (pl_descriptors pool)[pc_page_hint c :=
                        bp\<lparr>bp_owner := -1, bp_refs := bp_refs bp - 1\<rparr>]\<rparr>, False)
         else keep pool (pc_allocated c))"

definition allocate_partial ::
  "nat \<Rightarrow> (nat \<Rightarrow> nat) \<Rightarrow> nat \<Rightarrow> nat \<Rightarrow> int \<Rightarrow> homa_pool \<Rightarrow> homa_message_in \<Rightarrow>
   (homa_pool \<times> homa_message_in \<times> bool) option" where
  "allocate_partial fuel clk lease core partial pool m =
     (case use_own_page core (clk 1) lease partial pool of
        (pool', True) \<Rightarrow>
          map_option (\<lambda>(pool, m). (pool, m, True)) (cut_partial core partial pool' m)
      | (pool', False) \<Rightarrow>
          (case homa_pool_get_pages fuel
                  \<lparr>cl_core = core, cl_now = clk 2, cl_lease_usecs = lease, cl_set_owner = True\<rparr>
                  HOMA_MAX_BPAGES pool' 1 of
             None \<Rightarrow> None
           | Some (pool2, None) \<Rightarrow>
               Some (fst (homa_pool_release_buffers pool2
                            (take (nat (mi_num_bpages m)) (mi_bpage_offsets m))),
                     m\<lparr>mi_num_bpages := 0\<rparr>, False)
           | Some (pool2, Some pages) \<Rightarrow>
               let c = pl_cores pool2 ! core;
                   pool3 = pool2\<lparr>pl_cores := (pl_cores pool2)[core :=
                             c\<lparr>pc_page_hint := hd pages, pc_allocated := 0\<rparr>]\<rparr>
               in map_option (\<lambda>(pool, m). (pool, m, True)) (cut_partial core partial pool3 m)))"

text \<open>
  \<open>homa_pool_allocate\<close> up to the labels \<open>success\<close> (flag true) and \<open>out_of_space\<close>
  (flag false).  None means that the C code has no defined result: it runs out
  of fuel or writes beyond one of the arrays \<open>pages\<close> and \<open>bpage_offsets\<close>.
\<close>

definition allocate_space ::
  "nat \<Rightarrow> (nat \<Rightarrow> nat) \<Rightarrow> nat \<Rightarrow> nat \<Rightarrow> homa_pool \<Rightarrow> homa_message_in \<Rightarrow>
   (homa_pool \<times> homa_message_in \<times> bool) option" where
  "allocate_space fuel clk lease core pool m =
     (let full_pages = mi_length m div HOMA_BPAGE_SIZE;
          partial = mi_length m mod HOMA_BPAGE_SIZE;
          rest = (\<lambda>pool m.
            if partial = 0 then Some (pool, m, True)
            else allocate_partial fuel clk lease core partial pool m)
      in if full_pages \<noteq> 0 then
           (case homa_pool_get_pages fuel
                   \<lparr>cl_core = core, cl_now = clk 0, cl_lease_usecs = lease, cl_set_owner = False\<rparr>
                   HOMA_MAX_BPAGES pool full_pages of
              None \<Rightarrow> None
            | Some (pool', None) \<Rightarrow> Some (pool', m, False)
            | Some (pool', Some pages) \<Rightarrow>
                rest pool' (m\<lparr>mi_bpage_offsets := map (\<lambda>p. wrap_u32 (int p * HOMA_BPAGE_SIZE)) pages,
                              mi_num_bpages := full_pages\<rparr>))
         else rest pool (m\<lparr>mi_num_bpages := 0\<rparr>))"

section \<open>The page count invariant\<close>

text \<open>
  The comment on \<open>free_bpages\<close> in \<open>homa_pool.h\<close>: it equals the number of pages with
  zero reference counts minus the number of pages claimed but not yet found;
  \<open>r\<close> is that last number.
\<close>

definition zero_refs :: "homa_bpage list \<Rightarrow> int" where
  "zero_refs ds = int (length (filter (\<lambda>bp. bp_refs bp = 0) ds))"

definition bpage_ok :: "homa_bpage \<Rightarrow> bool" where
  "bpage_ok bp \<longleftrightarrow> 0 \<le> bp_refs bp \<and> (0 \<le> bp_owner bp \<longrightarrow> 1 \<le> bp_refs bp)"

definition counts_ok :: "int \<Rightarrow> homa_pool \<Rightarrow> bool" where
  "counts_ok r pool \<longleftrightarrow>
     pl_num_bpages pool = int (length (pl_descriptors pool)) \<and> 0 < pl_num_bpages pool \<and>
     list_all bpage_ok (pl_descriptors pool) \<and>
     zero_refs (pl_descriptors pool) = pl_free_bpages pool + r \<and> 0 \<le> pl_free_bpages pool \<and>
     list_all (\<lambda>c. pc_next_candidate c \<le> length (pl_descriptors pool)) (pl_cores pool)"

lemma zero_refs_simps [simp]:
  "zero_refs [] = 0"
  "zero_refs (d # ds) = (if bp_refs d = 0 then 1 else 0) + zero_refs ds"
  by (simp_all add: zero_refs_def)

lemma zero_refs_update:
  "i < length ds \<Longrightarrow>
   zero_refs (ds[i := bp]) =
     zero_refs ds - (if bp_refs (ds ! i) = 0 then 1 else 0) + (if bp_refs bp = 0 then 1 else 0)"
proof (induction ds arbitrary: i)
  case (Cons d ds)
  then show ?case by (cases i) simp_all
qed simp

lemma zero_refs_bounds: "0 \<le> zero_refs ds" "zero_refs ds \<le> int (length ds)"
  by (simp_all add: zero_refs_def)

lemma zero_refs_exists: "0 < zero_refs ds \<longleftrightarrow> (\<exists>i < length ds. bp_refs (ds ! i) = 0)"
  by (auto simp: zero_refs_def filter_empty_conv in_set_conv_nth) (metis nth_mem)

lemma zero_refs_take_drop: "zero_refs ds = zero_refs (take n ds) + zero_refs (drop n ds)"
proof -
  have "zero_refs (take n ds @ drop n ds) = zero_refs (take n ds) + zero_refs (drop n ds)"
    unfolding zero_refs_def filter_append by simp
  then show ?thesis by simp
qed

lemma set_candidate_simps [simp]:
  "pl_descriptors (set_candidate core c pool) = pl_descriptors pool"
  "pl_free_bpages (set_candidate core c pool) = pl_free_bpages pool"
  "pl_num_bpages (set_candidate core c pool) = pl_num_bpages pool"
  "pl_region (set_candidate core c pool) = pl_region pool"
  "pl_bpages_needed (set_candidate core c pool) = pl_bpages_needed pool"
  "length (pl_cores (set_candidate core c pool)) = length (pl_cores pool)"
  "scan_limit (set_candidate core c pool) = scan_limit pool"
  "core < length (pl_cores pool) \<Longrightarrow>
     pc_next_candidate (pl_cores (set_candidate core c pool) ! core) = c"
  by (simp_all add: set_candidate_def scan_limit_def Let_def)

lemma set_candidate_twice [simp]:
  "set_candidate core c (set_candidate core c' pool) = set_candidate core c pool"
  by (cases "core < length (pl_cores pool)") (simp_all add: set_candidate_def list_update_beyond)

lemma set_candidate_counts:
  "counts_ok r pool \<Longrightarrow> c \<le> length (pl_descriptors pool) \<Longrightarrow> counts_ok r (set_candidate core c pool)"
  by (auto simp: counts_ok_def set_candidate_def)

lemma set_candidate_same:
  "core < length (pl_cores pool) \<Longrightarrow>
   set_candidate core (pc_next_candidate (pl_cores pool ! core)) pool = pool"
  by (simp add: set_candidate_def)

lemma claim_page_counts:
  assumes "counts_ok r pool" and "cur < length (pl_descriptors pool)"
    and "\<not> bpage_busy now (pl_descriptors pool ! cur)"
  shows "counts_ok (r - 1) (claim_page cl cur pool)"
proof -
  let ?bp = "pl_descriptors pool ! cur"
  have "bpage_ok ?bp" using assms(1,2) by (simp add: counts_ok_def list_all_length)
  then have "bp_refs ?bp = 0 \<and> bp_owner ?bp < 0 \<or> bp_refs ?bp = 1 \<and> 0 \<le> bp_owner ?bp"
    using assms(3) by (auto simp: bpage_ok_def bpage_busy_def)
  moreover have "bpage_ok (claimed_bpage cl ?bp)" "bp_refs (claimed_bpage cl ?bp) \<noteq> 0"
    by (simp_all add: claimed_bpage_def bpage_ok_def)
  ultimately show ?thesis
    using assms(1,2)
    by (auto simp: counts_ok_def claim_page_def Let_def zero_refs_update)
qed

text \<open>The limit leaves a free page below it (a pigeonhole argument).\<close>

lemma scan_limit_bounds:
  assumes "counts_ok r pool" and "0 < r"
  shows "0 < scan_limit pool" and "scan_limit pool \<le> pl_num_bpages pool"
    and "\<exists>i. int i < scan_limit pool \<and> bp_refs (pl_descriptors pool ! i) = 0"
proof -
  let ?ds = "pl_descriptors pool" and ?L = "scan_limit pool"
  have zero: "zero_refs ?ds = pl_free_bpages pool + r" "0 \<le> pl_free_bpages pool"
    "pl_num_bpages pool = int (length ?ds)" "0 < length ?ds"
    using assms by (auto simp: counts_ok_def)
  then have le: "pl_free_bpages pool < int (length ?ds)"
    using zero_refs_bounds(2) [of ?ds] assms(2) by simp
  show L: "0 < ?L" "?L \<le> pl_num_bpages pool"
    using zero le by (auto simp: scan_limit_def Let_def MIN_EXTRA_def)
  have big: "?L = int (length ?ds) \<or> int (length ?ds) - pl_free_bpages pool < ?L"
    using zero le by (auto simp: scan_limit_def Let_def MIN_EXTRA_def)
  have "zero_refs (drop (nat ?L) ?ds) \<le> int (length ?ds) - ?L"
    using zero_refs_bounds(2) [of "drop (nat ?L) ?ds"] L zero(3) by (simp add: of_nat_diff)
  then have "0 < zero_refs (take (nat ?L) ?ds)"
    using zero_refs_take_drop [of ?ds "nat ?L"] zero(1,2) assms(2) big by linarith
  then obtain i where "i < nat ?L" "i < length ?ds" "bp_refs (?ds ! i) = 0"
    by (auto simp: zero_refs_exists)
  then show "\<exists>i. int i < ?L \<and> bp_refs (?ds ! i) = 0" using L(1) by (metis zless_nat_eq_int_zless)
qed

section \<open>\<open>homa_pool_get_pages\<close> finds its pages\<close>

lemma scan_to_page:
  assumes "cl_core cl < length (pl_cores pool)" and "int (length pages) \<noteq> n" "length pages < cap"
    and "0 < L" and "pc_next_candidate (pl_cores pool ! cl_core cl) = c" "c \<le> cur" "int cur < L"
    and "\<And>i. c \<le> i \<Longrightarrow> i < cur \<Longrightarrow> bpage_busy (cl_now cl) (pl_descriptors pool ! i)"
    and "\<not> bpage_busy (cl_now cl) (pl_descriptors pool ! cur)"
  shows "get_pages_loop (Suc (cur - c) + f) cl cap n pool L pages =
    get_pages_loop f cl cap n (claim_page cl cur (set_candidate (cl_core cl) (cur + 1) pool)) L (pages @ [cur])"
  using assms
proof (induction "cur - c" arbitrary: c pool)
  case 0
  then have "c = cur" by simp
  with 0 show ?case by (simp add: Let_def)
next
  case (Suc d)
  let ?pool = "set_candidate (cl_core cl) (Suc c) pool"
  have c: "c < cur" "Suc (cur - c) = Suc (Suc (cur - Suc c))" using Suc.hyps(2) by simp_all
  have "get_pages_loop (Suc (cur - c) + f) cl cap n pool L pages =
    get_pages_loop (Suc (cur - Suc c) + f) cl cap n ?pool L pages"
    using c Suc.prems by (simp add: Let_def)
  also have "\<dots> = get_pages_loop f cl cap n
      (claim_page cl cur (set_candidate (cl_core cl) (cur + 1) ?pool)) L (pages @ [cur])"
    using Suc.prems c by (intro Suc.hyps(1)) (use Suc.hyps(2) in auto)
  finally show ?case by simp
qed

lemma scan_to_wrap:
  assumes "cl_core cl < length (pl_cores pool)" and "int (length pages) \<noteq> n"
    and "0 < L" and "pc_next_candidate (pl_cores pool ! cl_core cl) = c"
    and "\<And>i. c \<le> i \<Longrightarrow> int i < L \<Longrightarrow> bpage_busy (cl_now cl) (pl_descriptors pool ! i)"
  shows "get_pages_loop (Suc (nat L - c) + f) cl cap n pool L pages =
    get_pages_loop f cl cap n (set_candidate (cl_core cl) 0 pool) 0 pages"
  using assms
proof (induction "nat L - c" arbitrary: c pool)
  case 0
  then have "L \<le> int c" by simp
  with 0 show ?case by (simp add: Let_def)
next
  case (Suc d)
  let ?pool = "set_candidate (cl_core cl) (Suc c) pool"
  have c: "int c < L" "Suc (nat L - c) = Suc (Suc (nat L - Suc c))" using Suc.hyps(2) by linarith+
  have "get_pages_loop (Suc (nat L - c) + f) cl cap n pool L pages =
    get_pages_loop (Suc (nat L - Suc c) + f) cl cap n ?pool L pages"
    using c Suc.prems by (simp add: Let_def)
  also have "\<dots> = get_pages_loop f cl cap n (set_candidate (cl_core cl) 0 ?pool) 0 pages"
    using Suc.prems c by (intro Suc.hyps(1)) (use Suc.hyps(2) in auto)
  finally show ?case by simp
qed

lemma limit_recomputed:
  "0 < scan_limit pool \<Longrightarrow> int (length pages) \<noteq> n \<Longrightarrow>
   get_pages_loop fuel cl cap n pool 0 pages = get_pages_loop fuel cl cap n pool (scan_limit pool) pages"
  by (cases fuel) (simp_all add: Let_def)

declare get_pages_loop.simps [simp del]

text \<open>From every state the next page is found within two passes over the pool.\<close>

lemma get_pages_next:
  assumes inv: "counts_ok r pool" "0 < r" and core: "cl_core cl < length (pl_cores pool)"
    and room: "int (length pages) \<noteq> n" "length pages < cap"
    and limit: "0 \<le> L" "L \<le> pl_num_bpages pool"
  obtains k cur L' where "k \<le> 2 * length (pl_descriptors pool) + 2"
    "cur < length (pl_descriptors pool)"
    "\<not> bpage_busy (cl_now cl) (pl_descriptors pool ! cur)" "0 \<le> L'" "L' \<le> pl_num_bpages pool"
    "\<And>f. get_pages_loop (k + f) cl cap n pool L pages =
      get_pages_loop f cl cap n (claim_page cl cur (set_candidate (cl_core cl) (cur + 1) pool)) L' (pages @ [cur])"
proof -
  let ?ds = "pl_descriptors pool" and ?core = "cl_core cl"
  let ?busy = "\<lambda>i. bpage_busy (cl_now cl) (?ds ! i)"
  let ?goal = "\<lambda>P L0 L1 k cur. \<forall>f. get_pages_loop (k + f) cl cap n P L0 pages =
      get_pages_loop f cl cap n (claim_page cl cur (set_candidate ?core (cur + 1) pool)) L1 (pages @ [cur])"
  have num: "pl_num_bpages pool = int (length ?ds)" using inv(1) by (simp add: counts_ok_def)
  have scan: "\<exists>k cur. k \<le> length ?ds + 1 \<and> cur < length ?ds \<and> \<not> ?busy cur \<and>
      ?goal (set_candidate ?core c pool) L1 L1 k cur"
    if L1: "0 < L1" "L1 \<le> int (length ?ds)" and ex: "\<exists>i \<ge> c. int i < L1 \<and> \<not> ?busy i" for L1 c
  proof -
    let ?P = "\<lambda>i. c \<le> i \<and> int i < L1 \<and> \<not> ?busy i"
    define cur where "cur = (LEAST i. ?P i)"
    have cur: "?P cur" unfolding cur_def using ex by (intro LeastI_ex [of ?P]) blast
    moreover have "?busy i" if "c \<le> i" "i < cur" for i
      using that not_less_Least [of i ?P, folded cur_def] cur by auto
    ultimately have "?goal (set_candidate ?core c pool) L1 L1 (Suc (cur - c)) cur"
      using scan_to_page [of cl "set_candidate ?core c pool" pages n cap L1 c cur] core room L1 by simp
    moreover have "cur < length ?ds" using cur L1(2) by simp
    ultimately show ?thesis using cur
      by (intro exI [of _ "Suc (cur - c)"] exI [of _ cur]) simp
  qed
  define c where "c = pc_next_candidate (pl_cores pool ! ?core)"
  define L0 where "L0 = (if L = 0 then scan_limit pool else L)"
  note sl = scan_limit_bounds [OF inv]
  have free: "\<exists>i \<ge> 0. int i < scan_limit pool \<and> \<not> ?busy i"
    using sl(3) by (auto simp: bpage_busy_def)
  have pool: "set_candidate ?core c pool = pool" unfolding c_def by (rule set_candidate_same [OF core])
  have start: "get_pages_loop fuel cl cap n pool L pages = get_pages_loop fuel cl cap n pool L0 pages" for fuel
    using limit_recomputed [OF sl(1) room(1)] by (simp add: L0_def)
  have L0: "0 < L0" "L0 \<le> int (length ?ds)" using limit sl num by (auto simp: L0_def)
  show ?thesis
  proof (cases "\<exists>i \<ge> c. int i < L0 \<and> \<not> ?busy i")
    case True
    then obtain k cur where k: "k \<le> length ?ds + 1" "cur < length ?ds" "\<not> ?busy cur"
      and run: "?goal pool L0 L0 k cur"
      using scan [OF L0 True] pool by auto
    show ?thesis
    proof (rule that [of k cur L0])
      show "get_pages_loop (k + f) cl cap n pool L pages =
        get_pages_loop f cl cap n (claim_page cl cur (set_candidate ?core (cur + 1) pool)) L0 (pages @ [cur])"
        for f using run start by simp
    qed (use k L0 num in auto)
  next
    case False
    have wrap: "get_pages_loop (Suc (nat L0 - c) + f) cl cap n pool L0 pages =
      get_pages_loop f cl cap n (set_candidate ?core 0 pool) (scan_limit pool) pages" for f
      using scan_to_wrap [OF core room(1) L0(1) c_def [symmetric]] False
        limit_recomputed [of "set_candidate ?core 0 pool"] sl(1) room(1) by auto
    obtain k cur where k: "k \<le> length ?ds + 1" "cur < length ?ds" "\<not> ?busy cur"
      and run: "?goal (set_candidate ?core 0 pool) (scan_limit pool) (scan_limit pool) k cur"
      using scan [OF sl(1) _ free] sl(2) num by auto
    show ?thesis
    proof (rule that [of "Suc (nat L0 - c) + k" cur "scan_limit pool"])
      show "Suc (nat L0 - c) + k \<le> 2 * length ?ds + 2" using k(1) L0 by simp
      show "get_pages_loop (Suc (nat L0 - c) + k + f) cl cap n pool L pages =
        get_pages_loop f cl cap n (claim_page cl cur (set_candidate ?core (cur + 1) pool))
          (scan_limit pool) (pages @ [cur])" for f
        using wrap [of "k + f"] run start by (simp add: add.assoc)
    qed (use k sl in auto)
  qed
qed

text \<open>
  What a successful call does to the pool: the pages found were free (or could be
  stolen), they are all different, they are marked as claimed, and nothing else
  changes but the free count and the core's scan position.
\<close>

definition pages_claimed :: "page_claim \<Rightarrow> nat list \<Rightarrow> homa_pool \<Rightarrow> homa_pool \<Rightarrow> bool" where
  "pages_claimed cl ps pool pool' \<longleftrightarrow>
     distinct ps \<and>
     (\<forall>p \<in> set ps. p < length (pl_descriptors pool) \<and> \<not> bpage_busy (cl_now cl) (pl_descriptors pool ! p)) \<and>
     length (pl_descriptors pool') = length (pl_descriptors pool) \<and>
     (\<forall>p < length (pl_descriptors pool). pl_descriptors pool' ! p =
        (if p \<in> set ps then claimed_bpage cl (pl_descriptors pool ! p) else pl_descriptors pool ! p)) \<and>
     (\<exists>c. pl_cores pool' = pl_cores (set_candidate (cl_core cl) c pool)) \<and>
     pl_region pool' = pl_region pool \<and> pl_num_bpages pool' = pl_num_bpages pool \<and>
     pl_bpages_needed pool' = pl_bpages_needed pool"

lemma claim_page_simps [simp]:
  "length (pl_descriptors (claim_page cl cur pool)) = length (pl_descriptors pool)"
  "pl_cores (claim_page cl cur pool) = pl_cores pool"
  "pl_region (claim_page cl cur pool) = pl_region pool"
  "pl_num_bpages (claim_page cl cur pool) = pl_num_bpages pool"
  "pl_bpages_needed (claim_page cl cur pool) = pl_bpages_needed pool"
  by (simp_all add: claim_page_def Let_def)

lemma claim_page_descriptor:
  "p < length (pl_descriptors pool) \<Longrightarrow> pl_descriptors (claim_page cl cur pool) ! p =
     (if p = cur then claimed_bpage cl (pl_descriptors pool ! p) else pl_descriptors pool ! p)"
  by (simp add: claim_page_def Let_def)

lemma claimed_busy: "bpage_busy now (claimed_bpage cl bp)"
  by (simp add: bpage_busy_def claimed_bpage_def)

lemma pages_claimed_Nil: "core = cl_core cl \<Longrightarrow> core < length (pl_cores pool) \<Longrightarrow> pages_claimed cl [] pool pool"
  by (auto simp: pages_claimed_def intro!: exI [of _ "pc_next_candidate (pl_cores pool ! core)"]
      simp: set_candidate_same)

lemma pages_claimed_Cons:
  assumes "pages_claimed cl ps (claim_page cl cur (set_candidate (cl_core cl) c pool)) pool'"
    and "cur < length (pl_descriptors pool)" and "\<not> bpage_busy (cl_now cl) (pl_descriptors pool ! cur)"
  shows "pages_claimed cl (cur # ps) pool pool'"
proof -
  let ?mid = "claim_page cl cur (set_candidate (cl_core cl) c pool)"
  have ds: "p < length (pl_descriptors pool) \<Longrightarrow> pl_descriptors ?mid ! p =
    (if p = cur then claimed_bpage cl (pl_descriptors pool ! p) else pl_descriptors pool ! p)" for p
    using claim_page_descriptor [of p "set_candidate (cl_core cl) c pool"] by simp
  have "cur \<notin> set ps" using assms ds [of cur] claimed_busy by (auto simp: pages_claimed_def)
  moreover have "set_candidate (cl_core cl) c' (claim_page cl cur (set_candidate (cl_core cl) c pool)) =
      claim_page cl cur (set_candidate (cl_core cl) c' pool)" for c'
    by (cases "cl_core cl < length (pl_cores pool)")
      (simp_all add: set_candidate_def claim_page_def Let_def list_update_beyond)
  moreover have "\<not> bpage_busy (cl_now cl) (pl_descriptors pool ! p)" if "p \<in> set ps" for p
    using assms(1) that ds [of p] \<open>cur \<notin> set ps\<close> by (auto simp: pages_claimed_def split: if_splits)
  ultimately show ?thesis
    using assms ds unfolding pages_claimed_def by auto
qed

definition get_pages_fuel :: "homa_pool \<Rightarrow> nat \<Rightarrow> nat" where
  "get_pages_fuel pool n = n * (2 * length (pl_descriptors pool) + 2) + 1"

lemma get_pages_loop_finds:
  assumes "counts_ok (int r) pool" "cl_core cl < length (pl_cores pool)"
    and "n = int (length pages) + int r" "length pages + r \<le> cap"
    and "0 \<le> L" "L \<le> pl_num_bpages pool" and "get_pages_fuel pool r \<le> fuel"
  shows "\<exists>pool' ps. get_pages_loop fuel cl cap n pool L pages = Some (pool', pages @ ps) \<and>
    length ps = r \<and> counts_ok 0 pool' \<and> pages_claimed cl ps pool pool' \<and>
    pl_free_bpages pool \<le> pl_free_bpages pool'"
  using assms
proof (induction r arbitrary: pool L pages fuel)
  case 0
  then show ?case
    by (cases fuel) (auto simp: get_pages_loop.simps get_pages_fuel_def intro!: pages_claimed_Nil)
next
  case (Suc r)
  obtain k cur L' where k: "k \<le> 2 * length (pl_descriptors pool) + 2"
    and cur: "cur < length (pl_descriptors pool)"
      "\<not> bpage_busy (cl_now cl) (pl_descriptors pool ! cur)"
    and L': "0 \<le> L'" "L' \<le> pl_num_bpages pool"
    and run: "\<And>f. get_pages_loop (k + f) cl cap n pool L pages =
      get_pages_loop f cl cap n (claim_page cl cur (set_candidate (cl_core cl) (cur + 1) pool)) L' (pages @ [cur])"
    using get_pages_next [OF Suc.prems(1) _ Suc.prems(2) _ _ Suc.prems(5,6), of pages n cap]
      Suc.prems(3,4) by auto
  let ?mid = "claim_page cl cur (set_candidate (cl_core cl) (cur + 1) pool)"
  have "counts_ok (int (Suc r)) (set_candidate (cl_core cl) (cur + 1) pool)"
    using Suc.prems(1) cur(1) by (intro set_candidate_counts) auto
  then have "counts_ok (int r) ?mid"
    using claim_page_counts [of "int (Suc r)" "set_candidate (cl_core cl) (cur + 1) pool" cur] cur by auto
  moreover have fuel: "k \<le> fuel" "get_pages_fuel ?mid r \<le> fuel - k"
    using Suc.prems(7) k by (auto simp: get_pages_fuel_def)
  ultimately obtain pool' ps where res: "get_pages_loop (fuel - k) cl cap n ?mid L' (pages @ [cur]) =
      Some (pool', (pages @ [cur]) @ ps)" "length ps = r" "counts_ok 0 pool'" "pages_claimed cl ps ?mid pool'"
      "pl_free_bpages ?mid \<le> pl_free_bpages pool'"
    using Suc.IH [of ?mid "pages @ [cur]" L' "fuel - k"] Suc.prems L' by auto
  moreover have "pl_free_bpages pool \<le> pl_free_bpages ?mid"
    by (simp add: claim_page_def Let_def)
  ultimately show ?case
    using run [of "fuel - k"] fuel(1) pages_claimed_Cons [OF res(4) cur]
    by (intro exI [of _ pool'] exI [of _ "cur # ps"]) simp
qed

lemma pages_claimed_free [simp]:
  "pages_claimed cl ps (pool\<lparr>pl_free_bpages := f\<rparr>) pool' \<longleftrightarrow> pages_claimed cl ps pool pool'"
  by (simp add: pages_claimed_def set_candidate_def)

lemma get_pages_result:
  assumes "counts_ok 0 pool" "cl_core cl < length (pl_cores pool)"
    and "0 \<le> n" "nat n \<le> cap" "get_pages_fuel pool (nat n) \<le> fuel"
  shows "if pl_free_bpages pool < n then homa_pool_get_pages fuel cl cap pool n = Some (pool, None)
    else \<exists>pool' ps. homa_pool_get_pages fuel cl cap pool n = Some (pool', Some ps) \<and>
      int (length ps) = n \<and> counts_ok 0 pool' \<and> pages_claimed cl ps pool pool' \<and>
      pl_free_bpages pool - n \<le> pl_free_bpages pool'"
proof (cases "pl_free_bpages pool < n")
  case True
  then show ?thesis by (simp add: homa_pool_get_pages_def)
next
  case False
  let ?pool = "pool\<lparr>pl_free_bpages := pl_free_bpages pool - n\<rparr>"
  have "counts_ok (int (nat n)) ?pool" using assms False by (auto simp: counts_ok_def)
  with assms False obtain pool' ps where
    "get_pages_loop fuel cl cap n ?pool 0 [] = Some (pool', [] @ ps)" "length ps = nat n"
    "counts_ok 0 pool'" "pages_claimed cl ps ?pool pool'" "pl_free_bpages ?pool \<le> pl_free_bpages pool'"
    using get_pages_loop_finds [of "nat n" ?pool cl n "[]" cap 0 fuel]
    by (auto simp: get_pages_fuel_def counts_ok_def)
  then show ?thesis using False assms(3) by (simp add: homa_pool_get_pages_def)
qed

end
