(* ===== verification/Homa_Pool_Use.thy ===== *)
theory Homa_Pool_Use
imports Homa_Pool
begin

text \<open>
  Correctness of the buffer pool: which byte ranges of which pages are in use,
  the invariant that ties them to the counters of the pool, and that allocating
  and releasing space for a message maintain it.
\<close>

section \<open>Buffers in use\<close>

text \<open>
  A buffer in use is a page with the range of bytes that a message occupies in
  it.  The invariant of the pool relates its counters to the set of buffers in
  use: buffers do not overlap, the reference count of a page is the number of
  its buffers plus one if a core owns it, and the buffers in a page that a core
  owns lie below that core's \<open>allocated\<close>.
\<close>

type_synonym buf = "nat \<times> int \<times> int"

definition buf_ok :: "nat \<Rightarrow> buf \<Rightarrow> bool" where
  "buf_ok n b \<longleftrightarrow> fst b < n \<and> 0 \<le> fst (snd b) \<and> fst (snd b) < snd (snd b) \<and> snd (snd b) \<le> HOMA_BPAGE_SIZE"

definition buf_disjoint :: "buf \<Rightarrow> buf \<Rightarrow> bool" where
  "buf_disjoint b b' \<longleftrightarrow> fst b \<noteq> fst b' \<or> snd (snd b) \<le> fst (snd b') \<or> snd (snd b') \<le> fst (snd b)"

definition uses :: "buf set \<Rightarrow> nat \<Rightarrow> nat" where
  "uses B p = card {b \<in> B. fst b = p}"

definition bufs_ok :: "nat \<Rightarrow> buf set \<Rightarrow> bool" where
  "bufs_ok n B \<longleftrightarrow> finite B \<and> (\<forall>b \<in> B. buf_ok n b) \<and> (\<forall>b \<in> B. \<forall>b' \<in> B. b \<noteq> b' \<longrightarrow> buf_disjoint b b')"

definition owned_by :: "homa_pool \<Rightarrow> nat \<Rightarrow> nat \<Rightarrow> bool" where
  "owned_by pool core p \<longleftrightarrow> p < length (pl_descriptors pool) \<and> bp_owner (pl_descriptors pool ! p) = int core"

definition refs_ok :: "homa_pool \<Rightarrow> buf set \<Rightarrow> bool" where
  "refs_ok pool B \<longleftrightarrow> (\<forall>p < length (pl_descriptors pool). bp_refs (pl_descriptors pool ! p) =
     int (uses B p) + (if 0 \<le> bp_owner (pl_descriptors pool ! p) then 1 else 0))"

definition cores_ok :: "homa_pool \<Rightarrow> buf set \<Rightarrow> bool" where
  "cores_ok pool B \<longleftrightarrow>
     (\<forall>core < length (pl_cores pool).
        pc_page_hint (pl_cores pool ! core) < length (pl_descriptors pool) \<and>
        0 \<le> pc_allocated (pl_cores pool ! core) \<and> pc_allocated (pl_cores pool ! core) \<le> HOMA_BPAGE_SIZE) \<and>
     (\<forall>core p. owned_by pool core p \<longrightarrow>
        core < length (pl_cores pool) \<and> pc_page_hint (pl_cores pool ! core) = p \<and>
        (\<forall>b \<in> B. fst b = p \<longrightarrow> snd (snd b) \<le> pc_allocated (pl_cores pool ! core)))"

definition pool_inv :: "homa_pool \<Rightarrow> buf set \<Rightarrow> bool" where
  "pool_inv pool B \<longleftrightarrow>
     counts_ok 0 pool \<and> bufs_ok (length (pl_descriptors pool)) B \<and> refs_ok pool B \<and> cores_ok pool B"

lemma uses_insert:
  "finite B \<Longrightarrow> b \<notin> B \<Longrightarrow> uses (insert b B) p = uses B p + (if fst b = p then 1 else 0)"
proof -
  assume "finite B" "b \<notin> B"
  have "{c \<in> insert b B. fst c = p} = (if fst b = p then insert b {c \<in> B. fst c = p} else {c \<in> B. fst c = p})"
    by auto
  with \<open>finite B\<close> \<open>b \<notin> B\<close> show ?thesis by (simp add: uses_def)
qed

lemma uses_fresh: "\<forall>b \<in> B. fst b \<noteq> p \<Longrightarrow> uses B p = 0"
  by (auto simp: uses_def card_eq_0_iff)

lemma unused_page:
  assumes "pool_inv pool B" "p < length (pl_descriptors pool)"
    and "\<not> bpage_busy now (pl_descriptors pool ! p)" and "b \<in> B"
  shows "fst b \<noteq> p"
proof
  assume "fst b = p"
  have "finite B" using assms(1) by (simp add: pool_inv_def bufs_ok_def)
  moreover have "b \<in> {c \<in> B. fst c = p}" using \<open>fst b = p\<close> assms(4) by simp
  ultimately have "0 < uses B p" unfolding uses_def by (subst card_gt_0_iff) (intro conjI, blast, simp)
  moreover have "bp_refs (pl_descriptors pool ! p) =
      int (uses B p) + (if 0 \<le> bp_owner (pl_descriptors pool ! p) then 1 else 0)"
    using assms(1,2) by (simp add: pool_inv_def refs_ok_def)
  ultimately show False using assms(3) by (auto simp: bpage_busy_def split: if_splits)
qed

lemma bufs_ok_insert:
  assumes "bufs_ok n B" "buf_ok n b" and "\<And>c. c \<in> B \<Longrightarrow> buf_disjoint b c"
  shows "bufs_ok n (insert b B)" and "b \<notin> B"
proof -
  have "buf_disjoint c b" if "c \<in> B" for c using assms(3) [OF that] by (auto simp: buf_disjoint_def)
  then show "bufs_ok n (insert b B)" using assms by (simp add: bufs_ok_def)
  show "b \<notin> B" using assms(2) assms(3) [of b] by (auto simp: buf_ok_def buf_disjoint_def)
qed

lemma claimed_cores:
  assumes "pages_claimed cl ps pool pool'"
  shows "length (pl_cores pool') = length (pl_cores pool)"
    and "core < length (pl_cores pool) \<Longrightarrow>
      pc_page_hint (pl_cores pool' ! core) = pc_page_hint (pl_cores pool ! core) \<and>
      pc_allocated (pl_cores pool' ! core) = pc_allocated (pl_cores pool ! core)"
proof -
  obtain c where c: "pl_cores pool' = pl_cores (set_candidate (cl_core cl) c pool)"
    using assms by (auto simp: pages_claimed_def)
  then show "length (pl_cores pool') = length (pl_cores pool)" by simp
  show "core < length (pl_cores pool) \<Longrightarrow>
      pc_page_hint (pl_cores pool' ! core) = pc_page_hint (pl_cores pool ! core) \<and>
      pc_allocated (pl_cores pool' ! core) = pc_allocated (pl_cores pool ! core)"
    by (cases "cl_core cl = core") (simp_all add: c set_candidate_def)
qed

text \<open>Whole pages: each claimed page carries one buffer, the whole page.\<close>

definition whole_page :: "nat \<Rightarrow> buf" where
  "whole_page p = (p, 0, HOMA_BPAGE_SIZE)"

lemma claim_whole_pages:
  assumes inv: "pool_inv pool B" and cl: "pages_claimed cl ps pool pool'" "\<not> cl_set_owner cl"
    and counts: "counts_ok 0 pool'"
  shows "pool_inv pool' (whole_page ` set ps \<union> B)" and "whole_page ` set ps \<inter> B = {}"
proof -
  let ?n = "length (pl_descriptors pool)"
  have ps: "\<And>p. p \<in> set ps \<Longrightarrow> p < ?n \<and> \<not> bpage_busy (cl_now cl) (pl_descriptors pool ! p)"
    and len: "length (pl_descriptors pool') = ?n"
    and ds: "\<And>p. p < ?n \<Longrightarrow> pl_descriptors pool' ! p =
      (if p \<in> set ps then claimed_bpage cl (pl_descriptors pool ! p) else pl_descriptors pool ! p)"
    using cl(1) by (auto simp: pages_claimed_def)
  have fresh: "\<And>p b. p \<in> set ps \<Longrightarrow> b \<in> B \<Longrightarrow> fst b \<noteq> p"
    using unused_page [OF inv] ps by blast
  then show dis: "whole_page ` set ps \<inter> B = {}" by (fastforce simp: whole_page_def)
  have B: "bufs_ok ?n B" using inv by (simp add: pool_inv_def)
  have "bufs_ok ?n (whole_page ` set ps \<union> B)"
  proof -
    have ok: "buf_ok ?n (whole_page p)" if "p \<in> set ps" for p
      using ps [OF that] by (simp add: buf_ok_def whole_page_def HOMA_BPAGE_SIZE_def)
    have old: "buf_disjoint (whole_page p) b" "buf_disjoint b (whole_page p)"
      if "p \<in> set ps" "b \<in> B" for p b
      using fresh [OF that] by (simp_all add: buf_disjoint_def whole_page_def)
    have new: "buf_disjoint (whole_page p) (whole_page q)" if "whole_page p \<noteq> whole_page q" for p q
      using that by (auto simp: buf_disjoint_def whole_page_def)
    show ?thesis unfolding bufs_ok_def
    proof (intro conjI ballI impI)
      show "finite (whole_page ` set ps \<union> B)" using B by (simp add: bufs_ok_def)
      fix b
      assume b: "b \<in> whole_page ` set ps \<union> B"
      then show "buf_ok ?n b" using ok B by (auto simp: bufs_ok_def)
      fix b'
      assume "b' \<in> whole_page ` set ps \<union> B" "b \<noteq> b'"
      with b consider "b \<in> B" "b' \<in> B" | p where "p \<in> set ps" "b = whole_page p" "b' \<in> B"
        | p where "p \<in> set ps" "b' = whole_page p" "b \<in> B" | p q where "b = whole_page p" "b' = whole_page q"
        by blast
      then show "buf_disjoint b b'"
        using B old new \<open>b \<noteq> b'\<close> by cases (simp_all add: bufs_ok_def)
    qed
  qed
  moreover have "uses (whole_page ` set ps \<union> B) p = (if p \<in> set ps then 1 else uses B p)" for p
  proof -
    have "{b \<in> whole_page ` set ps \<union> B. fst b = p} = (if p \<in> set ps then {whole_page p} else {b \<in> B. fst b = p})"
      using fresh by (auto simp: whole_page_def)
    then show ?thesis by (simp add: uses_def)
  qed
  then have "refs_ok pool' (whole_page ` set ps \<union> B)"
    using inv ds len cl(2) by (auto simp: refs_ok_def pool_inv_def claimed_bpage_def)
  moreover have "cores_ok pool' (whole_page ` set ps \<union> B)"
  proof -
    have owned: "owned_by pool core p" "p \<notin> set ps" if "owned_by pool' core p" for core p
      using that ds [of p] len cl(2) by (auto simp: owned_by_def claimed_bpage_def split: if_splits)
    have new: "fst b \<noteq> p" if "b \<in> whole_page ` set ps" "p \<notin> set ps" for b p
      using that by (auto simp: whole_page_def)
    have "cores_ok pool B" using inv by (simp add: pool_inv_def)
    note ok = this [unfolded cores_ok_def]
    show ?thesis unfolding cores_ok_def len claimed_cores(1) [OF cl(1)]
    proof (intro conjI allI impI ballI)
      fix core p
      assume "owned_by pool' core p"
      note o = owned [OF this]
      from ok o(1) have c: "core < length (pl_cores pool)" "pc_page_hint (pl_cores pool ! core) = p"
        "\<forall>b \<in> B. fst b = p \<longrightarrow> snd (snd b) \<le> pc_allocated (pl_cores pool ! core)" by blast+
      then show "core < length (pl_cores pool)" "pc_page_hint (pl_cores pool' ! core) = p"
        using claimed_cores(2) [OF cl(1)] by simp_all
      show "snd (snd b) \<le> pc_allocated (pl_cores pool' ! core)"
        if "b \<in> whole_page ` set ps \<union> B" "fst b = p" for b
        using that new [of b p] o(2) c claimed_cores(2) [OF cl(1)] by auto
    qed (use ok claimed_cores(2) [OF cl(1)] in auto)
  qed
  ultimately show "pool_inv pool' (whole_page ` set ps \<union> B)" using counts len by (simp add: pool_inv_def)
qed

text \<open>Updates of one descriptor or one core that the counts do not notice.\<close>

lemma counts_ok_descriptor:
  assumes "counts_ok r pool" "p < length (pl_descriptors pool)" "bpage_ok bp"
    and "bp_refs bp = 0 \<longleftrightarrow> bp_refs (pl_descriptors pool ! p) = 0"
  shows "counts_ok r (pool\<lparr>pl_descriptors := (pl_descriptors pool)[p := bp]\<rparr>)"
  using assms
  by (auto simp: counts_ok_def zero_refs_update)

lemma counts_ok_core:
  assumes "counts_ok r pool" "core < length (pl_cores pool)"
    and "pc_next_candidate c = pc_next_candidate (pl_cores pool ! core)"
  shows "counts_ok r (pool\<lparr>pl_cores := (pl_cores pool)[core := c]\<rparr>)"
  using assms by (auto simp: counts_ok_def list_all_length nth_list_update)

lemma owned_refs:
  assumes "pool_inv pool B" "owned_by pool core p"
  shows "bp_refs (pl_descriptors pool ! p) = int (uses B p) + 1" "bpage_ok (pl_descriptors pool ! p)"
    "p < length (pl_descriptors pool)" "core < length (pl_cores pool)"
    "pc_page_hint (pl_cores pool ! core) = p"
    "\<And>b. b \<in> B \<Longrightarrow> fst b = p \<Longrightarrow> snd (snd b) \<le> pc_allocated (pl_cores pool ! core)"
  using assms
  by (auto simp: pool_inv_def refs_ok_def owned_by_def counts_ok_def list_all_length cores_ok_def)

text \<open>The core gives its page up.\<close>

lemma give_up_page:
  assumes inv: "pool_inv pool B" and own: "owned_by pool core p"
    and refs: "bp_refs (pl_descriptors pool ! p) \<noteq> 1"
    and pool': "pool' = pool\<lparr>pl_descriptors := (pl_descriptors pool)[p :=
      (pl_descriptors pool ! p)\<lparr>bp_owner := -1, bp_refs := bp_refs (pl_descriptors pool ! p) - 1\<rparr>]\<rparr>"
  shows "pool_inv pool' B" and "\<And>q. \<not> owned_by pool' core q"
proof -
  note o = owned_refs [OF inv own]
  have ds: "q < length (pl_descriptors pool) \<Longrightarrow> pl_descriptors pool' ! q = (if q = p
      then (pl_descriptors pool ! p)\<lparr>bp_owner := -1, bp_refs := bp_refs (pl_descriptors pool ! p) - 1\<rparr>
      else pl_descriptors pool ! q)" for q
    by (simp add: pool' nth_list_update)
  have len: "length (pl_descriptors pool') = length (pl_descriptors pool)"
    "pl_cores pool' = pl_cores pool" by (simp_all add: pool')
  have own': "owned_by pool' c q \<longleftrightarrow> owned_by pool c q \<and> q \<noteq> p" for c q
    using ds [of q] o(3) by (auto simp: owned_by_def len split: if_splits)
  have "counts_ok 0 pool'" unfolding pool'
    using inv o(1-3) refs by (intro counts_ok_descriptor) (auto simp: pool_inv_def bpage_ok_def)
  moreover have "refs_ok pool' B"
    using inv ds o(1) own by (auto simp: pool_inv_def refs_ok_def len owned_by_def)
  moreover have "cores_ok pool' B"
    using inv own' unfolding pool_inv_def cores_ok_def len by blast
  ultimately show "pool_inv pool' B" using inv by (simp add: pool_inv_def len)
  show "\<not> owned_by pool' core q" for q
  proof
    assume "owned_by pool' core q"
    then have "owned_by pool core q" "q \<noteq> p" using own' by auto
    then show False using owned_refs(5) [OF inv] own by metis
  qed
qed

text \<open>The core cuts the bytes from \<open>a\<close> on from its page.\<close>

lemma cut_own_page:
  assumes inv: "pool_inv pool B" and own: "owned_by pool core p" and part: "0 < partial" "a + partial \<le> HOMA_BPAGE_SIZE"
    and a: "0 \<le> a" "\<And>b. b \<in> B \<Longrightarrow> fst b = p \<Longrightarrow> snd (snd b) \<le> a"
    and pool': "pool' = pool\<lparr>
      pl_descriptors := (pl_descriptors pool)[p := (pl_descriptors pool ! p)\<lparr>bp_expiration := e,
        bp_refs := bp_refs (pl_descriptors pool ! p) + 1\<rparr>],
      pl_cores := (pl_cores pool)[core := (pl_cores pool ! core)\<lparr>pc_allocated := a + partial\<rparr>]\<rparr>"
  shows "pool_inv pool' (insert (p, a, a + partial) B)" and "(p, a, a + partial) \<notin> B"
proof -
  note o = owned_refs [OF inv own]
  let ?b = "(p, a, a + partial)"
  have ds: "q < length (pl_descriptors pool) \<Longrightarrow> pl_descriptors pool' ! q = (if q = p
      then (pl_descriptors pool ! p)\<lparr>bp_expiration := e, bp_refs := bp_refs (pl_descriptors pool ! p) + 1\<rparr>
      else pl_descriptors pool ! q)" for q
    by (simp add: pool' nth_list_update)
  have cs: "pl_cores pool' ! c = (if c = core then (pl_cores pool ! core)\<lparr>pc_allocated := a + partial\<rparr>
      else pl_cores pool ! c)" for c
    using o(4) by (simp add: pool' nth_list_update)
  have len: "length (pl_descriptors pool') = length (pl_descriptors pool)"
    "length (pl_cores pool') = length (pl_cores pool)" by (simp_all add: pool')
  have own': "owned_by pool' c q \<longleftrightarrow> owned_by pool c q" for c q
    using ds [of q] by (auto simp: owned_by_def len split: if_splits)
  have B: "bufs_ok (length (pl_descriptors pool)) B" using inv by (simp add: pool_inv_def)
  have bufs: "bufs_ok (length (pl_descriptors pool)) (insert ?b B)" "?b \<notin> B"
    using bufs_ok_insert [OF B, of ?b] o(3) part a by (auto simp: buf_ok_def buf_disjoint_def)
  show "?b \<notin> B" by (rule bufs(2))
  have "counts_ok 0 (pool\<lparr>pl_descriptors := (pl_descriptors pool)[p := (pl_descriptors pool ! p)\<lparr>bp_expiration := e,
        bp_refs := bp_refs (pl_descriptors pool ! p) + 1\<rparr>]\<rparr>)" (is "counts_ok 0 ?mid")
    using inv o(1-3) by (intro counts_ok_descriptor) (auto simp: pool_inv_def bpage_ok_def)
  then have "counts_ok 0 pool'"
    using counts_ok_core [of 0 ?mid core] o(4) by (simp add: pool')
  moreover have "refs_ok pool' (insert ?b B)"
    using inv ds bufs(2) B
    by (auto simp: pool_inv_def refs_ok_def len uses_insert bufs_ok_def)
  moreover have "cores_ok pool' (insert ?b B)" unfolding cores_ok_def
  proof (intro conjI allI impI ballI)
    fix c q
    assume "owned_by pool' c q"
    then have "owned_by pool c q" using own' by simp
    note o' = owned_refs [OF inv this]
    show "c < length (pl_cores pool')" using o'(4) by (simp add: len)
    show hint: "pc_page_hint (pl_cores pool' ! c) = q" using o'(5) cs by auto
    fix b
    assume "b \<in> insert ?b B" "fst b = q"
    show "snd (snd b) \<le> pc_allocated (pl_cores pool' ! c)"
    proof (cases "c = core")
      case True
      then have "q = p" using o'(5) o(5) by simp
      then have "b \<in> B \<Longrightarrow> snd (snd b) \<le> a" using a(2) [of b] \<open>fst b = q\<close> by simp
      then show ?thesis
        using True cs [of c] part(1) \<open>b \<in> insert ?b B\<close> by (cases "b = ?b") simp_all
    next
      case False
      then have "q \<noteq> p" using \<open>owned_by pool c q\<close> own by (auto simp: owned_by_def)
      then have "b \<in> B" using \<open>b \<in> insert ?b B\<close> \<open>fst b = q\<close> by auto
      then show ?thesis using o'(6) \<open>fst b = q\<close> cs [of c] False by simp
    qed
  qed (use inv cs part a in \<open>auto simp: pool_inv_def cores_ok_def len\<close>)
  ultimately show "pool_inv pool' (insert ?b B)" using bufs by (simp add: pool_inv_def len)
qed

text \<open>The core becomes the owner of a page that was free and cuts its first bytes.\<close>

lemma cut_new_page:
  assumes inv: "pool_inv pool B" and none: "\<And>q. \<not> owned_by pool core q" and part: "0 < partial" "partial \<le> HOMA_BPAGE_SIZE"
    and cl: "pages_claimed cl [p] pool pool2" "cl_set_owner cl" "cl_core cl = core"
    and core: "core < length (pl_cores pool)" and counts: "counts_ok 0 pool2"
    and pool': "pool' = pool2\<lparr>pl_cores := (pl_cores pool2)[core :=
      (pl_cores pool2 ! core)\<lparr>pc_page_hint := p, pc_allocated := partial\<rparr>]\<rparr>"
  shows "pool_inv pool' (insert (p, 0, partial) B)" and "(p, 0, partial) \<notin> B"
proof -
  let ?b = "(p, 0, partial)" and ?n = "length (pl_descriptors pool)"
  have p: "p < ?n" "\<not> bpage_busy (cl_now cl) (pl_descriptors pool ! p)"
    and len2: "length (pl_descriptors pool2) = ?n"
    and ds2: "\<And>q. q < ?n \<Longrightarrow> pl_descriptors pool2 ! q =
      (if q = p then claimed_bpage cl (pl_descriptors pool ! q) else pl_descriptors pool ! q)"
    using cl(1) by (auto simp: pages_claimed_def)
  have len: "length (pl_descriptors pool') = ?n" "length (pl_cores pool') = length (pl_cores pool)"
    "pl_descriptors pool' = pl_descriptors pool2"
    using len2 claimed_cores(1) [OF cl(1)] by (simp_all add: pool')
  have cs: "c < length (pl_cores pool) \<Longrightarrow> c \<noteq> core \<Longrightarrow>
      pc_page_hint (pl_cores pool' ! c) = pc_page_hint (pl_cores pool ! c) \<and>
      pc_allocated (pl_cores pool' ! c) = pc_allocated (pl_cores pool ! c)" for c
    using claimed_cores(2) [OF cl(1)] by (simp add: pool')
  have cs0: "pc_page_hint (pl_cores pool' ! core) = p" "pc_allocated (pl_cores pool' ! core) = partial"
    using core claimed_cores(1) [OF cl(1)] by (simp_all add: pool')
  have fresh: "\<And>b. b \<in> B \<Longrightarrow> fst b \<noteq> p" using unused_page [OF inv p] by blast
  have B: "bufs_ok ?n B" using inv by (simp add: pool_inv_def)
  have bufs: "bufs_ok ?n (insert ?b B)" "?b \<notin> B"
    using bufs_ok_insert [OF B, of ?b] p(1) part fresh by (auto simp: buf_ok_def buf_disjoint_def)
  show "?b \<notin> B" by (rule bufs(2))
  have "counts_ok 0 pool'" unfolding pool'
    using counts core claimed_cores(1) [OF cl(1)] by (intro counts_ok_core) simp_all
  moreover have "refs_ok pool' (insert ?b B)"
    using inv ds2 bufs(2) B uses_fresh [of B p] fresh cl(2,3)
    by (auto simp: pool_inv_def refs_ok_def len len2 uses_insert bufs_ok_def claimed_bpage_def)
  moreover have "cores_ok pool' (insert ?b B)" unfolding cores_ok_def
  proof (intro conjI allI impI ballI)
    fix c
    assume "c < length (pl_cores pool')"
    then show "pc_page_hint (pl_cores pool' ! c) < length (pl_descriptors pool')"
      "0 \<le> pc_allocated (pl_cores pool' ! c)" "pc_allocated (pl_cores pool' ! c) \<le> HOMA_BPAGE_SIZE"
      using inv cs [of c] cs0 part p(1) by (cases "c = core"; auto simp: pool_inv_def cores_ok_def len len2)+
  next
    fix c q
    assume own: "owned_by pool' c q"
    have "c = core \<and> q = p \<or> c \<noteq> core \<and> q \<noteq> p \<and> owned_by pool c q"
    proof (cases "q = p")
      case True
      then show ?thesis using own ds2 [OF p(1)] cl by (auto simp: owned_by_def len len2 claimed_bpage_def)
    next
      case False
      then have "owned_by pool c q" using own ds2 [of q] by (auto simp: owned_by_def len len2)
      then show ?thesis using False none by auto
    qed
    then consider (new) "c = core" "q = p" | (old) "c \<noteq> core" "q \<noteq> p" "owned_by pool c q" by blast
    note cases = this
    show "c < length (pl_cores pool')" using cases core owned_refs(4) [OF inv] by (cases; simp add: len(2))
    show "pc_page_hint (pl_cores pool' ! c) = q"
      using cases cs0 cs owned_refs(4,5) [OF inv] by (cases; simp)
    fix b
    assume "b \<in> insert ?b B" "fst b = q"
    with cases show "snd (snd b) \<le> pc_allocated (pl_cores pool' ! c)"
    proof cases
      case new
      then have "b = ?b" using \<open>b \<in> insert ?b B\<close> \<open>fst b = q\<close> fresh [of b] by blast
      then show ?thesis using new cs0 by simp
    next
      case old
      then have "b \<in> B" using \<open>b \<in> insert ?b B\<close> \<open>fst b = q\<close> by auto
      then show ?thesis using owned_refs [OF inv old(3)] cs [of c] old(1) \<open>fst b = q\<close> by simp
    qed
  qed
  ultimately show "pool_inv pool' (insert ?b B)" using bufs by (simp add: pool_inv_def len(1))
qed

text \<open>Releasing one buffer.\<close>

lemma release_bpage_inv:
  assumes inv: "pool_inv pool (insert b B)" and new: "b \<notin> B"
  shows "pool_inv (release_bpage pool (fst b)) B"
proof -
  let ?p = "fst b" and ?ds = "pl_descriptors pool" and ?pool' = "release_bpage pool (fst b)"
  let ?bp = "(?ds ! ?p)\<lparr>bp_refs := bp_refs (?ds ! ?p) - 1\<rparr>"
  have bufs: "bufs_ok (length ?ds) (insert b B)" using inv by (simp add: pool_inv_def)
  then have fin: "finite B" and p: "?p < length ?ds" by (auto simp: bufs_ok_def buf_ok_def)
  have refs: "bp_refs (?ds ! q) = int (uses B q) + (if ?p = q then 1 else 0) +
      (if 0 \<le> bp_owner (?ds ! q) then 1 else 0)" if "q < length ?ds" for q
    using inv that uses_insert [OF fin new] by (simp add: pool_inv_def refs_ok_def)
  have ds': "pl_descriptors ?pool' = ?ds[?p := ?bp]" and cores': "pl_cores ?pool' = pl_cores pool"
    by (simp_all add: release_bpage_def Let_def)
  have own': "owned_by ?pool' c q \<longleftrightarrow> owned_by pool c q" for c q
    using p by (auto simp: owned_by_def ds' nth_list_update split: if_splits)
  have "bpage_ok ?bp" using refs [OF p] by (simp add: bpage_ok_def)
  moreover have "bp_refs (?ds ! ?p) \<noteq> 0" using refs [OF p] by simp
  ultimately have "counts_ok 0 ?pool'"
    using inv p
    by (auto simp: pool_inv_def counts_ok_def release_bpage_def Let_def zero_refs_update)
  moreover have "bufs_ok (length (pl_descriptors ?pool')) B"
    using bufs by (simp add: bufs_ok_def ds')
  moreover have "refs_ok ?pool' B"
    using refs p by (auto simp: refs_ok_def ds' nth_list_update)
  moreover have "cores_ok ?pool' B"
    using inv own' unfolding pool_inv_def cores_ok_def cores' by (simp add: ds')
  ultimately show ?thesis by (simp add: pool_inv_def)
qed

section \<open>Buffers of a message\<close>

text \<open>The buffers that the offsets of a message describe: chunk \<open>i\<close> of the message is a
  whole bpage except for the last one.\<close>

definition chunk_size :: "homa_message_in \<Rightarrow> nat \<Rightarrow> int" where
  "chunk_size m i = min HOMA_BPAGE_SIZE (mi_length m - int i * HOMA_BPAGE_SIZE)"

definition buf_at :: "int \<Rightarrow> int \<Rightarrow> buf" where
  "buf_at off len = (nat (off div HOMA_BPAGE_SIZE), off mod HOMA_BPAGE_SIZE, off mod HOMA_BPAGE_SIZE + len)"

definition msg_bufs :: "homa_message_in \<Rightarrow> buf list" where
  "msg_bufs m = map (\<lambda>i. buf_at (mi_bpage_offsets m ! i) (chunk_size m i)) [0..<length (mi_bpage_offsets m)]"

text \<open>The message has space for all of its bytes, one bpage offset per chunk.\<close>

definition has_space :: "homa_pool \<Rightarrow> homa_message_in \<Rightarrow> bool" where
  "has_space pool m \<longleftrightarrow>
     mi_num_bpages m = int (length (mi_bpage_offsets m)) \<and>
     mi_num_bpages m = (mi_length m + HOMA_BPAGE_SIZE - 1) div HOMA_BPAGE_SIZE \<and>
     (\<forall>off \<in> set (mi_bpage_offsets m). 0 \<le> off) \<and> distinct (msg_bufs m)"

lemma release_loop_inv:
  assumes "pool_inv pool (set bufs \<union> B)" "distinct bufs" "set bufs \<inter> B = {}"
    and "map (\<lambda>off. nat (off div HOMA_BPAGE_SIZE)) offs = map fst bufs" "\<forall>off \<in> set offs. 0 \<le> off"
  shows "\<exists>pool'. release_loop pool offs bad = (pool', bad) \<and> pool_inv pool' B"
  using assms
proof (induction offs arbitrary: pool bufs)
  case Nil
  then show ?case by simp
next
  case (Cons off offs)
  then obtain b bs where bufs: "bufs = b # bs" "nat (off div HOMA_BPAGE_SIZE) = fst b"
    "map (\<lambda>off. nat (off div HOMA_BPAGE_SIZE)) offs = map fst bs" by auto
  have "pool_inv pool (insert b (set bs \<union> B))" "b \<notin> set bs \<union> B"
    using Cons.prems bufs by auto
  then have step: "pool_inv (release_bpage pool (fst b)) (set bs \<union> B)" by (rule release_bpage_inv)
  have "fst b < length (pl_descriptors pool)"
    using Cons.prems(1) bufs by (auto simp: pool_inv_def bufs_ok_def buf_ok_def)
  then have "off div HOMA_BPAGE_SIZE < pl_num_bpages pool"
    using Cons.prems(1,5) bufs(2) by (auto simp: pool_inv_def counts_ok_def nat_less_iff)
  then show ?case
    using Cons.IH [OF step] Cons.prems bufs by (auto simp: Let_def)
qed

section \<open>Allocating space for a message\<close>

lemma use_own_page_False:
  assumes inv: "pool_inv pool B" and core: "core < length (pl_cores pool)"
    and res: "use_own_page core now lease partial pool = (pool', False)"
  shows "pool_inv pool' B" and "\<And>q. \<not> owned_by pool' core q"
    and "pl_cores pool' = pl_cores pool" "pl_free_bpages pool' = pl_free_bpages pool"
    "pl_region pool' = pl_region pool" "length (pl_descriptors pool') = length (pl_descriptors pool)"
proof -
  let ?p = "pc_page_hint (pl_cores pool ! core)"
  have p: "?p < length (pl_descriptors pool)" using inv core by (simp add: pool_inv_def cores_ok_def)
  have "pool_inv pool' B \<and> (\<forall>q. \<not> owned_by pool' core q)"
  proof (cases "owned_by pool core ?p")
    case True
    then have "bp_owner (pl_descriptors pool ! ?p) = int core" by (simp add: owned_by_def)
    then have "bp_refs (pl_descriptors pool ! ?p) \<noteq> 1"
      "pool' = pool\<lparr>pl_descriptors := (pl_descriptors pool)[?p := (pl_descriptors pool ! ?p)
        \<lparr>bp_owner := -1, bp_refs := bp_refs (pl_descriptors pool ! ?p) - 1\<rparr>]\<rparr>"
      using res by (auto simp: use_own_page_def Let_def split: if_splits)
    then show ?thesis using give_up_page [OF inv True] by blast
  next
    case False
    then have "pool' = pool" using res p by (auto simp: use_own_page_def Let_def owned_by_def split: if_splits)
    then show ?thesis using False owned_refs(5) [OF inv] inv by metis
  qed
  then show "pool_inv pool' B" "\<And>q. \<not> owned_by pool' core q" by blast+
  show "pl_cores pool' = pl_cores pool" "pl_free_bpages pool' = pl_free_bpages pool"
    "pl_region pool' = pl_region pool" "length (pl_descriptors pool') = length (pl_descriptors pool)"
    using res by (auto simp: use_own_page_def Let_def split: if_splits)
qed

lemma use_own_page_True:
  assumes inv: "pool_inv pool B" and core: "core < length (pl_cores pool)"
    and part: "0 < partial" "partial \<le> HOMA_BPAGE_SIZE"
    and res: "use_own_page core now lease partial pool = (pool1, True)"
    and pool'_def: "pool' = pool1\<lparr>pl_cores := (pl_cores pool1)[core := (pl_cores pool1 ! core)
      \<lparr>pc_allocated := pc_allocated (pl_cores pool1 ! core) + partial\<rparr>]\<rparr>"
  obtains p a where "pool_inv pool' (insert (p, a, a + partial) B)" "(p, a, a + partial) \<notin> B" "0 \<le> a"
    "pc_allocated (pl_cores pool1 ! core) = a" "pc_page_hint (pl_cores pool1 ! core) = p"
proof -
  let ?c = "pl_cores pool ! core"
  let ?p = "pc_page_hint ?c"
  let ?bp = "pl_descriptors pool ! ?p"
  have p: "?p < length (pl_descriptors pool)" using inv core by (simp add: pool_inv_def cores_ok_def)
  then have own: "owned_by pool core ?p"
    using res by (auto simp: use_own_page_def Let_def owned_by_def split: if_splits)
  note o = owned_refs [OF inv own]
  define a where "a = (if pc_allocated ?c + partial > HOMA_BPAGE_SIZE then 0 else pc_allocated ?c)"
  have pool1: "pool1 = pool\<lparr>pl_descriptors := (pl_descriptors pool)[?p :=
      ?bp\<lparr>bp_expiration := now + 1000 * lease, bp_refs := bp_refs ?bp + 1\<rparr>],
      pl_cores := (pl_cores pool)[core := ?c\<lparr>pc_allocated := a\<rparr>]\<rparr>"
    and reuse: "pc_allocated ?c + partial > HOMA_BPAGE_SIZE \<Longrightarrow> bp_refs ?bp = 1"
    using res by (auto simp: use_own_page_def Let_def a_def split: if_splits)
  have a: "0 \<le> a" "a + partial \<le> HOMA_BPAGE_SIZE"
    using inv core part by (auto simp: a_def pool_inv_def cores_ok_def)
  have below: "snd (snd b) \<le> a" if "b \<in> B" "fst b = ?p" for b
  proof (cases "pc_allocated ?c + partial > HOMA_BPAGE_SIZE")
    case True
    then have "card {b \<in> B. fst b = ?p} = 0" using reuse o(1) by (simp add: uses_def)
    moreover have "finite B" using inv by (simp add: pool_inv_def bufs_ok_def)
    ultimately have "{b \<in> B. fst b = ?p} = {}" by (simp add: card_eq_0_iff)
    then show ?thesis using that by blast
  next
    case False
    then show ?thesis using o(6) [OF that] by (simp add: a_def)
  qed
  have pool': "pool' = pool\<lparr>pl_descriptors := (pl_descriptors pool)[?p :=
      ?bp\<lparr>bp_expiration := now + 1000 * lease, bp_refs := bp_refs ?bp + 1\<rparr>],
      pl_cores := (pl_cores pool)[core := ?c\<lparr>pc_allocated := a + partial\<rparr>]\<rparr>"
    using core by (simp add: pool1 pool'_def)
  show thesis
    using that [of ?p a] cut_own_page [OF inv own part(1) a(2,1) below pool'] a(1) core by (simp add: pool1)
qed

lemma release_whole_pages:
  assumes "pool_inv pool (whole_page ` set ps \<union> B)" "distinct ps" "whole_page ` set ps \<inter> B = {}"
    and "pl_region pool \<noteq> 0"
  shows "pool_inv (fst (homa_pool_release_buffers pool (map (\<lambda>p. int p * HOMA_BPAGE_SIZE) ps))) B"
proof -
  have "distinct (map whole_page ps)"
    using assms(2) by (simp add: distinct_map inj_on_def whole_page_def)
  then obtain pool' where
    "release_loop pool (map (\<lambda>p. int p * HOMA_BPAGE_SIZE) ps) False = (pool', False)" "pool_inv pool' B"
    using release_loop_inv [of pool "map whole_page ps" B "map (\<lambda>p. int p * HOMA_BPAGE_SIZE) ps" False] assms
    by (auto simp: whole_page_def HOMA_BPAGE_SIZE_def comp_def)
  then show ?thesis using assms(4) by (simp add: homa_pool_release_buffers_def)
qed

text \<open>
  The pool is small enough for its offsets to fit into 32 bits, i.e. at most 4 GB; the offset of every buffer is then stored as it is.
\<close>

definition addressable :: "homa_pool \<Rightarrow> bool" where
  "addressable pool \<longleftrightarrow> length (pl_descriptors pool) \<le> 2 ^ 16"

definition stored :: "homa_message_in \<Rightarrow> int \<Rightarrow> homa_message_in" where
  "stored m off = m\<lparr>mi_bpage_offsets := take (nat (mi_num_bpages m)) (mi_bpage_offsets m) @ [off], mi_num_bpages := mi_num_bpages m + 1\<rparr>"

lemma offset_fits:
  assumes "addressable pool" and "p < length (pl_descriptors pool)" and "0 \<le> a" and "a < HOMA_BPAGE_SIZE"
  shows "wrap_u32 (a + int p * HOMA_BPAGE_SIZE) = a + int p * HOMA_BPAGE_SIZE"
  using assms by (intro wrap_u32_id) (simp_all add: addressable_def HOMA_BPAGE_SIZE_def)

lemma cut_partial_stores:
  assumes "pool_inv pool' (insert (p, a, a + partial) B)" and "0 \<le> a" and "0 < partial" and "addressable pool'"
    and "pool' = pool\<lparr>pl_cores := (pl_cores pool)[core := (pl_cores pool ! core)\<lparr>pc_allocated := pc_allocated (pl_cores pool ! core) + partial\<rparr>]\<rparr>"
    and "pc_allocated (pl_cores pool ! core) = a" and "pc_page_hint (pl_cores pool ! core) = p" and "mi_num_bpages m < int HOMA_MAX_BPAGES"
  shows "cut_partial core partial pool m = Some (pool', stored m (a + int p * HOMA_BPAGE_SIZE))"
proof -
  have "buf_ok (length (pl_descriptors pool')) (p, a, a + partial)" using assms(1) by (simp add: pool_inv_def bufs_ok_def)
  then have "p < length (pl_descriptors pool')" "a < HOMA_BPAGE_SIZE" using assms(3) by (simp_all add: buf_ok_def)
  then show ?thesis
    using offset_fits [OF assms(4)] assms by (simp add: cut_partial_def store_offset_def stored_def Let_def)
qed

lemma allocate_partial_result:
  assumes inv: "pool_inv pool (whole_page ` set ps \<union> B)" and region: "pl_region pool \<noteq> 0"
    and core: "core < length (pl_cores pool)" and part: "0 < partial" "partial < HOMA_BPAGE_SIZE"
    and fuel: "get_pages_fuel pool 1 \<le> fuel"
    and m: "mi_num_bpages m = int (length ps)"
      "take (length ps) (mi_bpage_offsets m) = map (\<lambda>p. int p * HOMA_BPAGE_SIZE) ps"
    and ps: "distinct ps" "whole_page ` set ps \<inter> B = {}" and small: "addressable pool" "length ps < HOMA_MAX_BPAGES"
  obtains (ok) pool' p a where
    "allocate_partial fuel clk lease core partial pool m =
       Some (pool', stored m (a + int p * HOMA_BPAGE_SIZE), True)"
    "pool_inv pool' (insert (p, a, a + partial) (whole_page ` set ps \<union> B))"
    "(p, a, a + partial) \<notin> whole_page ` set ps \<union> B" "0 \<le> a"
  | (none) pool' where
    "allocate_partial fuel clk lease core partial pool m = Some (pool', m\<lparr>mi_num_bpages := 0\<rparr>, False)"
    "pool_inv pool' B" "pl_free_bpages pool < 1"
proof -
  let ?B = "whole_page ` set ps \<union> B"
  obtain pool1 own where use: "use_own_page core (clk 1) lease partial pool = (pool1, own)" by fastforce
  let ?cl = "\<lparr>cl_core = core, cl_now = clk 2, cl_lease_usecs = lease, cl_set_owner = True\<rparr>"
  show thesis
  proof (cases own)
    case True
    then have useT: "use_own_page core (clk 1) lease partial pool = (pool1, True)" using use by simp
    define pool' where "pool' = pool1\<lparr>pl_cores := (pl_cores pool1)[core := (pl_cores pool1 ! core)
      \<lparr>pc_allocated := pc_allocated (pl_cores pool1 ! core) + partial\<rparr>]\<rparr>"
    from use_own_page_True [OF inv core part(1) _ useT pool'_def] part(2) obtain p a where
      pa: "pool_inv pool' (insert (p, a, a + partial) ?B)" "(p, a, a + partial) \<notin> ?B" "0 \<le> a"
      "pc_allocated (pl_cores pool1 ! core) = a" "pc_page_hint (pl_cores pool1 ! core) = p" by auto
    have "length (pl_descriptors pool') = length (pl_descriptors pool)"
      using useT by (auto simp: pool'_def use_own_page_def Let_def split: if_splits)
    then have "addressable pool'" using small(1) by (simp add: addressable_def)
    from cut_partial_stores [OF pa(1,3) part(1) this pool'_def pa(4,5)] m(1) small(2)
    show ?thesis using ok [of pool' a p] useT pa by (simp add: allocate_partial_def)
  next
    case False
    then have "use_own_page core (clk 1) lease partial pool = (pool1, False)" using use by simp
    note f = use_own_page_False [OF inv core this]
    have counts: "counts_ok 0 pool1" using f(1) by (simp add: pool_inv_def)
    note get = get_pages_result [OF counts, of ?cl 1 HOMA_MAX_BPAGES fuel]
    have fuel1: "get_pages_fuel pool1 1 \<le> fuel" "core < length (pl_cores pool1)"
      using fuel core f(3,6) by (simp_all add: get_pages_fuel_def)
    show ?thesis
    proof (cases "pl_free_bpages pool1 < 1")
      case True
      then have "homa_pool_get_pages fuel ?cl HOMA_MAX_BPAGES pool1 1 = Some (pool1, None)"
        using get fuel1 by (simp add: HOMA_MAX_BPAGES_def)
      then show ?thesis
        using none [of "fst (homa_pool_release_buffers pool1 (map (\<lambda>p. int p * HOMA_BPAGE_SIZE) ps))"]
          release_whole_pages [OF f(1) ps] region f(4,5) m use False True
        by (simp add: allocate_partial_def)
    next
      case free: False
      then obtain pool2 qs where g: "homa_pool_get_pages fuel ?cl HOMA_MAX_BPAGES pool1 1 = Some (pool2, Some qs)"
        "int (length qs) = 1" "counts_ok 0 pool2" "pages_claimed ?cl qs pool1 pool2"
        using get fuel1 by (auto simp: HOMA_MAX_BPAGES_def)
      then obtain q where q: "qs = [q]" by (auto simp: length_Suc_conv)
      let ?pool3 = "pool2\<lparr>pl_cores := (pl_cores pool2)[core := (pl_cores pool2 ! core)\<lparr>pc_page_hint := q, pc_allocated := 0\<rparr>]\<rparr>"
      let ?pool4 = "pool2\<lparr>pl_cores := (pl_cores pool2)[core := (pl_cores pool2 ! core)\<lparr>pc_page_hint := q, pc_allocated := partial\<rparr>]\<rparr>"
      have "core < length (pl_cores pool2)" using fuel1(2) claimed_cores(1) [OF g(4)] by simp
      moreover have new: "pool_inv ?pool4 (insert (q, 0, 0 + partial) ?B)" "(q, 0, partial) \<notin> ?B"
        using cut_new_page [OF f(1,2) part(1) _ g(4) [unfolded q] _ _ _ g(3) refl] part(2) fuel1(2) by auto
      moreover have "addressable ?pool4"
        using small(1) f(6) g(4) by (simp add: addressable_def pages_claimed_def)
      ultimately have "cut_partial core partial ?pool3 m = Some (?pool4, stored m (0 + int q * HOMA_BPAGE_SIZE))"
        using m(1) small(2) part(1) by (intro cut_partial_stores [OF new(1)]) simp_all
      then show ?thesis
        using ok [of ?pool4 0 q] use False g(1) q new by (simp add: allocate_partial_def Let_def)
    qed
  qed
qed

lemma buf_at_page: "buf_at (int p * HOMA_BPAGE_SIZE) HOMA_BPAGE_SIZE = whole_page p"
  by (simp add: buf_at_def whole_page_def HOMA_BPAGE_SIZE_def)

lemma buf_at_partial:
  assumes "0 \<le> a" "a < HOMA_BPAGE_SIZE"
  shows "buf_at (a + int p * HOMA_BPAGE_SIZE) partial = (p, a, a + partial)"
  using assms by (simp add: buf_at_def HOMA_BPAGE_SIZE_def)

lemma msg_bufs_shape:
  assumes len: "mi_length m = int (length ps) * HOMA_BPAGE_SIZE + partial"
    and part: "0 \<le> partial" "partial < HOMA_BPAGE_SIZE"
    and off: "mi_bpage_offsets m = map (\<lambda>p. int p * HOMA_BPAGE_SIZE) ps @
      (if partial = 0 then [] else [a + int p * HOMA_BPAGE_SIZE])"
    and a: "0 \<le> a" "a + partial \<le> HOMA_BPAGE_SIZE"
  shows "msg_bufs m = map whole_page ps @ (if partial = 0 then [] else [(p, a, a + partial)])"
proof (rule nth_equalityI)
  show "length (msg_bufs m) =
    length (map whole_page ps @ (if partial = 0 then [] else [(p, a, a + partial)]))"
    by (simp add: msg_bufs_def off)
  fix i
  assume "i < length (msg_bufs m)"
  then have i: "i < length (mi_bpage_offsets m)" by (simp add: msg_bufs_def)
  have nth: "msg_bufs m ! i = buf_at (mi_bpage_offsets m ! i) (chunk_size m i)"
    using i by (simp add: msg_bufs_def)
  show "msg_bufs m ! i = (map whole_page ps @ (if partial = 0 then [] else [(p, a, a + partial)])) ! i"
  proof (cases "i < length ps")
    case True
    then have "(int i + 1) * HOMA_BPAGE_SIZE \<le> int (length ps) * HOMA_BPAGE_SIZE"
      by (intro mult_right_mono) (simp_all add: HOMA_BPAGE_SIZE_def)
    then have "chunk_size m i = HOMA_BPAGE_SIZE"
      using len part by (simp add: chunk_size_def algebra_simps)
    then show ?thesis using True by (simp add: nth off nth_append buf_at_page)
  next
    case False
    then have "partial \<noteq> 0" "i = length ps" using i by (auto simp: off split: if_splits)
    moreover have "chunk_size m (length ps) = partial"
      using len part by (simp add: chunk_size_def)
    ultimately show ?thesis
      using nth part a by (simp add: off nth_append buf_at_partial)
  qed
qed

lemma space_shape:
  assumes len: "mi_length m = int (length ps) * HOMA_BPAGE_SIZE + partial" "0 < mi_length m"
    and part: "0 \<le> partial" "partial < HOMA_BPAGE_SIZE"
    and off: "mi_bpage_offsets m = map (\<lambda>p. int p * HOMA_BPAGE_SIZE) ps @
      (if partial = 0 then [] else [a + int p * HOMA_BPAGE_SIZE])"
      "mi_num_bpages m = int (length (mi_bpage_offsets m))"
    and a: "0 \<le> a" "a + partial \<le> HOMA_BPAGE_SIZE"
    and new: "distinct ps" "partial \<noteq> 0 \<Longrightarrow> (p, a, a + partial) \<notin> whole_page ` set ps"
  shows "has_space pool m"
proof -
  note bufs = msg_bufs_shape [OF len(1) part off(1) a]
  have "distinct (map whole_page ps)"
    using new(1) by (simp add: distinct_map inj_on_def whole_page_def)
  then have "distinct (msg_bufs m)" using new(2) by (auto simp: bufs)
  moreover have "mi_num_bpages m = (mi_length m + HOMA_BPAGE_SIZE - 1) div HOMA_BPAGE_SIZE"
    using len part by (auto simp: off HOMA_BPAGE_SIZE_def)
  ultimately show ?thesis
    using off a part by (auto simp: has_space_def HOMA_BPAGE_SIZE_def split: if_splits)
qed

lemma stored_simps [simp]:
  "mi_length (stored m off) = mi_length m"
  "mi_num_bpages (stored m off) = mi_num_bpages m + 1"
  "mi_bpage_offsets (stored m off) = take (nat (mi_num_bpages m)) (mi_bpage_offsets m) @ [off]"
  by (simp_all add: stored_def)

text \<open>The part after the whole pages, for a message whose first pages are \<open>ps\<close>.\<close>

lemma allocate_rest:
  assumes inv: "pool_inv pool (whole_page ` set ps \<union> B)" and region: "pl_region pool \<noteq> 0"
    and core: "core < length (pl_cores pool)" and fuel: "get_pages_fuel pool 1 \<le> fuel"
    and len: "mi_length m = int (length ps) * HOMA_BPAGE_SIZE + partial" "0 < mi_length m"
    and part: "0 \<le> partial" "partial < HOMA_BPAGE_SIZE"
    and m: "mi_num_bpages m = int (length ps)"
      "take (length ps) (mi_bpage_offsets m) = map (\<lambda>p. int p * HOMA_BPAGE_SIZE) ps"
      "partial = 0 \<Longrightarrow> length (mi_bpage_offsets m) = length ps"
    and ps: "distinct ps" "whole_page ` set ps \<inter> B = {}" and small: "addressable pool" "partial \<noteq> 0 \<Longrightarrow> length ps < HOMA_MAX_BPAGES"
  shows "\<exists>pool' m' ok. (if partial = 0 then Some (pool, m, True)
      else allocate_partial fuel clk lease core partial pool m) = Some (pool', m', ok) \<and>
    mi_length m' = mi_length m \<and>
    (if ok then has_space pool' m' \<and> set (msg_bufs m') \<inter> B = {} \<and> pool_inv pool' (set (msg_bufs m') \<union> B)
     else pool_inv pool' B \<and> mi_num_bpages m' = 0 \<and> pl_free_bpages pool < 1 \<and> partial \<noteq> 0)"
proof (cases "partial = 0")
  case True
  then have off: "mi_bpage_offsets m = map (\<lambda>p. int p * HOMA_BPAGE_SIZE) ps @
      (if partial = 0 then [] else [0 + int 0 * HOMA_BPAGE_SIZE])" using m(2,3) by simp
  have "msg_bufs m = map whole_page ps"
    using msg_bufs_shape [OF len(1) part off] True by (simp add: HOMA_BPAGE_SIZE_def)
  moreover have "has_space pool m"
    using space_shape [OF len part off _ _ _ ps(1)] True m by (simp add: HOMA_BPAGE_SIZE_def)
  ultimately show ?thesis using True inv ps(2) by (intro exI [of _ pool] exI [of _ m] exI [of _ True]) simp
next
  case False
  then have pos: "0 < partial" using part by simp
  from inv region core pos part(2) fuel m(1,2) ps small(1) small(2) [OF False] show ?thesis
  proof (cases rule: allocate_partial_result [of pool ps B core partial fuel m clk lease])
    case (ok pool' p a)
    let ?m = "stored m (a + int p * HOMA_BPAGE_SIZE)"
    have off: "mi_bpage_offsets ?m = map (\<lambda>p. int p * HOMA_BPAGE_SIZE) ps @
      (if partial = 0 then [] else [a + int p * HOMA_BPAGE_SIZE])" using m False by simp
    have a: "a + partial \<le> HOMA_BPAGE_SIZE"
      using ok(2) by (auto simp: pool_inv_def bufs_ok_def buf_ok_def)
    have len': "mi_length ?m = int (length ps) * HOMA_BPAGE_SIZE + partial" "0 < mi_length ?m"
      using len by simp_all
    have "msg_bufs ?m = map whole_page ps @ [(p, a, a + partial)]"
      using msg_bufs_shape [OF len'(1) part off ok(4) a] False by simp
    moreover have "mi_num_bpages ?m = int (length (mi_bpage_offsets ?m))"
      using m(1) off False by simp
    then have "has_space pool' ?m"
      using space_shape [OF len' part off _ ok(4) a ps(1)] ok(3) by simp
    ultimately show ?thesis using ok False ps(2) by (auto simp: Un_insert_left)
  next
    case (none pool')
    then show ?thesis using False
      by (intro exI [of _ pool'] exI [of _ "m\<lparr>mi_num_bpages := 0\<rparr>"] exI [of _ False]) simp
  qed
qed

lemma claimed_fuel: "pages_claimed cl ps pool pool' \<Longrightarrow> get_pages_fuel pool' n = get_pages_fuel pool n"
  by (simp add: pages_claimed_def get_pages_fuel_def)

lemma fuel_mono: "n \<le> k \<Longrightarrow> get_pages_fuel pool k \<le> fuel \<Longrightarrow> get_pages_fuel pool n \<le> fuel"
  using mult_le_mono1 [of n k "2 * length (pl_descriptors pool) + 2"] by (simp add: get_pages_fuel_def)

lemma allocate_space_result:
  assumes inv: "pool_inv pool B" and region: "pl_region pool \<noteq> 0"
    and core: "core < length (pl_cores pool)" and len: "0 < mi_length m" "mi_length m \<le> HOMA_MAX_MESSAGE_LENGTH"
    and fuel: "get_pages_fuel pool HOMA_MAX_BPAGES \<le> fuel" and m: "mi_num_bpages m = 0" and small: "addressable pool"
  shows "\<exists>pool' m' ok. allocate_space fuel clk lease core pool m = Some (pool', m', ok) \<and>
    mi_length m' = mi_length m \<and>
    (if ok then has_space pool' m' \<and> set (msg_bufs m') \<inter> B = {} \<and> pool_inv pool' (set (msg_bufs m') \<union> B)
     else pool_inv pool' B \<and> mi_num_bpages m' = 0 \<and>
       pl_free_bpages pool < (mi_length m + HOMA_BPAGE_SIZE - 1) div HOMA_BPAGE_SIZE)"
proof -
  let ?full = "mi_length m div HOMA_BPAGE_SIZE" and ?part = "mi_length m mod HOMA_BPAGE_SIZE"
  let ?cl = "\<lparr>cl_core = core, cl_now = clk 0, cl_lease_usecs = lease, cl_set_owner = False\<rparr>"
  have full: "0 \<le> ?full" "nat ?full \<le> HOMA_MAX_BPAGES"
    using len by (simp_all add: HOMA_BPAGE_SIZE_def HOMA_MAX_BPAGES_def HOMA_MAX_MESSAGE_LENGTH_def)
  have part: "0 \<le> ?part" "?part < HOMA_BPAGE_SIZE" by (simp_all add: HOMA_BPAGE_SIZE_def)
  have need: "(mi_length m + HOMA_BPAGE_SIZE - 1) div HOMA_BPAGE_SIZE = ?full + (if ?part = 0 then 0 else 1)"
    by (rule ceil_div) (simp add: HOMA_BPAGE_SIZE_def)
  have counts: "counts_ok 0 pool" using inv by (simp add: pool_inv_def)
  have fuel1: "get_pages_fuel pool 1 \<le> fuel" and fuelf: "get_pages_fuel pool (nat ?full) \<le> fuel"
    using fuel full(2) by (auto intro: fuel_mono [rotated] simp: HOMA_MAX_BPAGES_def)
  show ?thesis
  proof (cases "?full = 0")
    case True
    then have "?part \<noteq> 0" using len(1) by (simp add: HOMA_BPAGE_SIZE_def)
    let ?m = "m\<lparr>mi_num_bpages := 0\<rparr>"
    have "mi_length ?m = int (length ([] :: nat list)) * HOMA_BPAGE_SIZE + ?part"
      using True by (simp add: HOMA_BPAGE_SIZE_def)
    with allocate_rest [of pool "[]" B core fuel ?m ?part clk lease] inv region core fuel1 part len(1) small \<open>?part \<noteq> 0\<close>
      HOMA_MAX_BPAGES_def
    obtain pool' m' ok where "allocate_partial fuel clk lease core ?part pool ?m = Some (pool', m', ok)"
      "mi_length m' = mi_length m"
      "if ok then has_space pool' m' \<and> set (msg_bufs m') \<inter> B = {} \<and> pool_inv pool' (set (msg_bufs m') \<union> B)
       else pool_inv pool' B \<and> mi_num_bpages m' = 0 \<and> pl_free_bpages pool < 1" by auto
    then show ?thesis using True need \<open>?part \<noteq> 0\<close>
      by (intro exI [of _ pool'] exI [of _ m'] exI [of _ ok]) (simp add: allocate_space_def)
  next
    case False
    note get = get_pages_result [OF counts, of ?cl ?full HOMA_MAX_BPAGES fuel]
    show ?thesis
    proof (cases "pl_free_bpages pool < ?full")
      case True
      then have "homa_pool_get_pages fuel ?cl HOMA_MAX_BPAGES pool ?full = Some (pool, None)"
        using get core full fuelf by simp
      then show ?thesis using False True inv m need
        by (intro exI [of _ pool] exI [of _ m] exI [of _ False]) (simp add: allocate_space_def)
    next
      case free: False
      then obtain pool1 ps where g: "homa_pool_get_pages fuel ?cl HOMA_MAX_BPAGES pool ?full = Some (pool1, Some ps)"
        "int (length ps) = ?full" "counts_ok 0 pool1" "pages_claimed ?cl ps pool pool1"
        "pl_free_bpages pool - ?full \<le> pl_free_bpages pool1"
        using get core full fuelf by auto
      let ?m = "m\<lparr>mi_bpage_offsets := map (\<lambda>p. int p * HOMA_BPAGE_SIZE) ps, mi_num_bpages := ?full\<rparr>"
      have cl: "pool_inv pool1 (whole_page ` set ps \<union> B)" "whole_page ` set ps \<inter> B = {}"
        using claim_whole_pages [OF inv g(4) _ g(3)] by simp_all
      have side: "pl_region pool1 \<noteq> 0" "core < length (pl_cores pool1)" "get_pages_fuel pool1 1 \<le> fuel" "distinct ps"
        using region core fuel1 claimed_cores(1) [OF g(4)] g(4) claimed_fuel [OF g(4)]
        by (simp_all add: pages_claimed_def)
      have small1: "addressable pool1" "?part \<noteq> 0 \<Longrightarrow> length ps < HOMA_MAX_BPAGES"
        using small g(2,4) len by (simp_all add: addressable_def pages_claimed_def HOMA_MAX_BPAGES_def HOMA_MAX_MESSAGE_LENGTH_def
            HOMA_BPAGE_SIZE_def)
      have "wrap_u32 (int p * HOMA_BPAGE_SIZE) = int p * HOMA_BPAGE_SIZE" if "p \<in> set ps" for p
        using offset_fits [OF small, of p 0] that g(4) by (simp add: pages_claimed_def HOMA_BPAGE_SIZE_def)
      then have offs: "map (\<lambda>p. wrap_u32 (int p * HOMA_BPAGE_SIZE)) ps = map (\<lambda>p. int p * HOMA_BPAGE_SIZE) ps" by simp
      have "mi_length ?m = int (length ps) * HOMA_BPAGE_SIZE + ?part" by (simp add: g(2))
      then have "\<exists>pool' m' ok. (if ?part = 0 then Some (pool1, ?m, True)
          else allocate_partial fuel clk lease core ?part pool1 ?m) = Some (pool', m', ok) \<and> mi_length m' = mi_length ?m \<and>
        (if ok then has_space pool' m' \<and> set (msg_bufs m') \<inter> B = {} \<and> pool_inv pool' (set (msg_bufs m') \<union> B)
         else pool_inv pool' B \<and> mi_num_bpages m' = 0 \<and> pl_free_bpages pool1 < 1 \<and> ?part \<noteq> 0)"
        by (rule allocate_rest [OF cl(1) side(1-3)]) (use cl part len(1) g(2) side(4) small1 in simp_all)
      then obtain pool' m' ok where
        "(if ?part = 0 then Some (pool1, ?m, True)
          else allocate_partial fuel clk lease core ?part pool1 ?m) = Some (pool', m', ok)"
        "mi_length m' = mi_length ?m"
        "if ok then has_space pool' m' \<and> set (msg_bufs m') \<inter> B = {} \<and> pool_inv pool' (set (msg_bufs m') \<union> B)
         else pool_inv pool' B \<and> mi_num_bpages m' = 0 \<and> pl_free_bpages pool1 < 1 \<and> ?part \<noteq> 0"
        by blast
      then show ?thesis using False g(1,5) need
        by (intro exI [of _ pool'] exI [of _ m'] exI [of _ ok]) (auto simp: allocate_space_def Let_def offs cong: if_cong)
    qed
  qed
qed

section \<open>Initialisation\<close>

lemma zero_refs_fresh: "zero_refs (replicate n \<lparr>bp_refs = 0, bp_owner = -1, bp_expiration = 0\<rparr>) = int n"
  by (induction n) simp_all

lemma homa_pool_init_inv:
  assumes "homa_pool_init mem1 mem2 cpus pool0 region region_size = (pool, Inr ())"
  shows "pool_inv pool {}" and "length (pl_cores pool) = cpus"
    and "length (pl_descriptors pool) = nat (wrap_s32 (int (region_size div 65536)))"
    and "pl_free_bpages pool = pl_num_bpages pool" "pl_region pool = region"
proof -
  let ?n = "wrap_s32 (int (region_size div 65536))"
  have pool: "2 \<le> ?n" "pl_num_bpages pool = ?n" "pl_free_bpages pool = ?n" "pl_region pool = region"
    "pl_descriptors pool = replicate (nat ?n) \<lparr>bp_refs = 0, bp_owner = -1, bp_expiration = 0\<rparr>"
    "pl_cores pool = replicate cpus \<lparr>pc_page_hint = 0, pc_allocated = 0, pc_next_candidate = 0\<rparr>"
    using assms
    by (auto simp: homa_pool_init_def Let_def HOMA_BPAGE_SIZE_def MIN_POOL_SIZE_def split: if_splits)
  show "length (pl_cores pool) = cpus" "length (pl_descriptors pool) = nat ?n"
    "pl_free_bpages pool = pl_num_bpages pool" "pl_region pool = region"
    by (simp_all add: pool(2-6))
  have "counts_ok 0 pool"
    using pool(1) by (simp add: counts_ok_def pool(2-6) zero_refs_fresh list_all_iff bpage_ok_def)
  moreover have "bufs_ok (length (pl_descriptors pool)) {}" by (simp add: bufs_ok_def)
  moreover have "refs_ok pool {}" by (simp add: refs_ok_def pool(5) uses_def)
  moreover have "cores_ok pool {}"
    using pool(1) by (auto simp: cores_ok_def owned_by_def pool(5,6) HOMA_BPAGE_SIZE_def)
  ultimately show "pool_inv pool {}" by (simp add: pool_inv_def)
qed

section \<open>Addresses\<close>

text \<open>The bytes of the application's memory that a buffer stands for.\<close>

definition buf_addrs :: "nat \<Rightarrow> buf \<Rightarrow> int set" where
  "buf_addrs region b =
     {int region + int (fst b) * HOMA_BPAGE_SIZE + fst (snd b) ..<
      int region + int (fst b) * HOMA_BPAGE_SIZE + snd (snd b)}"

lemma buf_addrs_disjoint:
  assumes "buf_ok n b" "buf_ok n c" "buf_disjoint b c"
  shows "buf_addrs region b \<inter> buf_addrs region c = {}"
proof (cases "fst b = fst c")
  case True
  then show ?thesis using assms by (auto simp: buf_disjoint_def buf_addrs_def)
next
  case False
  then have "(int (fst b) + 1) * HOMA_BPAGE_SIZE \<le> int (fst c) * HOMA_BPAGE_SIZE \<or>
    (int (fst c) + 1) * HOMA_BPAGE_SIZE \<le> int (fst b) * HOMA_BPAGE_SIZE"
    by (cases "fst b < fst c") (simp_all add: HOMA_BPAGE_SIZE_def)
  then show ?thesis
    using assms(1,2) by (auto simp: buf_ok_def buf_addrs_def algebra_simps)
qed

lemma get_buffer_addr:
  assumes space: "has_space pool m" and off: "0 \<le> off" "off < mi_length m"
  defines "i \<equiv> nat (off div HOMA_BPAGE_SIZE)"
  obtains addr avail where "homa_pool_get_buffer region m off = Some (addr, avail)" "0 < avail"
    "i < length (msg_bufs m)" "{addr ..< addr + avail} \<subseteq> buf_addrs region (msg_bufs m ! i)"
    "addr = int region + mi_bpage_offsets m ! i + off mod HOMA_BPAGE_SIZE"
    "off + avail \<le> mi_length m" "off mod HOMA_BPAGE_SIZE + avail \<le> chunk_size m i"
proof -
  let ?S = HOMA_BPAGE_SIZE
  have S: "0 < ?S" by (simp add: HOMA_BPAGE_SIZE_def)
  have num: "mi_num_bpages m = mi_length m div ?S + (if mi_length m mod ?S = 0 then 0 else 1)"
    "mi_num_bpages m = int (length (mi_bpage_offsets m))"
    using space ceil_div [OF S] by (simp_all add: has_space_def)
  have i: "int i = off div ?S" using off(1) S by (simp add: i_def pos_imp_zdiv_nonneg_iff)
  have split: "off = int i * ?S + off mod ?S" using i by simp
  have m: "0 \<le> off mod ?S" "off mod ?S < ?S" using S by simp_all
  have len: "mi_length m = mi_length m div ?S * ?S + mi_length m mod ?S" by simp
  have cover: "mi_length m \<le> mi_num_bpages m * ?S"
  proof (cases "mi_length m mod ?S = 0")
    case True
    then show ?thesis using len num(1) by simp
  next
    case False
    then have "mi_num_bpages m * ?S = mi_length m div ?S * ?S + ?S" using num(1) by (simp add: distrib_right)
    then show ?thesis using len pos_mod_bound [OF S, of "mi_length m"] by linarith
  qed
  have lt: "int i < mi_num_bpages m"
  proof (rule ccontr)
    assume "\<not> int i < mi_num_bpages m"
    then have "mi_num_bpages m * ?S \<le> int i * ?S" using S by (intro mult_right_mono) simp_all
    then show False using split off(2) m cover by linarith
  qed
  define avail where "avail = (if int i < mi_num_bpages m - 1 then ?S - off mod ?S else mi_length m - off)"
  define addr where "addr = int region + mi_bpage_offsets m ! i + off mod ?S"
  have res: "homa_pool_get_buffer region m off = Some (addr, avail)"
    using lt i off(1) S by (simp add: homa_pool_get_buffer_def avail_def addr_def i_def Let_def pos_imp_zdiv_neg_iff)
  have chunk: "off mod ?S + avail \<le> chunk_size m i" "0 < avail" "off + avail \<le> mi_length m"
  proof -
    have "(int i + 1) * ?S \<le> mi_length m" if "int i < mi_num_bpages m - 1"
    proof -
      have "int i + 1 \<le> mi_length m div ?S" using that num(1) by (auto split: if_splits)
      then have "(int i + 1) * ?S \<le> mi_length m div ?S * ?S" using S by (intro mult_right_mono) simp_all
      then show ?thesis using len pos_mod_sign [OF S, of "mi_length m"] by linarith
    qed
    moreover have "mi_length m \<le> (int i + 1) * ?S" if "\<not> int i < mi_num_bpages m - 1"
    proof -
      have "mi_num_bpages m = int i + 1" using that lt by simp
      then show ?thesis using cover by simp
    qed
    ultimately show "off mod ?S + avail \<le> chunk_size m i" "0 < avail" "off + avail \<le> mi_length m"
      using split off m by (auto simp: avail_def chunk_size_def algebra_simps)
  qed
  have il: "i < length (mi_bpage_offsets m)" using lt num(2) by simp
  then have nn: "0 \<le> mi_bpage_offsets m ! i" using space by (simp add: has_space_def)
  have "msg_bufs m ! i = buf_at (mi_bpage_offsets m ! i) (chunk_size m i)" using il by (simp add: msg_bufs_def)
  moreover have "int (nat (mi_bpage_offsets m ! i div ?S)) * ?S + mi_bpage_offsets m ! i mod ?S = mi_bpage_offsets m ! i"
    using nn S by (simp add: pos_imp_zdiv_nonneg_iff)
  ultimately have "{addr ..< addr + avail} \<subseteq> buf_addrs region (msg_bufs m ! i)"
    using chunk(1) m by (auto simp: buf_addrs_def buf_at_def addr_def)
  with that res chunk il show thesis by (simp add: msg_bufs_def addr_def)
qed

lemma buf_addrs_in_region:
  assumes "buf_ok n b"
  shows "buf_addrs region b \<subseteq> {int region ..< int region + int n * HOMA_BPAGE_SIZE}"
proof -
  have "(int (fst b) + 1) * HOMA_BPAGE_SIZE \<le> int n * HOMA_BPAGE_SIZE"
    using assms by (intro mult_right_mono) (simp_all add: buf_ok_def HOMA_BPAGE_SIZE_def)
  moreover have "0 \<le> int (fst b) * HOMA_BPAGE_SIZE" by (simp add: HOMA_BPAGE_SIZE_def)
  ultimately show ?thesis using assms by (auto simp: buf_addrs_def buf_ok_def algebra_simps)
qed

lemma nth_msg_buf: "i < length (msg_bufs m) \<Longrightarrow> msg_bufs m ! i \<in> set (msg_bufs m)"
  by simp

text \<open>No allocation changes the region, the number of pages and cores or \<open>bpages_needed\<close>.\<close>

abbreviation pool_shape :: "homa_pool \<Rightarrow> nat \<times> nat \<times> nat \<times> int" where
  "pool_shape pool \<equiv>
     (pl_region pool, length (pl_descriptors pool), length (pl_cores pool), pl_bpages_needed pool)"

lemma get_pages_loop_shape:
  "get_pages_loop fuel cl cap n pool limit pages = Some (pool', pages') \<Longrightarrow> pool_shape pool' = pool_shape pool"
proof (induction fuel arbitrary: pool limit pages)
  case 0
  then show ?case by (simp add: get_pages_loop.simps)
next
  case (Suc fuel)
  from Suc.prems show ?case
    by (auto simp: get_pages_loop.simps Let_def dest!: Suc.IH split: if_splits)
qed

lemma get_pages_shape:
  "homa_pool_get_pages fuel cl cap pool n = Some (pool', r) \<Longrightarrow> pool_shape pool' = pool_shape pool"
  by (auto simp: homa_pool_get_pages_def dest: get_pages_loop_shape split: if_splits)

lemma release_loop_shape: "pool_shape (fst (release_loop pool offs bad)) = pool_shape pool"
  by (induction offs arbitrary: pool bad) (simp_all add: Let_def release_bpage_def)

lemma use_own_page_shape:
  "use_own_page core now lease partial pool = (pool', own) \<Longrightarrow> pool_shape pool' = pool_shape pool"
  by (auto simp: use_own_page_def Let_def split: if_splits)

lemma allocate_partial_shape:
  assumes "allocate_partial fuel clk lease core partial pool m = Some (pool', m', ok)"
  shows "pool_shape pool' = pool_shape pool"
proof -
  obtain pool1 own where use: "use_own_page core (clk 1) lease partial pool = (pool1, own)" by fastforce
  note r = use_own_page_shape [OF use]
  show ?thesis
    using assms use r
    by (auto simp: allocate_partial_def cut_partial_def homa_pool_release_buffers_def Let_def
        release_loop_shape [unfolded prod.inject] split_beta dest!: get_pages_shape split: bool.splits option.splits if_splits)
qed

lemma allocate_space_shape:
  "allocate_space fuel clk lease core pool m = Some (pool', m', ok) \<Longrightarrow> pool_shape pool' = pool_shape pool"
  by (auto simp: allocate_space_def Let_def
      dest!: get_pages_shape allocate_partial_shape split: if_splits option.splits)

section \<open>Properties\<close>

definition example_pool :: homa_pool where
  "example_pool = fst (homa_pool_init True True 2 \<lparr>pl_region = 0, pl_num_bpages = 0, pl_descriptors = [],
     pl_free_bpages = 0, pl_bpages_needed = 0, pl_cores = []\<rparr> 4096 1310720)"

lemma example_pool_init:
  "homa_pool_init True True 2 \<lparr>pl_region = 0, pl_num_bpages = 0, pl_descriptors = [],
     pl_free_bpages = 0, pl_bpages_needed = 0, pl_cores = []\<rparr> 4096 1310720 = (example_pool, Inr ())"
  by (simp add: example_pool_def homa_pool_init_def homa_pool_destroy_def Let_def PAGE_SIZE_def
      HOMA_BPAGE_SIZE_def MIN_POOL_SIZE_def wrap_s32_def)

lemma example_pool_facts:
  "pool_inv example_pool {}" "length (pl_cores example_pool) = 2"
  "length (pl_descriptors example_pool) = 20" "pl_free_bpages example_pool = 20"
  "pl_region example_pool = 4096" "addressable example_pool"
proof -
  note init = homa_pool_init_inv [OF example_pool_init]
  show "pool_inv example_pool {}" "length (pl_cores example_pool) = 2" "pl_region example_pool = 4096"
    using init by simp_all
  show len: "length (pl_descriptors example_pool) = 20" using init(3) by (simp add: wrap_s32_def)
  then show "addressable example_pool" by (simp add: addressable_def)
  show "pl_free_bpages example_pool = 20"
    using init(1,4) len by (simp add: pool_inv_def counts_ok_def)
qed

text \<open>
  C7: \<open>homa_pool_get_pages\<close> always ends and is exact.  On a pool whose counts are
  right it fails (leaving the pool as it was) exactly when fewer pages are free
  than asked for.  Otherwise the search finds that many different pages, none of
  them in use, marks them, and the free count is right again afterwards.
\<close>

theorem homa_pool_get_pages_finds:
  assumes "counts_ok 0 pool" and "cl_core cl < length (pl_cores pool)"
    and "0 \<le> n" and "nat n \<le> cap" and "get_pages_fuel pool (nat n) \<le> fuel"
  shows "if pl_free_bpages pool < n then homa_pool_get_pages fuel cl cap pool n = Some (pool, None)
    else \<exists>pool' ps. homa_pool_get_pages fuel cl cap pool n = Some (pool', Some ps) \<and>
      int (length ps) = n \<and> counts_ok 0 pool' \<and> pages_claimed cl ps pool pool'"
  using get_pages_result [OF assms] by (auto split: if_splits)

lemma homa_pool_get_pages_finds_witness:
  "\<exists>pool' ps. homa_pool_get_pages 1000 \<lparr>cl_core = 1, cl_now = 5, cl_lease_usecs = 10, cl_set_owner = False\<rparr>
     16 example_pool 3 = Some (pool', Some ps) \<and> length ps = 3 \<and> counts_ok 0 pool'"
  using homa_pool_get_pages_finds [of example_pool
      "\<lparr>cl_core = 1, cl_now = 5, cl_lease_usecs = 10, cl_set_owner = False\<rparr>" 3 16 1000]
    example_pool_facts by (auto simp: pool_inv_def get_pages_fuel_def)

text \<open>
  C4: Space for a message.  On a pool that satisfies its invariant and is no larger than 4 GB (the offsets of
  buffers are kept in 32 bits), and for every legal message length, \<open>homa_pool_allocate\<close> ends; either the message gets a
  bpage offset for every chunk, its buffers overlap neither each other nor the
  buffers of any other message, and the invariant holds with them in use; or
  nothing is allocated, the invariant is kept, and fewer pages were free than
  \<open>bpages_needed\<close> asks for.
\<close>

theorem homa_pool_allocate_correct:
  assumes "pool_inv pool B" and "pl_region pool \<noteq> 0" and "core < length (pl_cores pool)"
    and "0 < mi_length m" and "mi_length m \<le> HOMA_MAX_MESSAGE_LENGTH" and "mi_num_bpages m = 0"
    and "get_pages_fuel pool HOMA_MAX_BPAGES \<le> fuel" and "addressable pool"
  shows "\<exists>pool' m' ok. allocate_space fuel clk lease core pool m = Some (pool', m', ok) \<and>
    mi_length m' = mi_length m \<and>
    (if ok then has_space pool' m' \<and> set (msg_bufs m') \<inter> B = {} \<and> pool_inv pool' (set (msg_bufs m') \<union> B)
     else pool_inv pool' B \<and> mi_num_bpages m' = 0 \<and>
       pl_free_bpages pool < (mi_length m + HOMA_BPAGE_SIZE - 1) div HOMA_BPAGE_SIZE)"
  using allocate_space_result [OF assms(1-5,7,6,8)] .

lemma homa_pool_allocate_correct_witness:
  "\<exists>pool' m'. allocate_space 1000 (\<lambda>i. i) 10 0 example_pool
      (message_in_fields example_msgin 100000 100000) = Some (pool', m', True) \<and>
    has_space pool' m' \<and> pool_inv pool' (set (msg_bufs m'))"
  using homa_pool_allocate_correct [of example_pool "{}" 0 "message_in_fields example_msgin 100000 100000" 1000
      "\<lambda>i. i" 10]
  by (auto simp: example_pool_facts message_in_fields_def get_pages_fuel_def HOMA_MAX_BPAGES_def
      HOMA_MAX_MESSAGE_LENGTH_def HOMA_BPAGE_SIZE_def split: if_splits)

text \<open>
  C21: Releasing returns exactly what was allocated.  When the buffers of a message
  are handed back, the call succeeds and the pool satisfies its invariant with
  the remaining buffers in use.
\<close>

theorem homa_pool_release_correct:
  assumes "pool_inv pool (set (msg_bufs m) \<union> B)" and "set (msg_bufs m) \<inter> B = {}"
    and "has_space pool m" and "pl_region pool \<noteq> 0"
  shows "\<exists>pool'. homa_pool_release_buffers pool (mi_bpage_offsets m) = (pool', Inr ()) \<and> pool_inv pool' B"
proof -
  have "map (\<lambda>off. nat (off div HOMA_BPAGE_SIZE)) (mi_bpage_offsets m) = map fst (msg_bufs m)"
    by (rule nth_equalityI) (simp_all add: msg_bufs_def buf_at_def)
  with release_loop_inv [OF assms(1) _ assms(2), of "mi_bpage_offsets m" False] assms(3,4)
  show ?thesis by (auto simp: homa_pool_release_buffers_def has_space_def)
qed

lemma homa_pool_release_correct_witness:
  "\<exists>pool' m' pool''. allocate_space 1000 (\<lambda>i. i) 10 0 example_pool
      (message_in_fields example_msgin 100000 100000) = Some (pool', m', True) \<and>
    homa_pool_release_buffers pool' (mi_bpage_offsets m') = (pool'', Inr ()) \<and> pool_inv pool'' {}"
proof -
  obtain pool' m' where a: "allocate_space 1000 (\<lambda>i. i) 10 0 example_pool
      (message_in_fields example_msgin 100000 100000) = Some (pool', m', True)"
    "has_space pool' m'" "pool_inv pool' (set (msg_bufs m') \<union> {})"
    using allocate_space_result [of example_pool "{}" 0 "message_in_fields example_msgin 100000 100000" 1000
        "\<lambda>i. i" 10]
    by (auto simp: example_pool_facts message_in_fields_def get_pages_fuel_def HOMA_MAX_BPAGES_def
        HOMA_MAX_MESSAGE_LENGTH_def HOMA_BPAGE_SIZE_def split: if_splits)
  have "pl_region pool' \<noteq> 0"
    using allocate_space_shape [OF a(1)] by (simp add: example_pool_facts)
  from homa_pool_release_correct [OF a(3) _ a(2) this] a(1) show ?thesis by auto
qed

lemma get_buffer_maps:
  assumes "pool_inv pool (set (msg_bufs m) \<union> B)" and "has_space pool m"
    and "0 \<le> off" and "off < mi_length m" and "0 \<le> off'" and "off' < mi_length m"
  shows "\<exists>addr avail addr' avail'.
    homa_pool_get_buffer (pl_region pool) m off = Some (addr, avail) \<and> 0 < avail \<and>
    homa_pool_get_buffer (pl_region pool) m off' = Some (addr', avail') \<and>
    int (pl_region pool) \<le> addr \<and>
    addr + avail \<le> int (pl_region pool) + pl_num_bpages pool * HOMA_BPAGE_SIZE \<and>
    (off \<le> off' \<and> off' < off + avail \<longrightarrow> addr' = addr + (off' - off)) \<and>
    (off \<noteq> off' \<longrightarrow> addr \<noteq> addr')"
proof -
  let ?r = "pl_region pool" and ?S = HOMA_BPAGE_SIZE and ?n = "length (pl_descriptors pool)"
  let ?i = "nat (off div ?S)" and ?j = "nat (off' div ?S)"
  have S: "0 < ?S" by (simp add: HOMA_BPAGE_SIZE_def)
  obtain addr avail where g: "homa_pool_get_buffer ?r m off = Some (addr, avail)" "0 < avail"
    "?i < length (msg_bufs m)" "{addr ..< addr + avail} \<subseteq> buf_addrs ?r (msg_bufs m ! ?i)"
    "addr = int ?r + mi_bpage_offsets m ! ?i + off mod ?S" "off mod ?S + avail \<le> chunk_size m ?i"
    using get_buffer_addr [OF assms(2-4), of ?r] by metis
  obtain addr' avail' where g': "homa_pool_get_buffer ?r m off' = Some (addr', avail')" "0 < avail'"
    "?j < length (msg_bufs m)" "{addr' ..< addr' + avail'} \<subseteq> buf_addrs ?r (msg_bufs m ! ?j)"
    "addr' = int ?r + mi_bpage_offsets m ! ?j + off' mod ?S"
    using get_buffer_addr [OF assms(2,5,6), of ?r] by metis
  have bufs: "bufs_ok ?n (set (msg_bufs m) \<union> B)" "pl_num_bpages pool = int ?n"
    using assms(1) by (simp_all add: pool_inv_def counts_ok_def)
  have ok: "buf_ok ?n (msg_bufs m ! k)" if "k < length (msg_bufs m)" for k
    using bufs(1) that by (auto simp: bufs_ok_def)
  have "buf_addrs ?r (msg_bufs m ! ?i) \<subseteq> {int ?r ..< int ?r + int ?n * ?S}"
    by (rule buf_addrs_in_region [OF ok [OF g(3)]])
  moreover have "addr \<in> {addr ..< addr + avail}" "addr + avail - 1 \<in> {addr ..< addr + avail}"
    using g(2) by simp_all
  ultimately have "addr \<in> {int ?r ..< int ?r + int ?n * ?S}" "addr + avail - 1 \<in> {int ?r ..< int ?r + int ?n * ?S}"
    using g(4) by blast+
  then have region: "int ?r \<le> addr \<and> addr + avail \<le> int ?r + pl_num_bpages pool * ?S"
    using bufs(2) by simp
  have "addr' = addr + (off' - off)" if "off \<le> off'" "off' < off + avail"
  proof -
    let ?y = "off mod ?S + (off' - off)"
    have "off' = ?y + off div ?S * ?S" by simp
    moreover have "?y < ?S" "0 \<le> ?y"
      using that g(6) S by (auto simp: chunk_size_def)
    ultimately have "off' div ?S = off div ?S" "off' mod ?S = ?y"
      using S by (metis div_mult_self1 add.right_neutral div_pos_pos_trivial less_irrefl,
          metis mod_mult_self1 mod_pos_pos_trivial)
    then show ?thesis using g(5) g'(5) by simp
  qed
  moreover have "addr \<noteq> addr'" if "off \<noteq> off'"
  proof (cases "?i = ?j")
    case True
    then have "off div ?S = off' div ?S"
      using assms(3,5) S by (simp add: eq_nat_nat_iff pos_imp_zdiv_nonneg_iff)
    then have "off mod ?S \<noteq> off' mod ?S" using that by (metis div_mult_mod_eq)
    then show ?thesis using True g(5) g'(5) by simp
  next
    case False
    have "msg_bufs m ! ?i \<noteq> msg_bufs m ! ?j"
      using False g(3) g'(3) assms(2) by (simp add: has_space_def nth_eq_iff_index_eq)
    then have "buf_disjoint (msg_bufs m ! ?i) (msg_bufs m ! ?j)"
      using bufs(1) g(3) g'(3) by (simp add: bufs_ok_def)
    then have "buf_addrs ?r (msg_bufs m ! ?i) \<inter> buf_addrs ?r (msg_bufs m ! ?j) = {}"
      using buf_addrs_disjoint [OF ok ok] g(3) g'(3) by blast
    then show ?thesis using g(2,4) g'(2,4) by fastforce
  qed
  ultimately show ?thesis using g g' region by blast
qed

text \<open>
  C23: Where a byte of a message goes.  For every offset inside a message that has
  space, \<open>homa_pool_get_buffer\<close> gives an address inside the pool's region with a
  positive number of bytes available there; the following bytes of the message
  go to the following addresses, and different offsets get different addresses.
\<close>

theorem homa_pool_get_buffer_maps:
  assumes "pool_inv pool (set (msg_bufs m) \<union> B)" and "has_space pool m"
    and "0 \<le> off" and "off < mi_length m" and "0 \<le> off'" and "off' < mi_length m"
  shows "\<exists>addr avail addr' avail'.
    homa_pool_get_buffer (pl_region pool) m off = Some (addr, avail) \<and> 0 < avail \<and>
    homa_pool_get_buffer (pl_region pool) m off' = Some (addr', avail') \<and>
    int (pl_region pool) \<le> addr \<and>
    addr + avail \<le> int (pl_region pool) + pl_num_bpages pool * HOMA_BPAGE_SIZE \<and>
    (off \<le> off' \<and> off' < off + avail \<longrightarrow> addr' = addr + (off' - off)) \<and>
    (off \<noteq> off' \<longrightarrow> addr \<noteq> addr')"
  using assms by (rule get_buffer_maps)

definition example_message :: "int \<Rightarrow> homa_message_in" where
  "example_message len = message_in_fields example_msgin len len"

lemma example_allocated:
  obtains pool' m' where
    "allocate_space 1000 (\<lambda>i. i) 10 0 example_pool (example_message 100000) = Some (pool', m', True)"
    "has_space pool' m'" "pool_inv pool' (set (msg_bufs m') \<union> {})" "mi_length m' = 100000"
  using allocate_space_result [of example_pool "{}" 0 "example_message 100000" 1000 "\<lambda>i. i" 10]
  by (auto simp: example_pool_facts example_message_def message_in_fields_def get_pages_fuel_def
      HOMA_MAX_BPAGES_def HOMA_MAX_MESSAGE_LENGTH_def HOMA_BPAGE_SIZE_def split: if_splits)

lemma homa_pool_get_buffer_maps_witness:
  "\<exists>pool' m' addr avail. allocate_space 1000 (\<lambda>i. i) 10 0 example_pool (example_message 100000) =
      Some (pool', m', True) \<and>
    homa_pool_get_buffer (pl_region pool') m' 70000 = Some (addr, avail) \<and> 0 < avail"
proof -
  obtain pool' m' where a: "allocate_space 1000 (\<lambda>i. i) 10 0 example_pool (example_message 100000) =
      Some (pool', m', True)" "has_space pool' m'" "pool_inv pool' (set (msg_bufs m') \<union> {})"
    "mi_length m' = 100000" by (rule example_allocated)
  from homa_pool_get_buffer_maps [OF a(3,2), of 70000 5] a(1,4) show ?thesis by auto
qed

text \<open>
  C13: Messages are isolated from each other.  The memory that
  \<open>homa_pool_get_buffer\<close> names for any offset of one message and the memory it
  names for any offset of another message that has space never overlap.
\<close>

theorem homa_pool_messages_isolated:
  assumes "pool_inv pool (set (msg_bufs m1) \<union> set (msg_bufs m2) \<union> B)"
    and "set (msg_bufs m1) \<inter> set (msg_bufs m2) = {}"
    and "has_space pool m1" and "0 \<le> off1" and "off1 < mi_length m1"
    and "has_space pool m2" and "0 \<le> off2" and "off2 < mi_length m2"
  shows "\<exists>a1 n1 a2 n2. homa_pool_get_buffer region m1 off1 = Some (a1, n1) \<and>
    homa_pool_get_buffer region m2 off2 = Some (a2, n2) \<and> 0 < n1 \<and> 0 < n2 \<and>
    {a1 ..< a1 + n1} \<inter> {a2 ..< a2 + n2} = {}"
proof -
  let ?i = "nat (off1 div HOMA_BPAGE_SIZE)" and ?j = "nat (off2 div HOMA_BPAGE_SIZE)"
  obtain a1 n1 where g: "homa_pool_get_buffer region m1 off1 = Some (a1, n1)" "0 < n1"
    "?i < length (msg_bufs m1)" "{a1 ..< a1 + n1} \<subseteq> buf_addrs region (msg_bufs m1 ! ?i)"
    using get_buffer_addr [OF assms(3-5), of region] by metis
  obtain a2 n2 where g': "homa_pool_get_buffer region m2 off2 = Some (a2, n2)" "0 < n2"
    "?j < length (msg_bufs m2)" "{a2 ..< a2 + n2} \<subseteq> buf_addrs region (msg_bufs m2 ! ?j)"
    using get_buffer_addr [OF assms(6-8), of region] by metis
  let ?b = "msg_bufs m1 ! ?i" and ?c = "msg_bufs m2 ! ?j"
  have mem: "?b \<in> set (msg_bufs m1)" "?c \<in> set (msg_bufs m2)" using g(3) g'(3) by simp_all
  then have "?b \<noteq> ?c" using assms(2) by fastforce
  moreover have bufs: "bufs_ok (length (pl_descriptors pool)) (set (msg_bufs m1) \<union> set (msg_bufs m2) \<union> B)"
    using assms(1) by (simp add: pool_inv_def)
  ultimately have "buf_disjoint ?b ?c" "buf_ok (length (pl_descriptors pool)) ?b"
    "buf_ok (length (pl_descriptors pool)) ?c"
    using mem unfolding bufs_ok_def by blast+
  then have "buf_addrs region ?b \<inter> buf_addrs region ?c = {}" by (intro buf_addrs_disjoint)
  then have "{a1 ..< a1 + n1} \<inter> {a2 ..< a2 + n2} = {}" using g(4) g'(4) by blast
  then show ?thesis using g g' by blast
qed

definition shared_pool :: homa_pool where
  "shared_pool = \<lparr>pl_region = 4096, pl_num_bpages = 3,
    pl_descriptors = [\<lparr>bp_refs = 1, bp_owner = -1, bp_expiration = 0\<rparr>,
      \<lparr>bp_refs = 3, bp_owner = 0, bp_expiration = 9\<rparr>, \<lparr>bp_refs = 0, bp_owner = -1, bp_expiration = 0\<rparr>],
    pl_free_bpages = 1, pl_bpages_needed = 0,
    pl_cores = [\<lparr>pc_page_hint = 1, pc_allocated = 34534, pc_next_candidate = 2\<rparr>]\<rparr>"

definition placed_message :: "int \<Rightarrow> int list \<Rightarrow> homa_message_in" where
  "placed_message len offs = (example_message len)\<lparr>mi_num_bpages := int (length offs), mi_bpage_offsets := offs\<rparr>"

lemma placed_message_simps [simp]:
  "mi_length (placed_message len offs) = len" "mi_num_bpages (placed_message len offs) = int (length offs)"
  "mi_bpage_offsets (placed_message len offs) = offs"
  by (simp_all add: placed_message_def example_message_def message_in_fields_def)

lemma placed_bufs:
  "msg_bufs (placed_message 100000 [0, 65536]) = [(0, 0, 65536), (1, 0, 34464)]"
  "msg_bufs (placed_message 70 [100000]) = [(1, 34464, 34534)]"
  by (simp_all add: msg_bufs_def chunk_size_def buf_at_def HOMA_BPAGE_SIZE_def)

lemma shared_pool_inv:
  "pool_inv shared_pool {(0, 0, 65536), (1, 0, 34464), (1, 34464, 34534)}" (is "pool_inv _ ?B")
proof -
  have n: "length (pl_descriptors shared_pool) = 3" by (simp add: shared_pool_def)
  have u: "uses ?B 0 = 1" "uses ?B 1 = 2" "uses ?B 2 = 0"
    by (simp_all add: uses_insert uses_fresh)
  have three: "p < 3 \<longleftrightarrow> p = 0 \<or> p = 1 \<or> p = (2 :: nat)" for p by auto
  have "bufs_ok 3 ?B" by (auto simp: bufs_ok_def buf_ok_def buf_disjoint_def HOMA_BPAGE_SIZE_def)
  moreover have "refs_ok shared_pool ?B"
    unfolding refs_ok_def n three using u by (auto simp: shared_pool_def)
  moreover have "counts_ok 0 shared_pool" by (simp add: counts_ok_def bpage_ok_def shared_pool_def)
  moreover have "owned_by shared_pool core p \<longleftrightarrow> core = 0 \<and> p = 1" for core p
    unfolding owned_by_def n three by (auto simp: shared_pool_def)
  then have "cores_ok shared_pool ?B"
    unfolding cores_ok_def n by (auto simp: shared_pool_def HOMA_BPAGE_SIZE_def)
  ultimately show ?thesis by (simp add: pool_inv_def n)
qed

lemma homa_pool_messages_isolated_witness:
  "\<exists>a1 n1 a2 n2.
    homa_pool_get_buffer 4096 (placed_message 100000 [0, 65536]) 70000 = Some (a1, n1) \<and>
    homa_pool_get_buffer 4096 (placed_message 70 [100000]) 0 = Some (a2, n2) \<and>
    {a1 ..< a1 + n1} \<inter> {a2 ..< a2 + n2} = {}"
proof -
  have "pool_inv shared_pool (set (msg_bufs (placed_message 100000 [0, 65536])) \<union>
      set (msg_bufs (placed_message 70 [100000])) \<union> {})"
    using shared_pool_inv by (simp add: placed_bufs insert_commute)
  moreover have "has_space shared_pool (placed_message 100000 [0, 65536])"
    "has_space shared_pool (placed_message 70 [100000])"
    unfolding has_space_def placed_bufs by (simp_all add: HOMA_BPAGE_SIZE_def)
  ultimately show ?thesis
    using homa_pool_messages_isolated [of shared_pool "placed_message 100000 [0, 65536]"
        "placed_message 70 [100000]" "{}" 70000 0 4096]
    by (auto simp: placed_bufs)
qed

end
