(* ===== verification/Homa_State.thy ===== *)
theory Homa_State
imports Homa_Pool Homa_Addr
begin

text \<open>
  The state that the components share: \<open>struct homa\<close>, \<open>struct homa_sock\<close>,
  \<open>struct homa_rpc\<close>, \<open>struct homa_message_out\<close>, \<open>struct homa_peer\<close> and
  \<open>struct homa_interest\<close> as records, and one record that holds the heaps of these
  objects and the log of the packets to be sent.

  A pointer is an index into the heap of its type.  A list head and the link
  fields of its members are one list of pointers, kept in the object that holds
  the head; \<open>list_empty(&rpc->links)\<close> is then non-membership in that list.
  Locks are left out: an operation is the sequential meaning of what the code
  does while it holds them.  Counters that only feed the metrics or the time
  trace are left out as well.
\<close>

section \<open>Objects\<close>

datatype rpc_state = RPC_OUTGOING | RPC_INCOMING | RPC_IN_SERVICE | RPC_DEAD

datatype rpc_flag =
  RPC_PKTS_READY | RPC_COPYING_FROM_USER | RPC_COPYING_TO_USER | RPC_HANDING_OFF | APP_NEEDS_LOCK

text \<open>
  An outgoing DATA packet before segmentation: \<open>struct homa_skb_info\<close>, the fields of
  its \<open>homa_data_hdr\<close> that are not the same for all packets of the message, and
  the bytes behind that header.
\<close>

record out_skb =
  os_offset :: int
  os_data_bytes :: int
  os_seg_length :: int
  os_wire_bytes :: int
  os_gso_segs :: int
  os_gso_size :: int
  os_incoming :: int
  os_ack :: "homa_ack option"
  os_cutoff_version :: u16
  os_seg_offset :: int
  os_retransmit :: bool
  os_payload :: bytes

record homa_message_out =
  mo_length :: int
  mo_num_skbs :: int
  mo_copied_from_user :: int
  mo_packets :: "out_skb list"
  mo_next_xmit :: nat
  mo_next_xmit_offset :: int
  mo_active_xmits :: int
  mo_unscheduled :: int
  mo_granted :: int
  mo_sched_priority :: int
  mo_init_ns :: nat

type_synonym interest_ptr = nat

record homa_rpc =
  rp_hsk :: sock_ptr
  rp_state :: rpc_state
  rp_flags :: "rpc_flag set"
  rp_grants_in_progress :: int
  rp_peer :: peer_ptr
  rp_dport :: u16
  rp_id :: u64
  rp_completion_cookie :: u64
  rp_error :: "errno option"
  rp_msgin :: homa_message_in
  rp_msgout :: homa_message_out
  rp_interest :: "interest_ptr option"
  rp_silent_ticks :: int
  rp_resend_timer_ticks :: u32
  rp_done_timer_ticks :: u32
  rp_magic :: bool
  rp_start_ns :: nat

text \<open>The null pointer \<open>buffer_pool\<close> is None.\<close>

record homa_sock =
  hs_family :: sa_family
  hs_port :: u16
  hs_shutdown :: bool
  hs_ip_header_length :: int
  hs_is_tcp :: bool
  hs_protect_count :: int
  hs_active_rpcs :: "rpc_ptr list"
  hs_dead_rpcs :: "rpc_ptr list"
  hs_dead_skbs :: int
  hs_waiting_for_bufs :: "rpc_ptr list"
  hs_ready_requests :: "rpc_ptr list"
  hs_ready_responses :: "rpc_ptr list"
  hs_request_interests :: "interest_ptr list"
  hs_response_interests :: "interest_ptr list"
  hs_client_rpc_buckets :: "nat \<Rightarrow> rpc_ptr list"
  hs_server_rpc_buckets :: "nat \<Rightarrow> rpc_ptr list"
  hs_buffer_pool :: "homa_pool option"
  hs_remote_host :: sockaddr_in_union
  hs_connect :: bool

record homa_peer =
  pe_addr :: in6_addr
  pe_dst :: nat
  pe_unsched_cutoffs :: "int list"
  pe_cutoff_version :: u16
  pe_last_update_jiffies :: nat
  pe_grantable_rpcs :: "rpc_ptr list"
  pe_outstanding_resends :: int
  pe_most_recent_resend :: int
  pe_least_recent_rpc :: "rpc_ptr option"
  pe_least_recent_ticks :: u32
  pe_current_ticks :: u32
  pe_resend_rpc :: "rpc_ptr option"
  pe_acks :: "homa_ack list"

text \<open>The tables of peers and of sockets, and a scan over the latter.\<close>

record homa_dead_dst =
  dd_dst :: nat
  dd_gc_time :: nat

record homa_peertab =
  pt_dead_dsts :: "homa_dead_dst list"
  pt_buckets :: "(nat \<Rightarrow> peer_ptr list) option"

record homa_socktab_scan =
  sc_current_bucket :: int
  sc_next :: "sock_ptr option"

record homa_socktab =
  st_buckets :: "nat \<Rightarrow> sock_ptr list"
  st_active_scans :: "nat list"
  st_scans :: "nat \<Rightarrow> homa_socktab_scan"

record homa_interest =
  in_thread :: nat
  in_ready_rpc :: "rpc_ptr option"
  in_locked :: bool
  in_core :: nat
  in_reg_rpc :: "rpc_ptr option"

definition HOMA_MAX_GRANTS :: nat where "HOMA_MAX_GRANTS = 10"

record homa =
  h_next_outgoing_id :: u64
  h_link_idle_time :: nat
  h_grant_recalc_count :: int
  h_grantable_peers :: "peer_ptr list"
  h_num_grantable_rpcs :: int
  h_last_grantable_change :: nat
  h_max_grantable_rpcs :: int
  h_oldest_rpc :: "rpc_ptr option"
  h_grant_window :: int
  h_active_rpcs :: "rpc_ptr list"
  h_active_remaining :: "int list"
  h_pacer_fifo_fraction :: int
  h_pacer_fifo_count :: int
  h_throttled_rpcs :: "rpc_ptr list"
  h_throttle_add :: nat
  h_throttle_min_bytes :: int
  h_total_incoming :: int
  h_next_client_port :: u16
  h_unsched_bytes :: int
  h_window_param :: int
  h_link_mbps :: int
  h_num_priorities :: int
  h_priority_map :: "int list"
  h_max_sched_prio :: int
  h_unsched_cutoffs :: "int list"
  h_cutoff_version :: int
  h_fifo_grant_increment :: int
  h_grant_fifo_fraction :: int
  h_max_overcommit :: int
  h_max_incoming :: int
  h_max_rpcs_per_peer :: int
  h_resend_ticks :: int
  h_resend_interval :: int
  h_timeout_ticks :: int
  h_timeout_resends :: int
  h_request_ack_ticks :: int
  h_reap_limit :: int
  h_dead_buffs_limit :: int
  h_max_dead_buffs :: int
  h_max_nic_queue_ns :: int
  h_ns_per_mbyte :: int
  h_max_gso_size :: int
  h_timer_ticks :: u32
  h_dont_throttle :: bool
  h_bpage_lease_usecs :: nat
  h_hijack_tcp :: bool

section \<open>Packets to be sent\<close>

text \<open>
  A packet that the code hands to the IP layer, or, if \<open>xm_sent\<close> is false, a control packet for which
  \<open>__homa_xmit_control\<close> got no memory, so that it was not sent.
\<close>

datatype xmit_body =
    XData out_skb
  | XGrant int int bool
  | XResend int int int
  | XUnknown
  | XBusy
  | XCutoffs "int list" u16
  | XFreeze
  | XNeedAck
  | XAck "homa_ack list"

record xmit =
  xm_peer :: peer_ptr
  xm_sport :: u16
  xm_dport :: u16
  xm_sender_id :: u64
  xm_priority :: int
  xm_body :: xmit_body
  xm_sent :: bool

section \<open>The whole state\<close>

text \<open>
  \<open>ks_xmits\<close> is the log of the packets; \<open>ks_skb_mem\<close> tells, by the position in the log, whether there is memory for a control
  packet.  It stands for the kernel's allocator, and no operation changes it.
\<close>

record kstate =
  ks_homa :: homa
  ks_socks :: "sock_ptr \<Rightarrow> homa_sock"
  ks_rpcs :: "rpc_ptr \<Rightarrow> homa_rpc"
  ks_peers :: "peer_ptr \<Rightarrow> homa_peer"
  ks_peertab :: homa_peertab
  ks_socktab :: homa_socktab
  ks_interests :: "interest_ptr \<Rightarrow> homa_interest"
  ks_next_rpc :: rpc_ptr
  ks_xmits :: "xmit list"
  ks_wakeups :: "nat list"
  ks_skb_mem :: "nat \<Rightarrow> bool"

definition upd_homa :: "(homa \<Rightarrow> homa) \<Rightarrow> kstate \<Rightarrow> kstate" where
  "upd_homa f s = s\<lparr>ks_homa := f (ks_homa s)\<rparr>"

definition upd_rpc :: "rpc_ptr \<Rightarrow> (homa_rpc \<Rightarrow> homa_rpc) \<Rightarrow> kstate \<Rightarrow> kstate" where
  "upd_rpc r f s = s\<lparr>ks_rpcs := (ks_rpcs s)(r := f (ks_rpcs s r))\<rparr>"

definition upd_sock :: "sock_ptr \<Rightarrow> (homa_sock \<Rightarrow> homa_sock) \<Rightarrow> kstate \<Rightarrow> kstate" where
  "upd_sock k f s = s\<lparr>ks_socks := (ks_socks s)(k := f (ks_socks s k))\<rparr>"

definition upd_peer :: "peer_ptr \<Rightarrow> (homa_peer \<Rightarrow> homa_peer) \<Rightarrow> kstate \<Rightarrow> kstate" where
  "upd_peer p f s = s\<lparr>ks_peers := (ks_peers s)(p := f (ks_peers s p))\<rparr>"

definition upd_peertab :: "(homa_peertab \<Rightarrow> homa_peertab) \<Rightarrow> kstate \<Rightarrow> kstate" where
  "upd_peertab f s = s\<lparr>ks_peertab := f (ks_peertab s)\<rparr>"

definition upd_socktab :: "(homa_socktab \<Rightarrow> homa_socktab) \<Rightarrow> kstate \<Rightarrow> kstate" where
  "upd_socktab f s = s\<lparr>ks_socktab := f (ks_socktab s)\<rparr>"

definition upd_interest :: "interest_ptr \<Rightarrow> (homa_interest \<Rightarrow> homa_interest) \<Rightarrow> kstate \<Rightarrow> kstate" where
  "upd_interest i f s = s\<lparr>ks_interests := (ks_interests s)(i := f (ks_interests s i))\<rparr>"

abbreviation upd_msgin :: "rpc_ptr \<Rightarrow> (homa_message_in \<Rightarrow> homa_message_in) \<Rightarrow> kstate \<Rightarrow> kstate" where
  "upd_msgin r f \<equiv> upd_rpc r (\<lambda>rpc. rpc\<lparr>rp_msgin := f (rp_msgin rpc)\<rparr>)"

abbreviation upd_msgout :: "rpc_ptr \<Rightarrow> (homa_message_out \<Rightarrow> homa_message_out) \<Rightarrow> kstate \<Rightarrow> kstate" where
  "upd_msgout r f \<equiv> upd_rpc r (\<lambda>rpc. rpc\<lparr>rp_msgout := f (rp_msgout rpc)\<rparr>)"

abbreviation msgin :: "kstate \<Rightarrow> rpc_ptr \<Rightarrow> homa_message_in" where
  "msgin s r \<equiv> rp_msgin (ks_rpcs s r)"

abbreviation msgout :: "kstate \<Rightarrow> rpc_ptr \<Rightarrow> homa_message_out" where
  "msgout s r \<equiv> rp_msgout (ks_rpcs s r)"

lemma upd_homa_sel [heap_simps, simp]:
  "ks_peertab (upd_homa f s) = ks_peertab s" "ks_socktab (upd_homa f s) = ks_socktab s"
  "ks_homa (upd_homa f s) = f (ks_homa s)" "ks_socks (upd_homa f s) = ks_socks s"
  "ks_rpcs (upd_homa f s) = ks_rpcs s" "ks_peers (upd_homa f s) = ks_peers s"
  "ks_interests (upd_homa f s) = ks_interests s" "ks_next_rpc (upd_homa f s) = ks_next_rpc s"
  "ks_xmits (upd_homa f s) = ks_xmits s" "ks_wakeups (upd_homa f s) = ks_wakeups s"
  "ks_skb_mem (upd_homa f s) = ks_skb_mem s"
  by (simp_all add: upd_homa_def)

lemma upd_rpc_sel [heap_simps, simp]:
  "ks_peertab (upd_rpc r g s) = ks_peertab s" "ks_socktab (upd_rpc r g s) = ks_socktab s"
  "ks_homa (upd_rpc r g s) = ks_homa s" "ks_socks (upd_rpc r g s) = ks_socks s"
  "ks_rpcs (upd_rpc r g s) = (ks_rpcs s)(r := g (ks_rpcs s r))" "ks_peers (upd_rpc r g s) = ks_peers s"
  "ks_interests (upd_rpc r g s) = ks_interests s" "ks_next_rpc (upd_rpc r g s) = ks_next_rpc s"
  "ks_xmits (upd_rpc r g s) = ks_xmits s" "ks_wakeups (upd_rpc r g s) = ks_wakeups s"
  "ks_skb_mem (upd_rpc r g s) = ks_skb_mem s"
  by (simp_all add: upd_rpc_def)

lemma upd_sock_sel [heap_simps, simp]:
  "ks_peertab (upd_sock k g s) = ks_peertab s" "ks_socktab (upd_sock k g s) = ks_socktab s"
  "ks_homa (upd_sock k g s) = ks_homa s" "ks_socks (upd_sock k g s) = (ks_socks s)(k := g (ks_socks s k))"
  "ks_rpcs (upd_sock k g s) = ks_rpcs s" "ks_peers (upd_sock k g s) = ks_peers s"
  "ks_interests (upd_sock k g s) = ks_interests s" "ks_next_rpc (upd_sock k g s) = ks_next_rpc s"
  "ks_xmits (upd_sock k g s) = ks_xmits s" "ks_wakeups (upd_sock k g s) = ks_wakeups s"
  "ks_skb_mem (upd_sock k g s) = ks_skb_mem s"
  by (simp_all add: upd_sock_def)

lemma upd_peer_sel [heap_simps, simp]:
  "ks_peertab (upd_peer p g s) = ks_peertab s" "ks_socktab (upd_peer p g s) = ks_socktab s"
  "ks_homa (upd_peer p g s) = ks_homa s" "ks_socks (upd_peer p g s) = ks_socks s"
  "ks_rpcs (upd_peer p g s) = ks_rpcs s" "ks_peers (upd_peer p g s) = (ks_peers s)(p := g (ks_peers s p))"
  "ks_interests (upd_peer p g s) = ks_interests s" "ks_next_rpc (upd_peer p g s) = ks_next_rpc s"
  "ks_xmits (upd_peer p g s) = ks_xmits s" "ks_wakeups (upd_peer p g s) = ks_wakeups s"
  "ks_skb_mem (upd_peer p g s) = ks_skb_mem s"
  by (simp_all add: upd_peer_def)

lemma upd_peertab_sel [heap_simps, simp]:
  "ks_homa (upd_peertab f s) = ks_homa s" "ks_socks (upd_peertab f s) = ks_socks s"
  "ks_rpcs (upd_peertab f s) = ks_rpcs s" "ks_peers (upd_peertab f s) = ks_peers s"
  "ks_peertab (upd_peertab f s) = f (ks_peertab s)" "ks_socktab (upd_peertab f s) = ks_socktab s"
  "ks_interests (upd_peertab f s) = ks_interests s" "ks_next_rpc (upd_peertab f s) = ks_next_rpc s"
  "ks_xmits (upd_peertab f s) = ks_xmits s" "ks_wakeups (upd_peertab f s) = ks_wakeups s"
  "ks_skb_mem (upd_peertab f s) = ks_skb_mem s"
  by (simp_all add: upd_peertab_def)

lemma upd_socktab_sel [heap_simps, simp]:
  "ks_homa (upd_socktab f s) = ks_homa s" "ks_socks (upd_socktab f s) = ks_socks s"
  "ks_rpcs (upd_socktab f s) = ks_rpcs s" "ks_peers (upd_socktab f s) = ks_peers s"
  "ks_peertab (upd_socktab f s) = ks_peertab s" "ks_socktab (upd_socktab f s) = f (ks_socktab s)"
  "ks_interests (upd_socktab f s) = ks_interests s" "ks_next_rpc (upd_socktab f s) = ks_next_rpc s"
  "ks_xmits (upd_socktab f s) = ks_xmits s" "ks_wakeups (upd_socktab f s) = ks_wakeups s"
  "ks_skb_mem (upd_socktab f s) = ks_skb_mem s"
  by (simp_all add: upd_socktab_def)

lemma upd_interest_sel [heap_simps, simp]:
  "ks_peertab (upd_interest i g s) = ks_peertab s" "ks_socktab (upd_interest i g s) = ks_socktab s"
  "ks_homa (upd_interest i g s) = ks_homa s" "ks_socks (upd_interest i g s) = ks_socks s"
  "ks_rpcs (upd_interest i g s) = ks_rpcs s" "ks_peers (upd_interest i g s) = ks_peers s"
  "ks_interests (upd_interest i g s) = (ks_interests s)(i := g (ks_interests s i))"
  "ks_next_rpc (upd_interest i g s) = ks_next_rpc s"
  "ks_xmits (upd_interest i g s) = ks_xmits s" "ks_wakeups (upd_interest i g s) = ks_wakeups s"
  "ks_skb_mem (upd_interest i g s) = ks_skb_mem s"
  by (simp_all add: upd_interest_def)

section \<open>Fresh objects\<close>

text \<open>
  Objects with every field zero, from which the initialisation functions start.  The code
  gets its objects zeroed for the static \<open>struct homa\<close>, and uninitialised from \<open>kmalloc\<close>; a
  statement about a fresh object holds for any content unless it names one of these.
\<close>

definition message_in_zero :: homa_message_in where
  "message_in_zero = \<lparr>
     mi_length = 0, mi_packets = [], mi_recv_end = 0, mi_gaps = [], mi_bytes_remaining = 0,
     mi_granted = 0, mi_rec_incoming = 0, mi_rank = 0, mi_priority = 0, mi_resend_all = False,
     mi_birth = 0, mi_num_bpages = 0, mi_bpage_offsets = []\<rparr>"

definition message_out_zero :: homa_message_out where
  "message_out_zero = \<lparr>
     mo_length = 0, mo_num_skbs = 0, mo_copied_from_user = 0, mo_packets = [], mo_next_xmit =
     0, mo_next_xmit_offset = 0, mo_active_xmits = 0, mo_unscheduled = 0, mo_granted = 0,
     mo_sched_priority = 0, mo_init_ns = 0\<rparr>"

definition rpc_zero :: homa_rpc where
  "rpc_zero = \<lparr>
     rp_hsk = 0, rp_state = (RPC_OUTGOING), rp_flags = {}, rp_grants_in_progress = 0, rp_peer =
     0, rp_dport = 0, rp_id = 0, rp_completion_cookie = 0, rp_error = None, rp_msgin =
     message_in_zero, rp_msgout = message_out_zero, rp_interest = None, rp_silent_ticks = 0,
     rp_resend_timer_ticks = 0, rp_done_timer_ticks = 0, rp_magic = False, rp_start_ns = 0\<rparr>"

definition pool_zero :: homa_pool where
  "pool_zero = \<lparr>
     pl_region = 0, pl_num_bpages = 0, pl_descriptors = [], pl_free_bpages = 0,
     pl_bpages_needed = 0, pl_cores = []\<rparr>"

definition sock_zero :: homa_sock where
  "sock_zero = \<lparr>
     hs_family = AF_INET, hs_port = 0, hs_shutdown = False, hs_ip_header_length = 0, hs_is_tcp = False,
     hs_protect_count = 0, hs_active_rpcs = [], hs_dead_rpcs = [], hs_dead_skbs = 0,
     hs_waiting_for_bufs = [], hs_ready_requests = [], hs_ready_responses = [],
     hs_request_interests = [], hs_response_interests = [], hs_client_rpc_buckets =
     (\<lambda>_. []), hs_server_rpc_buckets = (\<lambda>_. []), hs_buffer_pool = None,
     hs_remote_host = \<lparr>sa_fam = AF_INET, sa_port = 0, sa_in4 = 0, sa_in6 = in6addr_any\<rparr>, hs_connect = False\<rparr>"

definition peer_zero :: homa_peer where
  "peer_zero = \<lparr>
     pe_addr = in6addr_any, pe_dst = 0, pe_unsched_cutoffs = replicate 8 0, pe_cutoff_version = 0,
     pe_last_update_jiffies = 0, pe_grantable_rpcs = [], pe_outstanding_resends = 0,
     pe_most_recent_resend = 0, pe_least_recent_rpc = None, pe_least_recent_ticks = 0,
     pe_current_ticks = 0, pe_resend_rpc = None, pe_acks = []\<rparr>"

definition interest_zero :: homa_interest where
  "interest_zero = \<lparr>
     in_thread = 0, in_ready_rpc = None, in_locked = False, in_core = 0, in_reg_rpc = None\<rparr>"

definition homa_zero :: homa where
  "homa_zero = \<lparr>
     h_next_outgoing_id = 0, h_link_idle_time = 0, h_grant_recalc_count = 0, h_grantable_peers
     = [], h_num_grantable_rpcs = 0, h_last_grantable_change = 0, h_max_grantable_rpcs = 0,
     h_oldest_rpc = None, h_grant_window = 0, h_active_rpcs = [], h_active_remaining =
     replicate HOMA_MAX_GRANTS 0, h_pacer_fifo_fraction = 0, h_pacer_fifo_count = 0,
     h_throttled_rpcs = [], h_throttle_add = 0, h_throttle_min_bytes = 0, h_total_incoming = 0,
     h_next_client_port = 0, h_unsched_bytes = 0, h_window_param = 0, h_link_mbps = 0,
     h_num_priorities = 0, h_priority_map = replicate 8 0, h_max_sched_prio = 0,
     h_unsched_cutoffs = replicate 8 0, h_cutoff_version = 0, h_fifo_grant_increment = 0,
     h_grant_fifo_fraction = 0, h_max_overcommit = 0, h_max_incoming = 0, h_max_rpcs_per_peer =
     0, h_resend_ticks = 0, h_resend_interval = 0, h_timeout_ticks = 0, h_timeout_resends = 0,
     h_request_ack_ticks = 0, h_reap_limit = 0, h_dead_buffs_limit = 0, h_max_dead_buffs = 0,
     h_max_nic_queue_ns = 0, h_ns_per_mbyte = 0, h_max_gso_size = 0, h_timer_ticks = 0,
     h_dont_throttle = False, h_bpage_lease_usecs = 0, h_hijack_tcp = False\<rparr>"

definition kstate_zero :: kstate where
  "kstate_zero = \<lparr>ks_homa = homa_zero, ks_socks = (\<lambda>_. sock_zero), ks_rpcs = (\<lambda>_. rpc_zero),
     ks_peers = (\<lambda>_. peer_zero), ks_peertab = \<lparr>pt_dead_dsts = [], pt_buckets = Some (\<lambda>_. [])\<rparr>,
     ks_socktab = \<lparr>st_buckets = (\<lambda>_. []), st_active_scans = [],
       st_scans = (\<lambda>_. \<lparr>sc_current_bucket = -1, sc_next = None\<rparr>)\<rparr>, ks_interests = (\<lambda>_. interest_zero), ks_next_rpc = 0,
     ks_xmits = [], ks_wakeups = [], ks_skb_mem = (\<lambda>_. True)\<rparr>"

lemmas zero_defs = message_in_zero_def message_out_zero_def rpc_zero_def pool_zero_def sock_zero_def
  peer_zero_def interest_zero_def homa_zero_def kstate_zero_def

section \<open>Control packets\<close>

text \<open>
  \<open>__homa_xmit_control\<close> sends at the highest priority.  Its result (no memory for the packet, or an error of the IP layer)
  does not influence what the callers do next.
\<close>

definition xmit_control_to :: "peer_ptr \<Rightarrow> u16 \<Rightarrow> u16 \<Rightarrow> u64 \<Rightarrow> xmit_body \<Rightarrow> kstate \<Rightarrow> kstate" where
  "xmit_control_to peer sport dport sender body s =
     s\<lparr>ks_xmits := ks_xmits s @ [\<lparr>xm_peer = peer, xm_sport = sport, xm_dport = dport,
        xm_sender_id = sender, xm_priority = h_num_priorities (ks_homa s) - 1, xm_body = body,
        xm_sent = ks_skb_mem s (length (ks_xmits s))\<rparr>]\<rparr>"

definition homa_xmit_control :: "xmit_body \<Rightarrow> rpc_ptr \<Rightarrow> kstate \<Rightarrow> kstate" where
  "homa_xmit_control body r s =
     (let rpc = ks_rpcs s r in
      xmit_control_to (rp_peer rpc) (hs_port (ks_socks s (rp_hsk rpc))) (rp_dport rpc) (rp_id rpc) body s)"

lemma xmit_control_to_sel [heap_simps, simp]:
  "ks_peertab (xmit_control_to p sp dp i b s) = ks_peertab s" "ks_socktab (xmit_control_to p sp dp i b s) = ks_socktab s"
  "ks_homa (xmit_control_to p sp dp i b s) = ks_homa s" "ks_socks (xmit_control_to p sp dp i b s) = ks_socks s"
  "ks_rpcs (xmit_control_to p sp dp i b s) = ks_rpcs s" "ks_peers (xmit_control_to p sp dp i b s) = ks_peers s"
  "ks_interests (xmit_control_to p sp dp i b s) = ks_interests s"
  "ks_next_rpc (xmit_control_to p sp dp i b s) = ks_next_rpc s"
  "ks_wakeups (xmit_control_to p sp dp i b s) = ks_wakeups s" "ks_skb_mem (xmit_control_to p sp dp i b s) = ks_skb_mem s"
  by (simp_all add: xmit_control_to_def)

lemma homa_xmit_control_sel [heap_simps, simp]:
  "ks_peertab (homa_xmit_control b r s) = ks_peertab s" "ks_socktab (homa_xmit_control b r s) = ks_socktab s"
  "ks_homa (homa_xmit_control b r s) = ks_homa s" "ks_socks (homa_xmit_control b r s) = ks_socks s"
  "ks_rpcs (homa_xmit_control b r s) = ks_rpcs s" "ks_peers (homa_xmit_control b r s) = ks_peers s"
  "ks_interests (homa_xmit_control b r s) = ks_interests s"
  "ks_next_rpc (homa_xmit_control b r s) = ks_next_rpc s" "ks_wakeups (homa_xmit_control b r s) = ks_wakeups s"
  "ks_skb_mem (homa_xmit_control b r s) = ks_skb_mem s"
  by (simp_all add: homa_xmit_control_def Let_def)

lemma xmits_homa_xmit_control:
  "ks_xmits (homa_xmit_control b r s) = ks_xmits s @
     [\<lparr>xm_peer = rp_peer (ks_rpcs s r), xm_sport = hs_port (ks_socks s (rp_hsk (ks_rpcs s r))),
       xm_dport = rp_dport (ks_rpcs s r), xm_sender_id = rp_id (ks_rpcs s r),
       xm_priority = h_num_priorities (ks_homa s) - 1, xm_body = b, xm_sent = ks_skb_mem s (length (ks_xmits s))\<rparr>]"
  by (simp add: homa_xmit_control_def xmit_control_to_def Let_def)

end
