(* ===== verification/Homa_Table.thy ===== *)
theory Homa_Table
imports Homa_Prelude
begin

text \<open>
  Hash tables with chains: peers, client RPCs and server RPCs are all found through an array of
  \<open>hlist_head\<close>s, searched from the front and extended at the front.  The interface states what
  the users of such a table rely on; the chained table of the kernel implements it.
\<close>

locale keyed_table =
  fixes inv :: "'t \<Rightarrow> bool"
    and lookup :: "'t \<Rightarrow> 'k \<Rightarrow> 'v option"
    and add :: "'v \<Rightarrow> 't \<Rightarrow> 't"
    and del :: "'v \<Rightarrow> 't \<Rightarrow> 't"
    and key :: "'v \<Rightarrow> 'k"
  assumes lookup_key: "inv t \<Longrightarrow> lookup t k = Some v \<Longrightarrow> key v = k"
    and add_inv: "inv t \<Longrightarrow> lookup t (key v) = None \<Longrightarrow> inv (add v t)"
    and lookup_add: "inv t \<Longrightarrow> lookup t (key v) = None \<Longrightarrow>
      lookup (add v t) k = (if k = key v then Some v else lookup t k)"
    and del_inv: "inv t \<Longrightarrow> inv (del v t)"
    and lookup_del: "inv t \<Longrightarrow> lookup t (key v) = Some v \<Longrightarrow>
      lookup (del v t) k = (if k = key v then None else lookup t k)"
begin

lemma add_found: "inv t \<Longrightarrow> lookup t (key v) = None \<Longrightarrow> lookup (add v t) (key v) = Some v"
  by (simp add: lookup_add)

lemma add_keeps: "inv t \<Longrightarrow> lookup t (key v) = None \<Longrightarrow> lookup t k = Some w \<Longrightarrow> lookup (add v t) k = Some w"
  by (auto simp: lookup_add)

lemma del_absent:
  assumes "inv t" and "lookup t (key v) = Some v"
  shows "lookup (del v t) k \<noteq> Some v"
  using lookup_key [OF assms(1), of k v] by (auto simp: lookup_del [OF assms])

lemma del_keeps:
  assumes "inv t" and "lookup t (key v) = Some v" and "lookup t k = Some w" and "w \<noteq> v"
  shows "lookup (del v t) k = Some w"
  using assms(2-4) by (auto simp: lookup_del [OF assms(1,2)])

lemma add_del: "inv t \<Longrightarrow> lookup t (key v) = None \<Longrightarrow> lookup (del v (add v t)) k = lookup t k"
  by (simp add: lookup_del add_inv lookup_add)

end

section \<open>Chains\<close>

definition chain_find :: "('k \<Rightarrow> nat) \<Rightarrow> ('v \<Rightarrow> 'k) \<Rightarrow> (nat \<Rightarrow> 'v list) \<Rightarrow> 'k \<Rightarrow> 'v option" where
  "chain_find hash key t k = find (\<lambda>v. key v = k) (t (hash k))"

definition chain_add :: "('k \<Rightarrow> nat) \<Rightarrow> ('v \<Rightarrow> 'k) \<Rightarrow> 'v \<Rightarrow> (nat \<Rightarrow> 'v list) \<Rightarrow> nat \<Rightarrow> 'v list" where
  "chain_add hash key v t = t(hash (key v) := v # t (hash (key v)))"

definition chain_del :: "('k \<Rightarrow> nat) \<Rightarrow> ('v \<Rightarrow> 'k) \<Rightarrow> 'v \<Rightarrow> (nat \<Rightarrow> 'v list) \<Rightarrow> nat \<Rightarrow> 'v list" where
  "chain_del hash key v t = t(hash (key v) := remove1 v (t (hash (key v))))"

definition chain_inv :: "('k \<Rightarrow> nat) \<Rightarrow> ('v \<Rightarrow> 'k) \<Rightarrow> (nat \<Rightarrow> 'v list) \<Rightarrow> bool" where
  "chain_inv hash key t \<longleftrightarrow> (\<forall>b. distinct (map key (t b)) \<and> (\<forall>v \<in> set (t b). hash (key v) = b))"

lemma chain_invD:
  assumes "chain_inv hash key t"
  shows "distinct (map key (t b))" and "v \<in> set (t b) \<Longrightarrow> hash (key v) = b"
  using assms unfolding chain_inv_def by blast+

lemma find_key:
  "distinct (map key xs) \<Longrightarrow> find (\<lambda>v. key v = k) xs = Some v \<longleftrightarrow> v \<in> set xs \<and> key v = k"
  by (induction xs) auto

lemma chain_find_Some:
  "chain_inv hash key t \<Longrightarrow> chain_find hash key t k = Some v \<longleftrightarrow> v \<in> set (t (hash k)) \<and> key v = k"
  by (simp add: chain_find_def chain_inv_def find_key)

lemma chain_find_None:
  "chain_inv hash key t \<Longrightarrow> chain_find hash key t k = None \<longleftrightarrow> (\<forall>b. \<forall>v \<in> set (t b). key v \<noteq> k)"
  by (auto simp: chain_find_def find_None_iff chain_inv_def)

lemma chain_inv_add:
  assumes "chain_inv hash key t" and "chain_find hash key t (key v) = None"
  shows "chain_inv hash key (chain_add hash key v t)"
proof -
  have "\<forall>w \<in> set (t (hash (key v))). key w \<noteq> key v"
    using assms(2) unfolding chain_find_None [OF assms(1)] by simp
  then show ?thesis using assms(1) by (auto simp: chain_inv_def chain_add_def)
qed

lemma chain_inv_del:
  assumes "chain_inv hash key t"
  shows "chain_inv hash key (chain_del hash key v t)"
proof -
  have "distinct (map key xs) \<Longrightarrow> distinct (map key (remove1 v xs))" for xs
    by (induction xs) (auto simp: image_iff dest: subsetD [OF set_remove1_subset])
  then show ?thesis
    using assms by (auto simp: chain_inv_def chain_del_def dest: subsetD [OF set_remove1_subset])
qed

lemma find_remove1:
  assumes "distinct (map key xs)" and "v \<in> set xs"
  shows "find (\<lambda>w. key w = k) (remove1 v xs) = (if k = key v then None else find (\<lambda>w. key w = k) xs)"
  using assms
proof (induction xs)
  case (Cons x xs)
  show ?case
  proof (cases "x = v")
    case True
    then have "key v \<notin> key ` set xs" using Cons.prems by simp
    then have "find (\<lambda>w. key w = key v) xs = None" unfolding find_None_iff by (metis image_eqI)
    then show ?thesis using True by simp
  next
    case False
    then have "v \<in> set xs" and "key x \<noteq> key v" using Cons.prems by auto
    then show ?thesis using Cons False by (cases "k = key v") simp_all
  qed
qed simp

lemma chain_find_add:
  "chain_find hash key (chain_add hash key v t) k = (if k = key v then Some v else chain_find hash key t k)"
  by (simp add: chain_find_def chain_add_def)

lemma chain_find_del:
  assumes "chain_inv hash key t" and "chain_find hash key t (key v) = Some v"
  shows "chain_find hash key (chain_del hash key v t) k = (if k = key v then None else chain_find hash key t k)"
proof -
  have "v \<in> set (t (hash (key v)))" using assms(2) unfolding chain_find_Some [OF assms(1)] by blast
  from find_remove1 [OF chain_invD(1) [OF assms(1)] this] show ?thesis by (simp add: chain_find_def chain_del_def)
qed

interpretation chain: keyed_table "chain_inv hash key" "chain_find hash key" "chain_add hash key" "chain_del hash key" key
  for hash key
proof (unfold_locales, goal_cases)
  case 1
  then show ?case by (simp only: chain_find_Some)
next
  case 2
  then show ?case by (rule chain_inv_add)
next
  case 3
  then show ?case by (simp only: chain_find_add)
next
  case 4
  then show ?case by (rule chain_inv_del)
next
  case 5
  then show ?case by (rule chain_find_del)
qed

text \<open>Only the keys of the members matter.\<close>

lemma chain_cong:
  assumes "\<And>b v. v \<in> set (t b) \<Longrightarrow> key v = key' v"
  shows "chain_inv hash key t = chain_inv hash key' t" and "chain_find hash key t k = chain_find hash key' t k"
proof -
  have m: "map key (t b) = map key' (t b)" for b using assms by simp
  have h: "(\<forall>v \<in> set (t b). hash (key v) = b) = (\<forall>v \<in> set (t b). hash (key' v) = b)" for b
    using assms by simp
  show "chain_inv hash key t = chain_inv hash key' t"
    unfolding chain_inv_def m h ..
  have "find (\<lambda>v. key v = k) xs = find (\<lambda>v. key' v = k) xs" if "\<forall>v \<in> set xs. key v = key' v" for xs
    using that by (induction xs) auto
  then show "chain_find hash key t k = chain_find hash key' t k"
    using assms by (simp add: chain_find_def)
qed

lemma chain_add_members: "(\<exists>b. q \<in> set (chain_add hash key v t b)) \<longleftrightarrow> q = v \<or> (\<exists>b. q \<in> set (t b))"
proof
  assume "\<exists>b. q \<in> set (chain_add hash key v t b)"
  then show "q = v \<or> (\<exists>b. q \<in> set (t b))" by (auto simp: chain_add_def split: if_splits)
next
  assume "q = v \<or> (\<exists>b. q \<in> set (t b))"
  then consider "q = v" | b where "q \<in> set (t b)" by blast
  then show "\<exists>b. q \<in> set (chain_add hash key v t b)"
  proof cases
    case 1
    then show ?thesis by (intro exI [of _ "hash (key v)"]) (simp add: chain_add_def)
  next
    case (2 b)
    then show ?thesis by (intro exI [of _ b]) (auto simp: chain_add_def)
  qed
qed

lemma chain_empty [simp]: "chain_inv hash key (\<lambda>_. [])" "chain_find hash key (\<lambda>_. []) k = None"
  by (simp_all add: chain_inv_def chain_find_def)

end
