(* ===== verification/Homa_Peer.thy ===== *)
theory Homa_Peer
imports Homa_State Homa_Table
begin

text \<open>
  Peers (\<open>homa_peer.c\<close>): the table that maps an address to the one \<open>homa_peer\<close> of that host,
  the routes that the peers cache, the choice of a priority for unscheduled packets, and the
  acknowledgements that wait for a packet to the peer.
\<close>

unbundle bit_operations_syntax

section \<open>The table\<close>

definition HOMA_PEERTAB_BUCKET_BITS :: nat where "HOMA_PEERTAB_BUCKET_BITS = 16"
definition HOMA_PEERTAB_BUCKETS :: nat where "HOMA_PEERTAB_BUCKETS = 2 ^ HOMA_PEERTAB_BUCKET_BITS"

text \<open>The kernel's \<open>hash_32\<close> is a parameter.\<close>

type_synonym hash_32 = "u32 \<Rightarrow> nat \<Rightarrow> u32"

definition homa_peer_bucket :: "hash_32 \<Rightarrow> in6_addr \<Rightarrow> nat" where
  "homa_peer_bucket hash_32 addr = unat
     (hash_32 (a32_0 addr) HOMA_PEERTAB_BUCKET_BITS XOR hash_32 (a32_1 addr) HOMA_PEERTAB_BUCKET_BITS XOR
      hash_32 (a32_2 addr) HOMA_PEERTAB_BUCKET_BITS XOR hash_32 (a32_3 addr) HOMA_PEERTAB_BUCKET_BITS)"

text \<open>The buckets of the table; a table that failed to initialise is never searched.\<close>

definition peer_buckets :: "kstate \<Rightarrow> nat \<Rightarrow> peer_ptr list" where
  "peer_buckets s = (case pt_buckets (ks_peertab s) of Some b \<Rightarrow> b | None \<Rightarrow> (\<lambda>_. []))"

definition homa_peertab_init :: "bool \<Rightarrow> homa_peertab \<Rightarrow> homa_peertab \<times> errno option" where
  "homa_peertab_init vmalloc_ok pt =
     (if \<not> vmalloc_ok then (pt\<lparr>pt_dead_dsts := [], pt_buckets := None\<rparr>, Some ENOMEM)
      else (pt\<lparr>pt_dead_dsts := [], pt_buckets := Some (\<lambda>_. [])\<rparr>, None))"

text \<open>The entries from the front whose time has come, and the rest.\<close>

definition homa_peertab_gc_dsts :: "nat \<Rightarrow> homa_peertab \<Rightarrow> homa_peertab \<times> nat list" where
  "homa_peertab_gc_dsts now pt =
     (pt\<lparr>pt_dead_dsts := dropWhile (\<lambda>d. dd_gc_time d \<le> now) (pt_dead_dsts pt)\<rparr>,
      map dd_dst (takeWhile (\<lambda>d. dd_gc_time d \<le> now) (pt_dead_dsts pt)))"

text \<open>The peers of all buckets in the order of the table.\<close>

definition all_peers :: "kstate \<Rightarrow> peer_ptr list" where
  "all_peers s = concat (map (peer_buckets s) [0..<HOMA_PEERTAB_BUCKETS])"

text \<open>Destruction releases the route of every peer and every dead route (the time is \<open>~0\<close>).\<close>

definition homa_peertab_destroy :: "kstate \<Rightarrow> kstate \<times> nat list" where
  "homa_peertab_destroy s =
     (case pt_buckets (ks_peertab s) of
        None \<Rightarrow> (s, [])
      | Some b \<Rightarrow> (upd_peertab (\<lambda>pt. pt\<lparr>pt_dead_dsts := []\<rparr>) s,
          map (\<lambda>p. pe_dst (ks_peers s p)) (all_peers s) @ map dd_dst (pt_dead_dsts (ks_peertab s))))"

definition homa_peertab_get_peers :: "bool \<Rightarrow> kstate \<Rightarrow> peer_ptr list option" where
  "homa_peertab_get_peers kmalloc_ok s =
     (case pt_buckets (ks_peertab s) of
        None \<Rightarrow> None
      | Some b \<Rightarrow> if all_peers s = [] then None
                   else if \<not> kmalloc_ok then None else Some (all_peers s))"

section \<open>Finding a peer\<close>

definition peer_lookup :: "hash_32 \<Rightarrow> in6_addr \<Rightarrow> kstate \<Rightarrow> peer_ptr option" where
  "peer_lookup hash_32 addr s =
     chain_find (homa_peer_bucket hash_32) (\<lambda>p. pe_addr (ks_peers s p)) (peer_buckets s) addr"

text \<open>
  A new peer: the fields written before it is linked into its chain, the linking, and the fields
  written afterwards.  The memory is not cleared before.
\<close>

definition peer_init_before :: "in6_addr \<Rightarrow> nat \<Rightarrow> homa_peer \<Rightarrow> homa_peer" where
  "peer_init_before addr dst peer = peer\<lparr>pe_addr := addr, pe_dst := dst,
     pe_unsched_cutoffs := (pe_unsched_cutoffs peer)[HOMA_MAX_PRIORITIES - 1 := 0, HOMA_MAX_PRIORITIES - 2 := INT_MAX],
     pe_cutoff_version := 0, pe_last_update_jiffies := 0, pe_grantable_rpcs := []\<rparr>"

definition peer_init_after :: "homa_peer \<Rightarrow> homa_peer" where
  "peer_init_after peer = peer\<lparr>pe_outstanding_resends := 0, pe_most_recent_resend := 0,
     pe_least_recent_rpc := None, pe_least_recent_ticks := 0, pe_current_ticks := -1,
     pe_resend_rpc := None, pe_acks := []\<rparr>"

definition peer_link :: "hash_32 \<Rightarrow> in6_addr \<Rightarrow> nat \<Rightarrow> peer_ptr \<Rightarrow> kstate \<Rightarrow> kstate" where
  "peer_link hash_32 addr dst p s =
     (let s = upd_peer p (peer_init_before addr dst) s in
      upd_peertab (\<lambda>pt. pt\<lparr>pt_buckets := Some (chain_add (homa_peer_bucket hash_32)
        (\<lambda>p. pe_addr (ks_peers s p)) p (peer_buckets s))\<rparr>) s)"

text \<open>
  \<open>homa_peer_find\<close>: the scan without the lock, then the scan and the creation with the lock.
  \<open>kmalloc\<close> gives the memory of the new peer (None if there is none), \<open>route\<close> is what
  \<open>homa_peer_get_dst\<close> returns.
\<close>

definition homa_peer_find ::
  "hash_32 \<Rightarrow> peer_ptr option \<Rightarrow> errno + nat \<Rightarrow> in6_addr \<Rightarrow> kstate \<Rightarrow> (errno + peer_ptr) \<times> kstate" where
  "homa_peer_find hash_32 kmalloc route addr s =
     (case peer_lookup hash_32 addr s of
        Some p \<Rightarrow> (Inr p, s)
      | None \<Rightarrow>
          (case peer_lookup hash_32 addr s of
             Some p \<Rightarrow> (Inr p, s)
           | None \<Rightarrow>
               (case kmalloc of
                  None \<Rightarrow> (Inl ENOMEM, s)
                | Some p \<Rightarrow>
                    (case route of
                       Inl e \<Rightarrow> (Inl e, s)
                     | Inr dst \<Rightarrow> (Inr p, upd_peer p peer_init_after (peer_link hash_32 addr dst p s))))))"

section \<open>Routes\<close>

text \<open>\<open>homa_dst_refresh\<close>; the second result is the routes that are released.\<close>

definition homa_dst_refresh :: "errno + nat \<Rightarrow> bool \<Rightarrow> nat \<Rightarrow> peer_ptr \<Rightarrow> kstate \<Rightarrow> kstate \<times> nat list" where
  "homa_dst_refresh route kmalloc_ok now p s =
     (case route of
        Inl e \<Rightarrow> (s, [])
      | Inr dst \<Rightarrow>
          let old = pe_dst (ks_peers s p);
              (s, released) =
                (if \<not> kmalloc_ok then (s, [old])
                 else
                   let pt = (ks_peertab s)\<lparr>pt_dead_dsts := pt_dead_dsts (ks_peertab s) @
                                [\<lparr>dd_dst = old, dd_gc_time = now + 125000000\<rparr>]\<rparr>;
                       (pt, released) = homa_peertab_gc_dsts now pt
                   in (upd_peertab (\<lambda>_. pt) s, released))
          in (upd_peer p (\<lambda>peer. peer\<lparr>pe_dst := dst\<rparr>) s, released))"

section \<open>Priorities\<close>

text \<open>The loop of \<open>homa_unsched_priority\<close> with \<open>i = n - 1\<close>; None when it leaves the array.\<close>

fun unsched_loop :: "int list \<Rightarrow> int \<Rightarrow> nat \<Rightarrow> nat option" where
  "unsched_loop cutoffs len 0 = None"
| "unsched_loop cutoffs len (Suc i) = (if cutoffs ! i \<ge> len then Some i else unsched_loop cutoffs len i)"

definition homa_unsched_priority :: "homa \<Rightarrow> homa_peer \<Rightarrow> int \<Rightarrow> nat option" where
  "homa_unsched_priority h peer len = unsched_loop (pe_unsched_cutoffs peer) len (nat (h_num_priorities h))"

definition homa_peer_set_cutoffs ::
  "int \<Rightarrow> int \<Rightarrow> int \<Rightarrow> int \<Rightarrow> int \<Rightarrow> int \<Rightarrow> int \<Rightarrow> int \<Rightarrow> homa_peer \<Rightarrow> homa_peer" where
  "homa_peer_set_cutoffs c0 c1 c2 c3 c4 c5 c6 c7 peer =
     peer\<lparr>pe_unsched_cutoffs := (pe_unsched_cutoffs peer)
       [0 := c0, 1 := c1, 2 := c2, 3 := c3, 4 := c4, 5 := c5, 6 := c6, 7 := c7]\<rparr>"

section \<open>Acknowledgements\<close>

definition ack_of :: "kstate \<Rightarrow> rpc_ptr \<Rightarrow> homa_ack" where
  "ack_of s r = \<lparr>ak_client_id = rp_id (ks_rpcs s r), ak_server_port = rp_dport (ks_rpcs s r)\<rparr>"

definition homa_peer_add_ack :: "rpc_ptr \<Rightarrow> kstate \<Rightarrow> kstate" where
  "homa_peer_add_ack r s =
     (let p = rp_peer (ks_rpcs s r);
          acks = pe_acks (ks_peers s p)
      in if length acks < HOMA_MAX_ACKS_PER_PKT
         then upd_peer p (\<lambda>peer. peer\<lparr>pe_acks := acks @ [ack_of s r]\<rparr>) s
         else homa_xmit_control (XAck acks) r (upd_peer p (\<lambda>peer. peer\<lparr>pe_acks := []\<rparr>) s))"

definition homa_peer_get_acks :: "nat \<Rightarrow> homa_peer \<Rightarrow> homa_ack list \<times> homa_peer" where
  "homa_peer_get_acks limit peer =
     (if pe_acks peer = [] then ([], peer)
      else
        let n = min limit (length (pe_acks peer));
            keep = length (pe_acks peer) - n
        in (drop keep (pe_acks peer), peer\<lparr>pe_acks := take keep (pe_acks peer)\<rparr>))"

section \<open>The table as a map\<close>

abbreviation addr_key :: "kstate \<Rightarrow> peer_ptr \<Rightarrow> in6_addr" where
  "addr_key s p \<equiv> pe_addr (ks_peers s p)"

definition peertab_inv :: "hash_32 \<Rightarrow> kstate \<Rightarrow> bool" where
  "peertab_inv hash_32 s \<longleftrightarrow> chain_inv (homa_peer_bucket hash_32) (addr_key s) (peer_buckets s)"

definition peer_linked :: "kstate \<Rightarrow> peer_ptr \<Rightarrow> bool" where
  "peer_linked s p \<longleftrightarrow> (\<exists>b. p \<in> set (peer_buckets s b))"

lemma peer_lookup_cong:
  assumes "peer_buckets s' = peer_buckets s" and "\<And>p. peer_linked s p \<Longrightarrow> addr_key s' p = addr_key s p"
  shows "peertab_inv hash_32 s' = peertab_inv hash_32 s" and "peer_lookup hash_32 addr s' = peer_lookup hash_32 addr s"
proof -
  have same: "addr_key s' p = addr_key s p" if "p \<in> set (peer_buckets s b)" for p b
    using that assms(2) unfolding peer_linked_def by blast
  show "peertab_inv hash_32 s' = peertab_inv hash_32 s"
    unfolding peertab_inv_def assms(1) using chain_cong(1) [of "peer_buckets s" "addr_key s'" "addr_key s"] same by blast
  show "peer_lookup hash_32 addr s' = peer_lookup hash_32 addr s"
    unfolding peer_lookup_def assms(1) using chain_cong(2) [of "peer_buckets s" "addr_key s'" "addr_key s"] same by blast
qed

lemma peer_buckets_upd [simp]:
  "peer_buckets (upd_peer p f s) = peer_buckets s" "peer_buckets (upd_rpc r g s) = peer_buckets s"
  "peer_buckets (upd_peertab (\<lambda>pt. pt\<lparr>pt_buckets := Some b\<rparr>) s) = b"
  by (simp_all add: peer_buckets_def)

lemma peer_link_effect:
  assumes inv: "peertab_inv hash_32 s" and none: "peer_lookup hash_32 addr s = None" and fresh: "\<not> peer_linked s p"
  shows "peertab_inv hash_32 (peer_link hash_32 addr dst p s)"
    and "peer_lookup hash_32 a (peer_link hash_32 addr dst p s) = (if a = addr then Some p else peer_lookup hash_32 a s)"
    and "addr_key (peer_link hash_32 addr dst p s) p = addr"
    and "peer_linked (peer_link hash_32 addr dst p s) q \<longleftrightarrow> q = p \<or> peer_linked s q"
proof -
  let ?s1 = "upd_peer p (peer_init_before addr dst) s" and ?h = "homa_peer_bucket hash_32"
  let ?s2 = "peer_link hash_32 addr dst p s"
  have key: "addr_key ?s1 p = addr" by (simp add: peer_init_before_def)
  have "addr_key ?s1 q = addr_key s q" if "peer_linked s q" for q
    using that fresh by auto
  note same = peer_lookup_cong [of ?s1 s, OF _ this]
  have inv1: "chain_inv ?h (addr_key ?s1) (peer_buckets s)"
    using same(1) [of hash_32] inv by (simp add: peertab_inv_def)
  have look1: "chain_find ?h (addr_key ?s1) (peer_buckets s) a = peer_lookup hash_32 a s" for a
    using same(2) [of hash_32 a] by (simp add: peer_lookup_def)
  have none1: "chain_find ?h (addr_key ?s1) (peer_buckets s) (addr_key ?s1 p) = None"
    unfolding look1 key by (rule none)
  have buckets: "peer_buckets ?s2 = chain_add ?h (addr_key ?s1) p (peer_buckets s)"
    by (simp add: peer_link_def Let_def)
  have keys: "addr_key ?s2 = addr_key ?s1" by (simp add: peer_link_def Let_def)
  show "peertab_inv hash_32 ?s2"
    unfolding peertab_inv_def buckets keys by (rule chain.add_inv [OF inv1 none1])
  show "peer_lookup hash_32 a ?s2 = (if a = addr then Some p else peer_lookup hash_32 a s)"
    unfolding peer_lookup_def [of _ _ ?s2] buckets keys chain.lookup_add [OF inv1 none1] look1 key ..
  show "addr_key ?s2 p = addr" using keys key by metis
  show "peer_linked ?s2 q \<longleftrightarrow> q = p \<or> peer_linked s q"
    unfolding peer_linked_def buckets by (rule chain_add_members)
qed

lemma init_after_effect:
  "peertab_inv hash_32 (upd_peer p peer_init_after s) = peertab_inv hash_32 s"
  "peer_lookup hash_32 a (upd_peer p peer_init_after s) = peer_lookup hash_32 a s"
  "peer_linked (upd_peer p peer_init_after s) q = peer_linked s q"
  by (intro peer_lookup_cong; simp add: peer_init_after_def)+ (simp add: peer_linked_def)

lemma peer_lookup_key:
  assumes "peertab_inv hash_32 s" and "peer_lookup hash_32 a s = Some p"
  shows "addr_key s p = a"
  using assms unfolding peertab_inv_def peer_lookup_def by (rule chain.lookup_key)

text \<open>
  C26: \<open>homa_peer_find\<close> returns the peer of the address if there is one and changes nothing; otherwise
  it creates one that later lookups of the address return while lookups of other addresses are
  unchanged, or fails with the error of the allocation or of the route and changes nothing.  The
  table never has two peers for one address.
\<close>

theorem homa_peer_find_correct:
  assumes "peertab_inv hash_32 s" and "\<And>p. kmalloc = Some p \<Longrightarrow> \<not> peer_linked s p"
    and "homa_peer_find hash_32 kmalloc route addr s = (result, s')"
  shows "peertab_inv hash_32 s' \<and>
    (case result of
       Inr p \<Rightarrow> peer_lookup hash_32 addr s' = Some p \<and> pe_addr (ks_peers s' p) = addr \<and>
         (\<forall>a. a \<noteq> addr \<longrightarrow> peer_lookup hash_32 a s' = peer_lookup hash_32 a s) \<and>
         (peer_lookup hash_32 addr s = Some p \<and> s' = s \<or>
          peer_lookup hash_32 addr s = None \<and> kmalloc = Some p \<and> (\<exists>dst. route = Inr dst \<and> pe_dst (ks_peers s' p) = dst))
     | Inl e \<Rightarrow> s' = s \<and> peer_lookup hash_32 addr s = None \<and>
         (kmalloc = None \<and> e = ENOMEM \<or> kmalloc \<noteq> None \<and> route = Inl e))"
proof (cases "peer_lookup hash_32 addr s")
  case (Some p)
  then have "addr_key s p = addr" by (rule peer_lookup_key [OF assms(1)])
  then show ?thesis using Some assms(1,3) by (auto simp: homa_peer_find_def)
next
  case None
  show ?thesis
  proof (cases "\<exists>p dst. kmalloc = Some p \<and> route = Inr dst")
    case True
    then obtain p dst where new: "kmalloc = Some p" "route = Inr dst" by blast
    let ?s1 = "peer_link hash_32 addr dst p s"
    have res: "result = Inr p" "s' = upd_peer p peer_init_after ?s1"
      using assms(3) None new by (simp_all add: homa_peer_find_def)
    note link = peer_link_effect [OF assms(1) None assms(2) [OF new(1)]]
    have "pe_dst (ks_peers s' p) = dst" and "addr_key s' p = addr"
      by (simp_all add: res(2) peer_init_after_def peer_link_def peer_init_before_def Let_def)
    then show ?thesis using None new by (simp add: res init_after_effect link)
  next
    case False
    then show ?thesis
      using assms(1,3) None by (auto simp: homa_peer_find_def split: option.splits sum.splits)
  qed
qed

text \<open>A state with an empty table, for the applications below.\<close>

definition example_addr :: in6_addr where
  "example_addr = \<lparr>a32_0 = 0, a32_1 = 0, a32_2 = 0xffff, a32_3 = 5\<rparr>"

definition example_hash :: hash_32 where
  "example_hash x bits = x AND (2 ^ bits - 1)"

lemma empty_peertab:
  "peertab_inv hash_32 kstate_zero" "peer_lookup hash_32 a kstate_zero = None" "\<not> peer_linked kstate_zero p"
  by (simp_all add: peertab_inv_def peer_lookup_def peer_linked_def peer_buckets_def kstate_zero_def)

theorem homa_peer_find_correct_witness:
  "\<exists>s'. homa_peer_find example_hash (Some 7) (Inr 3) example_addr kstate_zero = (Inr 7, s') \<and>
     peer_lookup example_hash example_addr s' = Some 7"
proof -
  obtain result s' where find: "homa_peer_find example_hash (Some 7) (Inr 3) example_addr kstate_zero = (result, s')"
    by fastforce
  then have "result = Inr 7" by (simp add: homa_peer_find_def empty_peertab)
  then show ?thesis
    using homa_peer_find_correct [OF empty_peertab(1) empty_peertab(3) find] find by simp
qed

text \<open>The index computed for an address is one of the buckets if \<open>hash_32\<close> keeps to its range.\<close>

lemma xor_less:
  assumes "(a :: nat) < 2 ^ n" and "b < 2 ^ n"
  shows "a XOR b < 2 ^ n"
proof -
  have "take_bit n (a XOR b) = a XOR b"
    using assms by (simp add: take_bit_xor take_bit_nat_eq_self)
  then show ?thesis by (simp only: take_bit_nat_eq_self_iff)
qed

lemma homa_peer_bucket_in_range:
  assumes "\<And>x bits. unat (hash_32 x bits) < 2 ^ bits"
  shows "homa_peer_bucket hash_32 addr < HOMA_PEERTAB_BUCKETS"
  unfolding homa_peer_bucket_def HOMA_PEERTAB_BUCKETS_def unsigned_xor_eq
  by (intro xor_less assms)

section \<open>Concurrent searches\<close>

text \<open>
  Threads in \<open>homa_peer_find\<close>.  The first scan takes no lock; everything between taking and releasing
  \<open>write_lock\<close> is one step, except that linking a new peer makes it visible to scans: what
  follows until the lock is released is a step of its own, during which no other thread has the
  lock.
\<close>

datatype find_thread =
    Finding in6_addr
  | Missed in6_addr
  | Linked in6_addr peer_ptr
  | Found in6_addr "errno + peer_ptr"

definition lock_free :: "(nat \<Rightarrow> find_thread) \<Rightarrow> bool" where
  "lock_free ts \<longleftrightarrow> (\<forall>t a p. ts t \<noteq> Linked a p)"

inductive find_step ::
  "hash_32 \<Rightarrow> (nat \<Rightarrow> find_thread) \<times> kstate \<Rightarrow> (nat \<Rightarrow> find_thread) \<times> kstate \<Rightarrow> bool"
  for hash_32 where
  scan_hit: "ts t = Finding a \<Longrightarrow> peer_lookup hash_32 a s = Some p \<Longrightarrow>
    find_step hash_32 (ts, s) (ts(t := Found a (Inr p)), s)"
| scan_miss: "ts t = Finding a \<Longrightarrow> peer_lookup hash_32 a s = None \<Longrightarrow>
    find_step hash_32 (ts, s) (ts(t := Missed a), s)"
| locked_hit: "ts t = Missed a \<Longrightarrow> lock_free ts \<Longrightarrow> peer_lookup hash_32 a s = Some p \<Longrightarrow>
    find_step hash_32 (ts, s) (ts(t := Found a (Inr p)), s)"
| locked_fail: "ts t = Missed a \<Longrightarrow> lock_free ts \<Longrightarrow> peer_lookup hash_32 a s = None \<Longrightarrow>
    find_step hash_32 (ts, s) (ts(t := Found a (Inl e)), s)"
| locked_link: "ts t = Missed a \<Longrightarrow> lock_free ts \<Longrightarrow> peer_lookup hash_32 a s = None \<Longrightarrow> \<not> peer_linked s p \<Longrightarrow>
    find_step hash_32 (ts, s) (ts(t := Linked a p), peer_link hash_32 a dst p s)"
| unlock: "ts t = Linked a p \<Longrightarrow>
    find_step hash_32 (ts, s) (ts(t := Found a (Inr p)), upd_peer p peer_init_after s)"

lemmas find_step_induct = find_step.induct [split_format (complete)]

text \<open>What a thread holds is what the table has.\<close>

definition find_inv :: "hash_32 \<Rightarrow> (nat \<Rightarrow> find_thread) \<times> kstate \<Rightarrow> bool" where
  "find_inv hash_32 = (\<lambda>(ts, s). peertab_inv hash_32 s \<and>
     (\<forall>t a p. ts t = Linked a p \<or> ts t = Found a (Inr p) \<longrightarrow> peer_lookup hash_32 a s = Some p))"

lemma find_step_inv:
  "find_step hash_32 c c' \<Longrightarrow> find_inv hash_32 c \<Longrightarrow> find_inv hash_32 c'"
proof (induction rule: find_step.induct)
  case locked_link
  note link = peer_link_effect [OF _ locked_link(3,4)]
  show ?case using locked_link(3,5) link by (auto simp: find_inv_def)
next
  case (unlock ts t a p s)
  then show ?case by (auto simp: find_inv_def init_after_effect)
qed (auto simp: find_inv_def)

lemma find_steps_inv:
  "(find_step hash_32)\<^sup>*\<^sup>* c c' \<Longrightarrow> find_inv hash_32 c \<Longrightarrow> find_inv hash_32 c'"
  by (induction rule: rtranclp_induct) (auto intro: find_step_inv)

text \<open>
  C18: However the steps of concurrent calls of \<open>homa_peer_find\<close> interleave, two calls for the same
  address never return different peers, and the table keeps at most one peer per address.
\<close>

theorem homa_peer_find_concurrent:
  assumes "peertab_inv hash_32 s" and "\<forall>t. \<exists>a. ts t = Finding a"
    and "(find_step hash_32)\<^sup>*\<^sup>* (ts, s) (ts', s')"
    and "ts' t = Found a (Inr p)" and "ts' u = Found a (Inr q)"
  shows "p = q \<and> peertab_inv hash_32 s' \<and> peer_lookup hash_32 a s' = Some p"
proof -
  have "find_inv hash_32 (ts, s)"
    using assms(1,2) by (auto simp: find_inv_def) (metis find_thread.distinct)+
  from find_steps_inv [OF assms(3) this] show ?thesis
    using assms(4,5) by (auto simp: find_inv_def) (metis option.inject)
qed

lemma example_run:
  assumes "peertab_inv hash_32 s" and "peer_lookup hash_32 a s = None" and "\<not> peer_linked s p"
    and s1_def: "s1 = peer_link hash_32 a dst p s"
  shows "(find_step hash_32)\<^sup>*\<^sup>* (\<lambda>_. Finding a, s)
           ((\<lambda>_. Finding a)(0 := Linked a p, 1 := Found a (Inr p)), s1)"
    and "(find_step hash_32)\<^sup>*\<^sup>* (\<lambda>_. Finding a, s)
           ((\<lambda>_. Finding a)(0 := Found a (Inr p), 1 := Found a (Inr p)), upd_peer p peer_init_after s1)"
proof -
  let ?ts = "\<lambda>_ :: nat. Finding a"
  have 1: "find_step hash_32 (?ts, s) (?ts(0 := Missed a), s)"
    by (rule scan_miss) (simp_all add: assms)
  have "lock_free (?ts(0 := Missed a))" by (simp add: lock_free_def)
  then have "find_step hash_32 (?ts(0 := Missed a), s) (?ts(0 := Missed a, 0 := Linked a p), s1)"
    unfolding s1_def by (intro locked_link) (simp_all add: assms)
  then have 2: "find_step hash_32 (?ts(0 := Missed a), s) (?ts(0 := Linked a p), s1)"
    by (simp only: fun_upd_upd)
  have "peer_lookup hash_32 a s1 = Some p"
    unfolding s1_def using peer_link_effect(2) [OF assms(1-3)] by simp
  then have 3: "find_step hash_32 (?ts(0 := Linked a p), s1) (?ts(0 := Linked a p, 1 := Found a (Inr p)), s1)"
    by (intro scan_hit) simp_all
  have 4: "find_step hash_32 (?ts(0 := Linked a p, 1 := Found a (Inr p)), s1)
      ((?ts(0 := Linked a p, 1 := Found a (Inr p)))(0 := Found a (Inr p)), upd_peer p peer_init_after s1)"
    by (rule unlock) simp
  have 5: "(?ts(0 := Linked a p, 1 := Found a (Inr p)))(0 := Found a (Inr p)) = ?ts(0 := Found a (Inr p), 1 := Found a (Inr p))"
    by (rule ext) simp
  have "(find_step hash_32)\<^sup>*\<^sup>* (?ts, s) (?ts(0 := Missed a), s)" using 1 by (rule r_into_rtranclp)
  from this 2 have "(find_step hash_32)\<^sup>*\<^sup>* (?ts, s) (?ts(0 := Linked a p), s1)"
    by (rule rtranclp.rtrancl_into_rtrancl)
  from this 3 show run3: "(find_step hash_32)\<^sup>*\<^sup>* (?ts, s) (?ts(0 := Linked a p, 1 := Found a (Inr p)), s1)"
    by (rule rtranclp.rtrancl_into_rtrancl)
  from run3 4 [unfolded 5] show "(find_step hash_32)\<^sup>*\<^sup>* (\<lambda>_. Finding a, s)
           ((\<lambda>_. Finding a)(0 := Found a (Inr p), 1 := Found a (Inr p)), upd_peer p peer_init_after s1)"
    by (rule rtranclp.rtrancl_into_rtrancl)
qed

theorem homa_peer_find_concurrent_witness:
  "\<exists>ts' s'. (find_step example_hash)\<^sup>*\<^sup>* (\<lambda>_. Finding example_addr, kstate_zero) (ts', s') \<and>
     ts' 0 = Found example_addr (Inr 7) \<and> ts' 1 = Found example_addr (Inr 7) \<and>
     peer_lookup example_hash example_addr s' = Some 7"
proof -
  note run = example_run(2) [of example_hash kstate_zero example_addr 7 _ 3, OF empty_peertab refl]
  have "peer_lookup example_hash example_addr (upd_peer 7 peer_init_after (peer_link example_hash example_addr 3 7 kstate_zero)) = Some 7"
    using homa_peer_find_concurrent [OF empty_peertab(1) _ run, of 0 example_addr 7 1 7] by simp
  then show ?thesis
    by (intro exI conjI) (rule run, simp_all)
qed

text \<open>
  C36: A thread can obtain a peer whose list of acknowledgements (and the fields used by the timer)
  still has whatever the memory contained: \<open>homa_peer_find\<close> links the peer into its chain before it
  writes these fields, and the scan without the lock finds it there.
\<close>

theorem homa_peer_find_publishes_early:
  assumes "peertab_inv hash_32 s" and "peer_lookup hash_32 a s = None" and "\<not> peer_linked s p"
  shows "\<exists>ts' s'. (find_step hash_32)\<^sup>*\<^sup>* (\<lambda>_. Finding a, s) (ts', s') \<and>
    ts' 1 = Found a (Inr p) \<and> pe_acks (ks_peers s' p) = pe_acks (ks_peers s p) \<and>
    pe_current_ticks (ks_peers s' p) = pe_current_ticks (ks_peers s p)"
proof -
  have "pe_acks (ks_peers (peer_link hash_32 a 0 p s) p) = pe_acks (ks_peers s p)"
    and "pe_current_ticks (ks_peers (peer_link hash_32 a 0 p s) p) = pe_current_ticks (ks_peers s p)"
    by (simp_all add: peer_link_def Let_def peer_init_before_def)
  then show ?thesis
    by (intro exI conjI) (rule example_run(1) [OF assms refl, of 0], simp_all)
qed

theorem homa_peer_find_publishes_early_witness:
  "\<exists>ts' s'. (find_step example_hash)\<^sup>*\<^sup>*
      (\<lambda>_. Finding example_addr, upd_peer 7 (\<lambda>p. p\<lparr>pe_current_ticks := 99\<rparr>) kstate_zero) (ts', s') \<and>
    ts' 1 = Found example_addr (Inr 7) \<and> pe_current_ticks (ks_peers s' 7) = 99"
proof -
  let ?s = "upd_peer 7 (\<lambda>p. p\<lparr>pe_current_ticks := 99\<rparr>) kstate_zero"
  have same: "peer_buckets ?s = peer_buckets kstate_zero" "\<And>p. addr_key ?s p = addr_key kstate_zero p" by simp_all
  have "peertab_inv example_hash ?s" "peer_lookup example_hash example_addr ?s = None"
    unfolding peer_lookup_cong [OF same] by (rule empty_peertab)+
  moreover have "\<not> peer_linked ?s 7" using empty_peertab(3) [of 7] by (simp add: peer_linked_def)
  ultimately obtain ts' s' where "(find_step example_hash)\<^sup>*\<^sup>* (\<lambda>_. Finding example_addr, ?s) (ts', s')"
    "ts' 1 = Found example_addr (Inr 7)" "pe_current_ticks (ks_peers s' 7) = pe_current_ticks (ks_peers ?s 7)"
    using homa_peer_find_publishes_early by blast
  then show ?thesis by (intro exI [of _ ts'] exI [of _ s'] conjI) simp_all
qed

section \<open>Properties of priorities and acknowledgements\<close>

lemma unsched_loop_Some:
  "unsched_loop cutoffs len n = Some i \<longleftrightarrow> i < n \<and> len \<le> cutoffs ! i \<and> (\<forall>j. i < j \<and> j < n \<longrightarrow> cutoffs ! j < len)"
proof (induction n)
  case (Suc n)
  show ?case
  proof (cases "len \<le> cutoffs ! n")
    case True
    then show ?thesis by (auto simp: less_Suc_eq)
  next
    case False
    then show ?thesis using Suc by (auto simp: less_Suc_eq)
  qed
qed simp

lemma unsched_loop_None: "unsched_loop cutoffs len n = None \<longleftrightarrow> (\<forall>j < n. cutoffs ! j < len)"
  by (induction n) (auto simp: less_Suc_eq)

text \<open>
  C32: \<open>homa_unsched_priority\<close> returns the highest priority level whose cutoff admits the message; it has
  no result (it reads below the array) exactly when no cutoff of the configured levels does, which
  for a peer that \<open>homa_peer_find\<close> has just set up cannot happen with all 8 levels.
\<close>

theorem homa_unsched_priority_highest:
  assumes "h_num_priorities h = int n"
  shows "(homa_unsched_priority h peer len = Some i \<longleftrightarrow>
      i < n \<and> len \<le> pe_unsched_cutoffs peer ! i \<and> (\<forall>j. i < j \<and> j < n \<longrightarrow> pe_unsched_cutoffs peer ! j < len)) \<and>
    (homa_unsched_priority h peer len = None \<longleftrightarrow> (\<forall>j < n. pe_unsched_cutoffs peer ! j < len)) \<and>
    (n = HOMA_MAX_PRIORITIES \<and> length (pe_unsched_cutoffs peer) = HOMA_MAX_PRIORITIES \<and> len \<le> INT_MAX \<longrightarrow>
     homa_unsched_priority h (peer_init_before addr dst peer) len = Some (if len \<le> 0 then 7 else 6))"
proof -
  have "unsched_loop (pe_unsched_cutoffs (peer_init_before addr dst peer)) len 8 = Some (if len \<le> 0 then 7 else 6)"
    if "length (pe_unsched_cutoffs peer) = 8" "len \<le> INT_MAX"
    using that by (simp add: eval_nat_numeral peer_init_before_def HOMA_MAX_PRIORITIES_def)
  then show ?thesis
    using assms
    by (simp add: homa_unsched_priority_def unsched_loop_Some unsched_loop_None HOMA_MAX_PRIORITIES_def)
qed

theorem homa_unsched_priority_highest_witness:
  "homa_unsched_priority (homa_zero\<lparr>h_num_priorities := 8\<rparr>) (peer_init_before example_addr 3 peer_zero) 1000 = Some 6 \<and>
   homa_unsched_priority (homa_zero\<lparr>h_num_priorities := 6\<rparr>) (peer_init_before example_addr 3 peer_zero) 1000 = None"
proof
  show "homa_unsched_priority (homa_zero\<lparr>h_num_priorities := 8\<rparr>) (peer_init_before example_addr 3 peer_zero) 1000 = Some 6"
    using homa_unsched_priority_highest [where h = "homa_zero\<lparr>h_num_priorities := 8\<rparr>" and n = 8 and peer = peer_zero
      and len = 1000 and addr = example_addr and dst = 3]
    by (simp add: HOMA_MAX_PRIORITIES_def INT_MAX_def peer_zero_def)
  show "homa_unsched_priority (homa_zero\<lparr>h_num_priorities := 6\<rparr>) (peer_init_before example_addr 3 peer_zero) 1000 = None"
    using homa_unsched_priority_highest [where h = "homa_zero\<lparr>h_num_priorities := 6\<rparr>" and n = 6 and len = 1000
      and peer = "peer_init_before example_addr 3 peer_zero"]
    by (simp add: peer_zero_def peer_init_before_def HOMA_MAX_PRIORITIES_def eval_nat_numeral less_Suc_eq)
qed

text \<open>Operations on the acknowledgements of one peer, and what a packet acknowledges.\<close>

datatype ack_op = Add_Ack rpc_ptr | Get_Acks nat

fun ack_step :: "peer_ptr \<Rightarrow> ack_op \<Rightarrow> kstate \<Rightarrow> kstate \<times> homa_ack list" where
  "ack_step p (Add_Ack r) s = (homa_peer_add_ack r s, [])"
| "ack_step p (Get_Acks n) s =
     (let (acks, peer) = homa_peer_get_acks n (ks_peers s p) in (upd_peer p (\<lambda>_. peer) s, acks))"

fun run_acks :: "peer_ptr \<Rightarrow> ack_op list \<Rightarrow> kstate \<Rightarrow> kstate \<times> homa_ack list" where
  "run_acks p [] s = (s, [])"
| "run_acks p (op # ops) s =
     (let (s, acks) = ack_step p op s; (s, acks') = run_acks p ops s in (s, acks @ acks'))"

definition acked_by :: "xmit \<Rightarrow> homa_ack list" where
  "acked_by x = (case xm_body x of
     XAck acks \<Rightarrow> acks @ [\<lparr>ak_client_id = xm_sender_id x, ak_server_port = xm_dport x\<rparr>] | _ \<Rightarrow> [])"

text \<open>The acks in packets that were sent, and in packets that were not.\<close>

definition sent_acks :: "kstate \<Rightarrow> homa_ack list" where
  "sent_acks s = concat (map acked_by (filter xm_sent (ks_xmits s)))"

definition lost_acks :: "kstate \<Rightarrow> homa_ack list" where
  "lost_acks s = concat (map acked_by (filter (\<lambda>x. \<not> xm_sent x) (ks_xmits s)))"

fun added :: "kstate \<Rightarrow> ack_op list \<Rightarrow> homa_ack list" where
  "added s [] = []"
| "added s (Add_Ack r # ops) = ack_of s r # added s ops"
| "added s (Get_Acks n # ops) = added s ops"

definition ops_for :: "peer_ptr \<Rightarrow> kstate \<Rightarrow> ack_op list \<Rightarrow> bool" where
  "ops_for p s ops \<longleftrightarrow> (\<forall>r. Add_Ack r \<in> set ops \<longrightarrow> rp_peer (ks_rpcs s r) = p)"

lemma add_ack_rpcs [simp]: "ks_rpcs (homa_peer_add_ack r s) = ks_rpcs s"
  by (simp add: homa_peer_add_ack_def Let_def)

lemma ack_step_effect:
  assumes "ack_step p op s = (s', acks)" and "ops_for p s [op]" and "length (pe_acks (ks_peers s p)) \<le> HOMA_MAX_ACKS_PER_PKT"
  shows "ks_rpcs s' = ks_rpcs s" and "length (pe_acks (ks_peers s' p)) \<le> HOMA_MAX_ACKS_PER_PKT"
    and "mset (pe_acks (ks_peers s' p)) + mset acks + mset (sent_acks s') + mset (lost_acks s') =
         mset (pe_acks (ks_peers s p)) + mset (added s [op]) + mset (sent_acks s) + mset (lost_acks s)"
    and "ks_skb_mem s' = ks_skb_mem s" and "\<forall>n. ks_skb_mem s n \<Longrightarrow> lost_acks s' = lost_acks s"
proof -
  have "ks_rpcs s' = ks_rpcs s \<and> length (pe_acks (ks_peers s' p)) \<le> HOMA_MAX_ACKS_PER_PKT \<and>
    mset (pe_acks (ks_peers s' p)) + mset acks + mset (sent_acks s') + mset (lost_acks s') =
      mset (pe_acks (ks_peers s p)) + mset (added s [op]) + mset (sent_acks s) + mset (lost_acks s) \<and>
    ks_skb_mem s' = ks_skb_mem s \<and> ((\<forall>n. ks_skb_mem s n) \<longrightarrow> lost_acks s' = lost_acks s)"
  proof (cases op)
    case (Add_Ack r)
    then have p: "rp_peer (ks_rpcs s r) = p" using assms(2) by (simp add: ops_for_def)
    then show ?thesis
      using assms(1,3) Add_Ack
      by (auto simp: homa_peer_add_ack_def Let_def xmits_homa_xmit_control acked_by_def ack_of_def sent_acks_def lost_acks_def)
  next
    case (Get_Acks n)
    let ?acks = "pe_acks (ks_peers s p)" and ?k = "length (pe_acks (ks_peers s p)) - min n (length (pe_acks (ks_peers s p)))"
    have "mset (take ?k ?acks) + mset (drop ?k ?acks) = mset ?acks"
      by (metis append_take_drop_id mset_append)
    then show ?thesis
      using assms(1,3) Get_Acks by (auto simp: homa_peer_get_acks_def Let_def sent_acks_def lost_acks_def split: if_splits)
  qed
  then show "ks_rpcs s' = ks_rpcs s" and "length (pe_acks (ks_peers s' p)) \<le> HOMA_MAX_ACKS_PER_PKT"
    and "mset (pe_acks (ks_peers s' p)) + mset acks + mset (sent_acks s') + mset (lost_acks s') =
         mset (pe_acks (ks_peers s p)) + mset (added s [op]) + mset (sent_acks s) + mset (lost_acks s)"
    and "ks_skb_mem s' = ks_skb_mem s" and "\<forall>n. ks_skb_mem s n \<Longrightarrow> lost_acks s' = lost_acks s"
    by simp_all
qed

lemma added_cong: "ks_rpcs s' = ks_rpcs s \<Longrightarrow> added s' ops = added s ops"
  by (induction s ops rule: added.induct) (simp_all add: ack_of_def)

text \<open>
  C25: What becomes of acknowledgements.  After any sequence of completed RPCs that are added
  for a peer and requests for acknowledgements to put into packets, every added one is still with
  the peer, has been handed out, has gone into an ACK packet (which also acknowledges the RPC of
  its header), or was in an ACK packet for which there was no memory, each exactly once.  So acks are lost only
  together with such a packet (\<open>homa_peer_add_ack\<close> ignores that it was not sent), and none is lost while there is
  memory.  The peer never holds more than fit into a packet.
\<close>

theorem homa_peer_acks_conserved:
  assumes "run_acks p ops s = (s', taken)" and "\<forall>r. Add_Ack r \<in> set ops \<longrightarrow> rp_peer (ks_rpcs s r) = p"
    and "length (pe_acks (ks_peers s p)) \<le> HOMA_MAX_ACKS_PER_PKT"
  shows "length (pe_acks (ks_peers s' p)) \<le> HOMA_MAX_ACKS_PER_PKT \<and>
    mset (pe_acks (ks_peers s' p)) + mset taken + mset (sent_acks s') + mset (lost_acks s') =
    mset (pe_acks (ks_peers s p)) + mset (added s ops) + mset (sent_acks s) + mset (lost_acks s) \<and>
    ((\<forall>n. ks_skb_mem s n) \<longrightarrow> lost_acks s' = lost_acks s)"
proof -
  have "ops_for p s ops" using assms(2) by (simp add: ops_for_def)
  then show ?thesis using assms(1,3)
  proof (induction ops arbitrary: s taken)
    case (Cons op ops)
    obtain s1 acks where step: "ack_step p op s = (s1, acks)" by fastforce
    obtain taken' where rest: "run_acks p ops s1 = (s', taken')" "taken = acks @ taken'"
      using Cons.prems(2) step by (auto split: prod.splits)
    have "ops_for p s [op]" using Cons.prems(1) by (simp add: ops_for_def)
    note one = ack_step_effect [OF step this Cons.prems(3)]
    have "ops_for p s1 ops" using Cons.prems(1) by (simp add: ops_for_def one(1))
    note IH = Cons.IH [OF this rest(1) one(2)]
    have "added s (op # ops) = added s [op] @ added s1 ops"
      by (cases op) (simp_all add: added_cong [OF one(1)])
    then show ?case using IH one(3-5) by (simp add: rest(2) ac_simps)
  qed simp
qed

theorem homa_peer_acks_conserved_witness:
  "let s = upd_rpc 5 (\<lambda>r. r\<lparr>rp_id := 10, rp_dport := 80, rp_peer := 3\<rparr>) kstate_zero;
       (s', taken) = run_acks 3 [Add_Ack 5, Get_Acks 1] s in
   mset (pe_acks (ks_peers s' 3)) + mset taken + mset (sent_acks s') = {#\<lparr>ak_client_id = 10, ak_server_port = 80\<rparr>#}"
proof -
  let ?s = "upd_rpc 5 (\<lambda>r. r\<lparr>rp_id := 10, rp_dport := 80, rp_peer := 3\<rparr>) kstate_zero"
  obtain s' taken where run: "run_acks 3 [Add_Ack 5, Get_Acks 1] ?s = (s', taken)" by fastforce
  have "pe_acks (ks_peers ?s 3) = []" "sent_acks ?s = []" "lost_acks ?s = []" "\<forall>n. ks_skb_mem ?s n"
    by (simp_all add: zero_defs sent_acks_def lost_acks_def)
  then show ?thesis
    using homa_peer_acks_conserved [OF run] unfolding Let_def run prod.case by (auto simp: ack_of_def)
qed

end
