(* ===== verification/Homa_Sock.thy ===== *)
theory Homa_Sock
imports Homa_State
begin

text \<open>
  The table of sockets (\<open>homa_sock.c\<close>, \<open>homa_sock.h\<close>): finding the socket of a port, choosing a
  client port, binding a server port, and scans over the table that stay valid while sockets
  come and go.
\<close>

unbundle bit_operations_syntax

section \<open>Hash functions\<close>

definition HOMA_SOCKTAB_BUCKETS :: nat where "HOMA_SOCKTAB_BUCKETS = 1024"
definition HOMA_MIN_DEFAULT_PORT :: u16 where "HOMA_MIN_DEFAULT_PORT = 0x8000"

definition homa_port_hash :: "u16 \<Rightarrow> nat" where
  "homa_port_hash port = unat (port AND 1023)"

definition homa_client_rpc_bucket :: "u64 \<Rightarrow> nat" where
  "homa_client_rpc_bucket rpc_id = unat (drop_bit 1 rpc_id AND 1023)"

definition homa_server_rpc_bucket :: "u64 \<Rightarrow> nat" where
  "homa_server_rpc_bucket rpc_id = unat (drop_bit 1 rpc_id AND 1023)"

section \<open>Lookup\<close>

abbreviation sock_port :: "kstate \<Rightarrow> sock_ptr \<Rightarrow> u16" where
  "sock_port s h \<equiv> hs_port (ks_socks s h)"

abbreviation sock_buckets :: "kstate \<Rightarrow> nat \<Rightarrow> sock_ptr list" where
  "sock_buckets s \<equiv> st_buckets (ks_socktab s)"

definition homa_sock_find :: "u16 \<Rightarrow> kstate \<Rightarrow> sock_ptr option" where
  "homa_sock_find port s = find (\<lambda>h. sock_port s h = port) (sock_buckets s (homa_port_hash port))"

text \<open>The comparison of the remote host of a socket with the sender of a packet.\<close>

definition remote_matches :: "sockaddr_in_union \<Rightarrow> homa_sock \<Rightarrow> bool" where
  "remote_matches remote hsk \<longleftrightarrow> hs_family hsk = sa_fam remote \<and>
     (if hs_family hsk = AF_INET then
        sa_port (hs_remote_host hsk) = sa_port remote \<and> sa_in4 (hs_remote_host hsk) = sa_in4 remote
      else if hs_family hsk = AF_INET6 then
        sa_port (hs_remote_host hsk) = sa_port remote \<and> sa_in6 (hs_remote_host hsk) = sa_in6 remote
      else False)"

fun find_connected :: "kstate \<Rightarrow> sockaddr_in_union \<Rightarrow> u16 \<Rightarrow> sock_ptr list \<Rightarrow> sock_ptr option \<Rightarrow> sock_ptr option" where
  "find_connected s remote port [] listen = listen"
| "find_connected s remote port (h # hs) listen =
     (if sock_port s h = port \<and> remote_matches remote (ks_socks s h) then Some h
      else find_connected s remote port hs
        (if sock_port s h = port \<and> \<not> hs_connect (ks_socks s h) then Some h else listen))"

definition homa_sock_find_connected :: "sockaddr_in_union \<Rightarrow> u16 \<Rightarrow> kstate \<Rightarrow> sock_ptr option" where
  "homa_sock_find_connected remote port s =
     find_connected s remote port (sock_buckets s (homa_port_hash port)) None"

section \<open>Scans\<close>

text \<open>\<open>hlist_next_rcu\<close> of the links of a socket: the next one in the chain it is linked in.\<close>

definition sock_next :: "kstate \<Rightarrow> sock_ptr \<Rightarrow> sock_ptr option" where
  "sock_next s h = (case behind h (sock_buckets s (homa_port_hash (sock_port s h))) of [] \<Rightarrow> None | x # _ \<Rightarrow> Some x)"

text \<open>The inner loop of \<open>homa_socktab_next\<close> from bucket \<open>b\<close> on.\<close>

function scan_from :: "(nat \<Rightarrow> sock_ptr list) \<Rightarrow> nat \<Rightarrow> nat \<times> sock_ptr option" where
  "scan_from buckets b =
     (if b \<ge> HOMA_SOCKTAB_BUCKETS then (b, None)
      else case buckets b of [] \<Rightarrow> scan_from buckets (b + 1) | h # _ \<Rightarrow> (b, Some h))"
  by pat_completeness auto
termination
  by (relation "measure (\<lambda>(_, b). HOMA_SOCKTAB_BUCKETS - b)") auto

declare scan_from.simps [simp del]

definition upd_scan :: "nat \<Rightarrow> (homa_socktab_scan \<Rightarrow> homa_socktab_scan) \<Rightarrow> kstate \<Rightarrow> kstate" where
  "upd_scan i f s = upd_socktab (\<lambda>t. t\<lparr>st_scans := (st_scans t)(i := f (st_scans t i))\<rparr>) s"

definition homa_socktab_next :: "nat \<Rightarrow> kstate \<Rightarrow> sock_ptr option \<times> kstate" where
  "homa_socktab_next i s =
     (let scan = st_scans (ks_socktab s) i;
          (b, links) = (case sc_next scan of
             Some h \<Rightarrow> (sc_current_bucket scan, Some h)
           | None \<Rightarrow> (let (b, h) = scan_from (sock_buckets s) (nat (sc_current_bucket scan + 1)) in (int b, h)))
      in case links of
           None \<Rightarrow> (None, upd_scan i (\<lambda>sc. sc\<lparr>sc_current_bucket := b\<rparr>) s)
         | Some h \<Rightarrow> (Some h, upd_scan i (\<lambda>sc. sc\<lparr>sc_current_bucket := b, sc_next := sock_next s h\<rparr>) s))"

definition homa_socktab_start_scan :: "nat \<Rightarrow> kstate \<Rightarrow> sock_ptr option \<times> kstate" where
  "homa_socktab_start_scan i s =
     (let s = upd_scan i (\<lambda>_. \<lparr>sc_current_bucket = -1, sc_next = None\<rparr>) s;
          s = upd_socktab (\<lambda>t. t\<lparr>st_active_scans := st_active_scans t @ [i]\<rparr>) s
      in homa_socktab_next i s)"

definition homa_socktab_end_scan :: "nat \<Rightarrow> kstate \<Rightarrow> kstate" where
  "homa_socktab_end_scan i s = upd_socktab (\<lambda>t. t\<lparr>st_active_scans := remove1 i (st_active_scans t)\<rparr>) s"

section \<open>Linking and unlinking\<close>

definition homa_socktab_init :: "homa_socktab \<Rightarrow> homa_socktab" where
  "homa_socktab_init t = t\<lparr>st_buckets := (\<lambda>_. []), st_active_scans := []\<rparr>"

definition sock_link :: "sock_ptr \<Rightarrow> kstate \<Rightarrow> kstate" where
  "sock_link h s = (let b = homa_port_hash (sock_port s h) in
     upd_socktab (\<lambda>t. t\<lparr>st_buckets := (st_buckets t)(b := h # st_buckets t b)\<rparr>) s)"

definition sock_del :: "sock_ptr \<Rightarrow> kstate \<Rightarrow> kstate" where
  "sock_del h s = (let b = homa_port_hash (sock_port s h) in
     upd_socktab (\<lambda>t. t\<lparr>st_buckets := (st_buckets t)(b := remove1 h (st_buckets t b))\<rparr>) s)"

definition homa_sock_unlink :: "sock_ptr \<Rightarrow> kstate \<Rightarrow> kstate" where
  "homa_sock_unlink h s =
     (let s' = upd_socktab (\<lambda>t. t\<lparr>st_scans := (\<lambda>i.
            if i \<in> set (st_active_scans t) \<and> sc_next (st_scans t i) = Some h
            then (st_scans t i)\<lparr>sc_next := sock_next s h\<rparr> else st_scans t i)\<rparr>) s
      in sock_del h s')"

section \<open>Ports\<close>

text \<open>The search for a client port in \<open>homa_sock_init\<close>; None when the fuel is used up.\<close>

fun pick_port :: "nat \<Rightarrow> kstate \<Rightarrow> u16 \<Rightarrow> u16 option" where
  "pick_port 0 s port = None"
| "pick_port (Suc fuel) s port =
     (let port = (if port < HOMA_MIN_DEFAULT_PORT then HOMA_MIN_DEFAULT_PORT else port) in
      if homa_sock_find port s = None then Some port else pick_port fuel s (port + 1))"

definition homa_sock_init :: "nat \<Rightarrow> bool \<Rightarrow> sock_ptr \<Rightarrow> kstate \<Rightarrow> (errno option \<times> kstate) option" where
  "homa_sock_init fuel kzalloc_ok h s =
     map_option (\<lambda>port.
       let s = upd_homa (\<lambda>hm. hm\<lparr>h_next_client_port := port + 1\<rparr>) s;
           s = upd_sock h (\<lambda>k. k\<lparr>hs_protect_count := 0,
                 hs_ip_header_length := (if hs_family k = AF_INET then 20 else 40),
                 hs_shutdown := False, hs_port := port, hs_connect := False,
                 hs_remote_host := (hs_remote_host k)\<lparr>sa_fam := AF_OTHER 0, sa_port := 0, sa_in4 := 0\<rparr>,
                 hs_active_rpcs := [], hs_dead_rpcs := [], hs_dead_skbs := 0, hs_waiting_for_bufs := [],
                 hs_ready_requests := [], hs_ready_responses := [],
                 hs_request_interests := [], hs_response_interests := [],
                 hs_client_rpc_buckets := (\<lambda>_. []), hs_server_rpc_buckets := (\<lambda>_. []),
                 hs_buffer_pool := (if kzalloc_ok then Some pool_zero else None),
                 hs_is_tcp := h_hijack_tcp (ks_homa s) \<or> hs_is_tcp k\<rparr>) s
       in (if kzalloc_ok then None else Some ENOMEM, sock_link h s))
     (pick_port fuel s (h_next_client_port (ks_homa s)))"

definition homa_sock_bind :: "sock_ptr \<Rightarrow> u16 \<Rightarrow> kstate \<Rightarrow> errno option \<times> kstate" where
  "homa_sock_bind h port s =
     (if port = 0 then (None, s)
      else if port \<ge> HOMA_MIN_DEFAULT_PORT then (Some EINVAL, s)
      else if hs_shutdown (ks_socks s h) then (Some ESHUTDOWN, s)
      else case homa_sock_find port s of
             Some owner \<Rightarrow> (if owner \<noteq> h then Some EADDRINUSE else None, s)
           | None \<Rightarrow> (None, sock_link h (upd_sock h (\<lambda>k. k\<lparr>hs_port := port\<rparr>) (sock_del h s))))"

section \<open>Invariant\<close>

text \<open>Every socket is in the chain of its port, once.\<close>

definition socktab_inv :: "kstate \<Rightarrow> bool" where
  "socktab_inv s \<longleftrightarrow> (\<forall>b. distinct (sock_buckets s b) \<and> (\<forall>h \<in> set (sock_buckets s b). homa_port_hash (sock_port s h) = b))"

definition sock_linked :: "kstate \<Rightarrow> sock_ptr \<Rightarrow> bool" where
  "sock_linked s h \<longleftrightarrow> h \<in> set (sock_buckets s (homa_port_hash (sock_port s h)))"

lemma socktab_invD:
  assumes "socktab_inv s"
  shows "distinct (sock_buckets s b)" and "h \<in> set (sock_buckets s b) \<Longrightarrow> homa_port_hash (sock_port s h) = b"
  using assms unfolding socktab_inv_def by blast+

lemma socktab_same:
  "sock_buckets s' = sock_buckets s \<Longrightarrow> ks_socks s' = ks_socks s \<Longrightarrow> socktab_inv s' = socktab_inv s \<and> sock_linked s' h = sock_linked s h"
  by (simp add: socktab_inv_def sock_linked_def)

lemma in_bucket: "socktab_inv s \<Longrightarrow> h \<in> set (sock_buckets s b) \<longleftrightarrow> sock_linked s h \<and> b = homa_port_hash (sock_port s h)"
  using socktab_invD(2) unfolding sock_linked_def by blast

lemma find_Some_port:
  "homa_sock_find port s = Some h \<Longrightarrow> sock_port s h = port \<and> h \<in> set (sock_buckets s (homa_port_hash port))"
  by (auto simp: homa_sock_find_def find_Some_iff)

lemma find_None_port:
  "socktab_inv s \<Longrightarrow> homa_sock_find port s = None \<longleftrightarrow> (\<forall>h. sock_linked s h \<longrightarrow> sock_port s h \<noteq> port)"
  unfolding homa_sock_find_def find_None_iff using in_bucket by blast

lemma port_hash_bound: "homa_port_hash port < HOMA_SOCKTAB_BUCKETS"
proof -
  have "port AND 1023 \<le> (1023 :: u16)" by (rule word_and_le1)
  then show ?thesis by (simp add: homa_port_hash_def HOMA_SOCKTAB_BUCKETS_def word_le_nat_alt)
qed

lemma sock_link_effect:
  assumes "socktab_inv s" and "\<not> sock_linked s h"
  shows "socktab_inv (sock_link h s)" and "sock_linked (sock_link h s) x \<longleftrightarrow> x = h \<or> sock_linked s x"
    and "ks_socks (sock_link h s) = ks_socks s"
proof -
  show socks: "ks_socks (sock_link h s) = ks_socks s" by (simp add: sock_link_def Let_def)
  have buckets: "sock_buckets (sock_link h s) b =
      (if b = homa_port_hash (sock_port s h) then h # sock_buckets s b else sock_buckets s b)" for b
    by (simp add: sock_link_def Let_def)
  show "sock_linked (sock_link h s) x \<longleftrightarrow> x = h \<or> sock_linked s x"
    by (auto simp: sock_linked_def buckets socks)
  show "socktab_inv (sock_link h s)"
    unfolding socktab_inv_def socks buckets
    using socktab_invD [OF assms(1)] assms(2) by (auto simp: sock_linked_def)
qed

lemma sock_del_effect:
  assumes "socktab_inv s"
  shows "socktab_inv (sock_del h s)" and "sock_linked (sock_del h s) x \<longleftrightarrow> x \<noteq> h \<and> sock_linked s x"
    and "ks_socks (sock_del h s) = ks_socks s"
proof -
  note D = socktab_invD [OF assms]
  show socks: "ks_socks (sock_del h s) = ks_socks s" by (simp add: sock_del_def Let_def)
  have buckets: "sock_buckets (sock_del h s) b =
      (if b = homa_port_hash (sock_port s h) then remove1 h (sock_buckets s b) else sock_buckets s b)" for b
    by (simp add: sock_del_def Let_def)
  have set: "set (sock_buckets (sock_del h s) b) = set (sock_buckets s b) - {h}" for b
    using D(1) [of b] D(2) [of h b] by (cases "b = homa_port_hash (sock_port s h)") (auto simp: buckets)
  show "sock_linked (sock_del h s) x \<longleftrightarrow> x \<noteq> h \<and> sock_linked s x"
    unfolding sock_linked_def set socks by blast
  have "distinct (sock_buckets (sock_del h s) b)" for b using D(1) [of b] by (auto simp: buckets)
  then show "socktab_inv (sock_del h s)"
    unfolding socktab_inv_def set socks using D(2) by blast
qed

text \<open>Fields of a socket that is not linked can change.\<close>

lemma socktab_relabel:
  assumes inv: "socktab_inv s" and "\<not> sock_linked s h"
    and buckets: "sock_buckets s2 = sock_buckets s" and same: "\<And>x. x \<noteq> h \<Longrightarrow> sock_port s2 x = sock_port s x"
  shows "socktab_inv s2" and "sock_linked s2 x \<longleftrightarrow> x \<noteq> h \<and> sock_linked s x"
proof -
  have notin: "h \<notin> set (sock_buckets s b)" for b
    using in_bucket [OF inv, of h b] assms(2) by blast
  show "sock_linked s2 x \<longleftrightarrow> x \<noteq> h \<and> sock_linked s x"
    using same [of x] notin by (cases "x = h") (simp_all add: sock_linked_def buckets)
  have "homa_port_hash (sock_port s2 x) = b" if "x \<in> set (sock_buckets s b)" for x b
    using that notin [of b] same [of x] socktab_invD(2) [OF inv that] by (cases "x = h") simp_all
  then show "socktab_inv s2"
    using socktab_invD(1) [OF inv] by (simp add: socktab_inv_def buckets)
qed

lemma u16_less: "unat (p :: u16) < 65536"
  using unsigned_less [of p] by simp

section \<open>Properties of ports\<close>

text \<open>
  C27: \<open>homa_sock_bind\<close> on every branch: port 0 changes nothing, a port of the client range, a shut down
  socket and a port of another socket are refused without a change, and otherwise the socket, and no
  other, is found under the new port and no longer under its old one, all other sockets keep their
  ports, and the table stays consistent.
\<close>

theorem homa_sock_bind_correct:
  assumes "socktab_inv s" and "homa_sock_bind h port s = (result, s')"
  shows "socktab_inv s' \<and> (result \<noteq> None \<longrightarrow> s' = s) \<and>
    (port = 0 \<longrightarrow> result = None \<and> s' = s) \<and>
    (port \<ge> HOMA_MIN_DEFAULT_PORT \<longrightarrow> result = Some EINVAL) \<and>
    (0 < port \<and> port < HOMA_MIN_DEFAULT_PORT \<longrightarrow>
      (hs_shutdown (ks_socks s h) \<longrightarrow> result = Some ESHUTDOWN) \<and>
      (\<not> hs_shutdown (ks_socks s h) \<longrightarrow>
        (\<forall>owner. homa_sock_find port s = Some owner \<and> owner \<noteq> h \<longrightarrow> result = Some EADDRINUSE) \<and>
        (homa_sock_find port s = Some h \<longrightarrow> result = None \<and> s' = s) \<and>
        (homa_sock_find port s = None \<longrightarrow> result = None \<and> homa_sock_find port s' = Some h \<and>
          (\<forall>p. p \<noteq> port \<longrightarrow> homa_sock_find p s' \<noteq> Some h) \<and>
          (\<forall>x. x \<noteq> h \<longrightarrow> hs_port (ks_socks s' x) = hs_port (ks_socks s x) \<and> sock_linked s' x = sock_linked s x))))"
proof (cases "port = 0 \<or> port \<ge> HOMA_MIN_DEFAULT_PORT \<or> hs_shutdown (ks_socks s h) \<or> homa_sock_find port s \<noteq> None")
  case True
  then show ?thesis
    using assms unfolding homa_sock_bind_def
    by (auto simp: HOMA_MIN_DEFAULT_PORT_def split: if_splits)
next
  case False
  let ?s1 = "sock_del h s" and ?s2 = "upd_sock h (\<lambda>k. k\<lparr>hs_port := port\<rparr>) (sock_del h s)"
  note del = sock_del_effect [OF assms(1), of h]
  have res: "result = None" "s' = sock_link h ?s2"
    using assms(2) False by (simp_all add: homa_sock_bind_def)
  have same: "sock_port ?s2 x = sock_port s x" if "x \<noteq> h" for x using that del(3) by simp
  have "\<not> sock_linked ?s1 h" by (simp add: del(2))
  note relabel = socktab_relabel [OF del(1) this, of ?s2]
  have inv2: "socktab_inv ?s2" by (rule relabel(1)) simp_all
  have linked2: "sock_linked ?s2 x \<longleftrightarrow> x \<noteq> h \<and> sock_linked s x" for x
    using relabel(2) [of x] del(2) [of x] by simp
  have "\<not> sock_linked ?s2 h" by (simp add: linked2)
  note link = sock_link_effect [OF inv2 this]
  have linked: "sock_linked s' x \<longleftrightarrow> x = h \<or> sock_linked s x" for x
    unfolding res(2) link(2) linked2 by blast
  have socks: "ks_socks s' = ks_socks ?s2" unfolding res(2) by (rule link(3))
  have "sock_buckets s' (homa_port_hash port) = h # sock_buckets ?s2 (homa_port_hash port)"
    unfolding res(2) by (simp add: sock_link_def Let_def)
  then have "homa_sock_find port s' = Some h"
    by (simp add: homa_sock_find_def socks)
  moreover have "homa_sock_find p s' \<noteq> Some h" if "p \<noteq> port" for p
    using that find_Some_port [of p s' h] by (auto simp: socks)
  ultimately show ?thesis
    using False res(1) link(1) linked same by (auto simp: res(2) [symmetric] socks)
qed

definition sock_example :: kstate where
  "sock_example = kstate_zero\<lparr>ks_socks := (\<lambda>_. sock_zero)(1 := sock_zero\<lparr>hs_port := 5\<rparr>, 2 := sock_zero\<lparr>hs_port := 1029\<rparr>,
       3 := sock_zero\<lparr>hs_port := 2053\<rparr>),
     ks_socktab := (ks_socktab kstate_zero)\<lparr>st_buckets := (\<lambda>_. [])(5 := [1, 2, 3])\<rparr>\<rparr>"

lemma sock_example_inv: "socktab_inv sock_example"
  by (simp add: socktab_inv_def sock_example_def kstate_zero_def homa_port_hash_def)

theorem homa_sock_bind_correct_witness:
  "homa_sock_find 7 (snd (homa_sock_bind 2 7 sock_example)) = Some 2"
proof -
  have "homa_sock_find 7 sock_example = None"
    by (simp add: homa_sock_find_def sock_example_def kstate_zero_def homa_port_hash_def)
  moreover have "\<not> hs_shutdown (ks_socks sock_example 2)" by (simp add: sock_example_def sock_zero_def)
  ultimately show ?thesis
    using homa_sock_bind_correct [OF sock_example_inv prod.collapse [symmetric], of 2 7]
    by (simp add: HOMA_MIN_DEFAULT_PORT_def)
qed

subsection \<open>Client ports\<close>

abbreviation min_port :: "u16 \<Rightarrow> u16" where
  "min_port p \<equiv> (if p < HOMA_MIN_DEFAULT_PORT then HOMA_MIN_DEFAULT_PORT else p)"

lemma pick_port_min: "pick_port fuel s (min_port port) = pick_port fuel s port"
  by (cases fuel) (auto simp: Let_def)

lemma pick_port_found:
  "pick_port fuel s port = Some p \<Longrightarrow> HOMA_MIN_DEFAULT_PORT \<le> p \<and> homa_sock_find p s = None"
  by (induction fuel arbitrary: port) (auto simp: Let_def split: if_splits)

lemma pick_port_none:
  "\<forall>p \<ge> HOMA_MIN_DEFAULT_PORT. homa_sock_find p s \<noteq> None \<Longrightarrow> pick_port fuel s port = None"
proof (induction fuel arbitrary: port)
  case (Suc fuel)
  have "homa_sock_find (min_port port) s \<noteq> None" using Suc.prems by auto
  then show ?case using Suc by (simp add: Let_def)
qed simp

lemma pick_port_mono: "pick_port n s port = Some p \<Longrightarrow> n \<le> m \<Longrightarrow> pick_port m s port = Some p"
proof (induction n arbitrary: m port)
  case (Suc n)
  then obtain k where "m = Suc k" "n \<le> k" by (cases m) auto
  then show ?case using Suc by (auto simp: Let_def split: if_splits)
qed simp

text \<open>Upwards from a port to the free port \<open>q\<close>.\<close>

lemma pick_port_up:
  assumes "homa_sock_find q s = None" and "HOMA_MIN_DEFAULT_PORT \<le> port" and "unat q = unat port + k"
  shows "pick_port (Suc k) s port \<noteq> None"
  using assms(2,3)
proof (induction k arbitrary: port)
  case 0
  then have "q = port" by (simp add: word_unat_eq_iff)
  then show ?case using 0 assms(1) by (auto simp: Let_def)
next
  case (Suc k)
  have "unat port + 1 < 2 ^ 16" using Suc.prems(2) u16_less [of q] by simp
  then have up: "unat (port + 1) = unat port + 1" by (simp add: unat_word_ariths)
  then have "HOMA_MIN_DEFAULT_PORT \<le> port + 1" using Suc.prems(1) up by (simp add: word_le_nat_alt)
  then have "pick_port (Suc k) s (port + 1) \<noteq> None"
    using Suc.IH [of "port + 1"] Suc.prems(2) up by simp
  then show ?case using Suc.prems(1) by (auto simp: Let_def)
qed

text \<open>Upwards to the end of the range, and on from its start.\<close>

lemma pick_port_wrap:
  assumes "homa_sock_find q s = None" and "HOMA_MIN_DEFAULT_PORT \<le> q"
    and "HOMA_MIN_DEFAULT_PORT \<le> port" and "unat port + k = 65535"
  shows "pick_port (k + 32769) s port \<noteq> None"
  using assms(3,4)
proof (induction k arbitrary: port)
  case 0
  have bound: "unat q - 32768 \<le> 32767" "32768 \<le> unat q"
    using u16_less [of q] assms(2) by (simp_all add: HOMA_MIN_DEFAULT_PORT_def word_le_nat_alt)
  have "port + 1 = 0" using 0 by (simp add: word_unat_eq_iff unat_word_ariths)
  moreover have "pick_port (Suc (unat q - 32768)) s HOMA_MIN_DEFAULT_PORT \<noteq> None"
    using bound assms(1) by (intro pick_port_up [of q]) (simp_all add: HOMA_MIN_DEFAULT_PORT_def)
  then have "pick_port 32768 s HOMA_MIN_DEFAULT_PORT \<noteq> None"
    using pick_port_mono [of "Suc (unat q - 32768)" s HOMA_MIN_DEFAULT_PORT _ 32768] bound by fastforce
  then have "pick_port 32768 s 0 \<noteq> None"
    using pick_port_min [of 32768 s 0] by (simp add: HOMA_MIN_DEFAULT_PORT_def)
  ultimately have "pick_port (Suc 32768) s port \<noteq> None"
    using 0(1) unfolding pick_port.simps(2) Let_def by auto
  then show ?case by simp
next
  case (Suc k)
  then have "unat (port + 1) = unat port + 1" by (simp add: unat_word_ariths)
  then have "pick_port (k + 32769) s (port + 1) \<noteq> None"
    using Suc.IH [of "port + 1"] Suc.prems by (simp add: word_le_nat_alt)
  then have "pick_port (Suc (k + 32769)) s port \<noteq> None"
    using Suc.prems(1) unfolding pick_port.simps(2) Let_def by auto
  then show ?case by simp
qed

text \<open>
  C30: The search for a client port in \<open>homa_sock_init\<close> ends exactly if some port of the client range is
  free, within 65536 steps; the new socket then has a port of that range that no socket had, is found
  under it, and the table stays consistent.  If every client port is in use, the loop runs forever
  (with the table locked).
\<close>

theorem homa_sock_init_port:
  assumes "socktab_inv s" and "\<not> sock_linked s h"
  shows "((\<exists>p \<ge> HOMA_MIN_DEFAULT_PORT. homa_sock_find p s = None) \<longrightarrow>
      (\<exists>result s'. homa_sock_init 65537 kzalloc_ok h s = Some (result, s') \<and> socktab_inv s' \<and>
         HOMA_MIN_DEFAULT_PORT \<le> hs_port (ks_socks s' h) \<and> homa_sock_find (hs_port (ks_socks s' h)) s = None \<and>
         homa_sock_find (hs_port (ks_socks s' h)) s' = Some h \<and>
         (result = None \<longleftrightarrow> kzalloc_ok) \<and> (\<forall>x. x \<noteq> h \<longrightarrow> ks_socks s' x = ks_socks s x))) \<and>
    ((\<forall>p \<ge> HOMA_MIN_DEFAULT_PORT. homa_sock_find p s \<noteq> None) \<longrightarrow> (\<forall>fuel. homa_sock_init fuel kzalloc_ok h s = None))"
proof (intro conjI impI)
  assume "\<exists>p \<ge> HOMA_MIN_DEFAULT_PORT. homa_sock_find p s = None"
  then obtain q where q: "HOMA_MIN_DEFAULT_PORT \<le> q" "homa_sock_find q s = None" by blast
  let ?start = "min_port (h_next_client_port (ks_homa s))"
  have start: "HOMA_MIN_DEFAULT_PORT \<le> ?start" "unat ?start \<le> 65535" "32768 \<le> unat ?start"
    using u16_less [of ?start] by (auto simp: HOMA_MIN_DEFAULT_PORT_def word_le_nat_alt word_less_nat_alt)
  then have "pick_port (65535 - unat ?start + 32769) s ?start \<noteq> None"
    by (intro pick_port_wrap [OF q(2,1) start(1)]) simp
  then obtain port where "pick_port (65535 - unat ?start + 32769) s ?start = Some port" by blast
  then have "pick_port 65537 s ?start = Some port"
    using start(3) by (elim pick_port_mono) simp
  then have pick: "pick_port 65537 s (h_next_client_port (ks_homa s)) = Some port"
    by (simp only: pick_port_min)
  obtain result s2 where init: "homa_sock_init 65537 kzalloc_ok h s = Some (result, sock_link h s2)"
    and s2: "sock_port s2 h = port" "\<And>x. x \<noteq> h \<Longrightarrow> ks_socks s2 x = ks_socks s x" "sock_buckets s2 = sock_buckets s"
      "result = None \<longleftrightarrow> kzalloc_ok"
    unfolding homa_sock_init_def pick by (auto simp: Let_def)
  have "sock_port s2 x = sock_port s x" if "x \<noteq> h" for x using s2(2) that by simp
  note relabel = socktab_relabel [OF assms s2(3) this]
  have "\<not> sock_linked s2 h" using relabel(2) [of h] by blast
  note link = sock_link_effect [OF relabel(1) this]
  have "sock_buckets (sock_link h s2) (homa_port_hash port) = h # sock_buckets s2 (homa_port_hash port)"
    by (simp add: sock_link_def Let_def s2(1))
  then have found: "homa_sock_find port (sock_link h s2) = Some h"
    by (simp add: homa_sock_find_def link(3) s2(1))
  show "\<exists>result s'. homa_sock_init 65537 kzalloc_ok h s = Some (result, s') \<and> socktab_inv s' \<and>
         HOMA_MIN_DEFAULT_PORT \<le> hs_port (ks_socks s' h) \<and> homa_sock_find (hs_port (ks_socks s' h)) s = None \<and>
         homa_sock_find (hs_port (ks_socks s' h)) s' = Some h \<and>
         (result = None \<longleftrightarrow> kzalloc_ok) \<and> (\<forall>x. x \<noteq> h \<longrightarrow> ks_socks s' x = ks_socks s x)"
    using init link(1,3) s2 found pick_port_found [OF pick] by auto
next
  assume "\<forall>p \<ge> HOMA_MIN_DEFAULT_PORT. homa_sock_find p s \<noteq> None"
  then show "\<forall>fuel. homa_sock_init fuel kzalloc_ok h s = None"
    by (simp add: homa_sock_init_def pick_port_none)
qed

theorem homa_sock_init_port_witness:
  "\<exists>s'. homa_sock_init 65537 True 4 sock_example = Some (None, s') \<and> HOMA_MIN_DEFAULT_PORT \<le> hs_port (ks_socks s' 4)"
proof -
  have free: "\<not> sock_linked sock_example 4"
    by (simp add: sock_linked_def sock_example_def kstate_zero_def)
  have "homa_sock_find HOMA_MIN_DEFAULT_PORT sock_example = None"
    by (simp add: homa_sock_find_def sock_example_def kstate_zero_def homa_port_hash_def HOMA_MIN_DEFAULT_PORT_def)
  then show ?thesis
    using homa_sock_init_port [OF sock_example_inv free, of True] by fastforce
qed

subsection \<open>Demultiplexing\<close>

lemma find_connected_Some:
  assumes "find_connected s remote port hs listen = Some h"
  shows "h \<in> set hs \<and> sock_port s h = port \<and> remote_matches remote (ks_socks s h) \<or>
    (\<forall>x \<in> set hs. sock_port s x = port \<longrightarrow> \<not> remote_matches remote (ks_socks s x)) \<and>
    (listen = Some h \<or> h \<in> set hs \<and> sock_port s h = port \<and> \<not> hs_connect (ks_socks s h))"
  using assms by (induction hs arbitrary: listen) (auto split: if_splits)

lemma find_connected_None:
  assumes "find_connected s remote port hs listen = None"
  shows "listen = None \<and> (\<forall>x \<in> set hs. sock_port s x = port \<longrightarrow> \<not> remote_matches remote (ks_socks s x) \<and> hs_connect (ks_socks s x))"
  using assms
proof (induction hs arbitrary: listen)
  case (Cons h hs)
  have no: "\<not> (sock_port s h = port \<and> remote_matches remote (ks_socks s h))"
    using Cons.prems by (cases "sock_port s h = port \<and> remote_matches remote (ks_socks s h)") simp_all
  have "find_connected s remote port hs (if sock_port s h = port \<and> \<not> hs_connect (ks_socks s h) then Some h else listen) = None"
    using Cons.prems unfolding find_connected.simps if_not_P [OF no] .
  from Cons.IH [OF this] show ?case
    using no by (cases "sock_port s h = port \<and> \<not> hs_connect (ks_socks s h)") simp_all
qed simp

text \<open>
  C31: \<open>homa_sock_find_connected\<close> gives a packet to a socket of the right port: to one that is connected to
  the sender if there is one, otherwise to an unconnected (listening) one, and to no socket exactly if
  there is neither; so a socket that is connected to another host never gets it.
\<close>

theorem homa_sock_find_connected_right:
  assumes "socktab_inv s"
  shows "case homa_sock_find_connected remote port s of
      Some h \<Rightarrow> sock_linked s h \<and> hs_port (ks_socks s h) = port \<and>
        (remote_matches remote (ks_socks s h) \<or> \<not> hs_connect (ks_socks s h) \<and>
          (\<forall>x. sock_linked s x \<and> hs_port (ks_socks s x) = port \<longrightarrow> \<not> remote_matches remote (ks_socks s x)))
    | None \<Rightarrow> \<forall>x. sock_linked s x \<and> hs_port (ks_socks s x) = port \<longrightarrow>
        \<not> remote_matches remote (ks_socks s x) \<and> hs_connect (ks_socks s x)"
proof (cases "homa_sock_find_connected remote port s")
  case None
  then show ?thesis
    using find_connected_None [of s remote port] by (auto simp: homa_sock_find_connected_def sock_linked_def)
next
  case (Some h)
  let ?B = "sock_buckets s (homa_port_hash port)"
  consider "h \<in> set ?B" "sock_port s h = port" "remote_matches remote (ks_socks s h)"
    | "\<forall>x \<in> set ?B. sock_port s x = port \<longrightarrow> \<not> remote_matches remote (ks_socks s x)"
      "h \<in> set ?B" "sock_port s h = port" "\<not> hs_connect (ks_socks s h)"
    using find_connected_Some [of s remote port ?B None h] Some unfolding homa_sock_find_connected_def by blast
  then show ?thesis by cases (use Some in \<open>auto simp: sock_linked_def\<close>)
qed

theorem homa_sock_find_connected_right_witness:
  "sock_linked sock_example 2 \<and> homa_sock_find_connected \<lparr>sa_fam = AF_INET, sa_port = 9, sa_in4 = 8, sa_in6 = in6addr_any\<rparr> 1029 sock_example = Some 2"
proof -
  have "homa_sock_find_connected \<lparr>sa_fam = AF_INET, sa_port = 9, sa_in4 = 8, sa_in6 = in6addr_any\<rparr> 1029 sock_example = Some 2"
    by (simp add: homa_sock_find_connected_def sock_example_def kstate_zero_def homa_port_hash_def remote_matches_def sock_zero_def)
  then show ?thesis
    using homa_sock_find_connected_right [OF sock_example_inv, where port = 1029 and
        remote = "\<lparr>sa_fam = AF_INET, sa_port = 9, sa_in4 = 8, sa_in6 = in6addr_any\<rparr>"]
    by simp
qed

section \<open>Scans return every socket that stays\<close>

lemma scan_from_None:
  "scan_from B b = (b', None) \<Longrightarrow> b \<le> c \<Longrightarrow> c < HOMA_SOCKTAB_BUCKETS \<Longrightarrow> B c = []"
proof (induction B b rule: scan_from.induct)
  case (1 B b)
  then have less: "b < HOMA_SOCKTAB_BUCKETS" by simp
  show ?case
  proof (cases "B b")
    case Nil
    then have "scan_from B (b + 1) = (b', None)"
      using 1(2) less by (simp add: scan_from.simps [of B b])
    then show ?thesis using 1 less Nil by (cases "c = b") simp_all
  next
    case (Cons h hs)
    then show ?thesis using 1(2) less by (simp add: scan_from.simps [of B b])
  qed
qed

lemma scan_from_Some:
  "scan_from B b = (b', Some h) \<Longrightarrow>
   b \<le> b' \<and> b' < HOMA_SOCKTAB_BUCKETS \<and> (\<exists>hs. B b' = h # hs) \<and> (\<forall>c. b \<le> c \<and> c < b' \<longrightarrow> B c = [])"
proof (induction B b rule: scan_from.induct)
  case (1 B b)
  have less: "b < HOMA_SOCKTAB_BUCKETS"
  proof (rule ccontr)
    assume "\<not> b < HOMA_SOCKTAB_BUCKETS"
    then show False using 1(2) by (simp add: scan_from.simps [of B b])
  qed
  show ?case
  proof (cases "B b")
    case Nil
    then have "scan_from B (b + 1) = (b', Some h)"
      using 1(2) less by (simp add: scan_from.simps [of B b])
    then have IH: "b + 1 \<le> b' \<and> b' < HOMA_SOCKTAB_BUCKETS \<and> (\<exists>hs. B b' = h # hs) \<and> (\<forall>c. b + 1 \<le> c \<and> c < b' \<longrightarrow> B c = [])"
      using 1(1) less Nil by simp
    have "B c = []" if "b \<le> c" "c < b'" for c using that IH Nil by (cases "c = b") simp_all
    then show ?thesis using IH by simp
  next
    case (Cons x xs)
    then have "b' = b" "h = x" using 1(2) less by (simp_all add: scan_from.simps [of B b])
    then show ?thesis using less Cons by auto
  qed
qed

abbreviation scan_of :: "kstate \<Rightarrow> nat \<Rightarrow> homa_socktab_scan" where
  "scan_of s i \<equiv> st_scans (ks_socktab s) i"

abbreviation sock_hash :: "kstate \<Rightarrow> sock_ptr \<Rightarrow> nat" where
  "sock_hash s h \<equiv> homa_port_hash (sock_port s h)"

text \<open>A scan points to a linked socket of its bucket.\<close>

definition scan_ok :: "kstate \<Rightarrow> nat \<Rightarrow> bool" where
  "scan_ok s i \<longleftrightarrow> socktab_inv s \<and> i \<in> set (st_active_scans (ks_socktab s)) \<and> -1 \<le> sc_current_bucket (scan_of s i) \<and>
     (\<forall>x. sc_next (scan_of s i) = Some x \<longrightarrow> sock_linked s x \<and> int (sock_hash s x) = sc_current_bucket (scan_of s i))"

text \<open>The sockets that the scan has not reached yet.\<close>

definition ahead :: "kstate \<Rightarrow> nat \<Rightarrow> sock_ptr \<Rightarrow> bool" where
  "ahead s i h \<longleftrightarrow> sock_linked s h \<and>
     (sc_current_bucket (scan_of s i) < int (sock_hash s h) \<or>
      (\<exists>x. sc_next (scan_of s i) = Some x \<and> sock_hash s h = sock_hash s x \<and>
         (h = x \<or> h \<in> set (behind x (sock_buckets s (sock_hash s x))))))"

lemma upd_scan_sel [simp]:
  "ks_socks (upd_scan i f s) = ks_socks s" "sock_buckets (upd_scan i f s) = sock_buckets s"
  "st_active_scans (ks_socktab (upd_scan i f s)) = st_active_scans (ks_socktab s)"
  "scan_of (upd_scan i f s) i = f (scan_of s i)"
  by (simp_all add: upd_scan_def)

lemma upd_scan_inv [simp]: "socktab_inv (upd_scan i f s) = socktab_inv s" "sock_linked (upd_scan i f s) h = sock_linked s h"
  by (simp_all add: socktab_inv_def sock_linked_def)

text \<open>Returning the socket \<open>h\<close> at the head of what is left and moving on.\<close>

lemma scan_advance:
  assumes inv: "socktab_inv s" and "i \<in> set (st_active_scans (ks_socktab s))" and h: "sock_linked s h"
    and s': "s' = upd_scan i (\<lambda>sc. sc\<lparr>sc_current_bucket := int (sock_hash s h), sc_next := sock_next s h\<rparr>) s"
  shows "scan_ok s' i" and "sock_hash s h < sock_hash s k \<Longrightarrow> sock_linked s k \<Longrightarrow> ahead s' i k"
    and "sock_linked s k \<Longrightarrow> k \<in> set (behind h (sock_buckets s (sock_hash s h))) \<Longrightarrow> ahead s' i k"
proof -
  let ?B = "sock_buckets s (sock_hash s h)"
  have next_in: "x \<in> set ?B" if "sock_next s h = Some x" for x
    using that behind_subset [of h ?B] by (auto simp: sock_next_def split: list.splits)
  have "sock_linked s x \<and> sock_hash s x = sock_hash s h" if "sock_next s h = Some x" for x
    using in_bucket [OF inv, of x "sock_hash s h"] next_in [OF that] by simp
  then show "scan_ok s' i" using inv assms(2) by (simp add: scan_ok_def s')
  show "sock_hash s h < sock_hash s k \<Longrightarrow> sock_linked s k \<Longrightarrow> ahead s' i k"
    by (simp add: ahead_def s')
  assume k: "sock_linked s k" "k \<in> set (behind h ?B)"
  then obtain y ys where b: "behind h ?B = y # ys" by (cases "behind h ?B") auto
  then have nxt: "sock_next s h = Some y" by (simp add: sock_next_def)
  have y: "sock_hash s y = sock_hash s h"
    using in_bucket [OF inv, of y "sock_hash s h"] next_in [OF nxt] by simp
  have "h \<in> set ?B" using h by (simp add: sock_linked_def)
  from behind_next [OF socktab_invD(1) [OF inv] this b] have "behind y ?B = ys" .
  moreover have "sock_hash s k = sock_hash s h"
    using in_bucket [OF inv, of k "sock_hash s h"] k(2) behind_subset [of h ?B] by auto
  ultimately show "ahead s' i k" using k b nxt y by (auto simp: ahead_def s')
qed

lemma next_Some:
  assumes ok: "scan_ok s i" and nxt: "homa_socktab_next i s = (Some h, s')"
  shows "scan_ok s' i" and "ahead s i k \<Longrightarrow> k = h \<or> ahead s' i k"
    and "ks_socks s' = ks_socks s" and "sock_buckets s' = sock_buckets s"
proof -
  let ?sc = "scan_of s i" and ?cur = "sc_current_bucket (scan_of s i)"
  have inv: "socktab_inv s" and act: "i \<in> set (st_active_scans (ks_socktab s))" and cur: "-1 \<le> ?cur"
    using ok by (simp_all add: scan_ok_def)
  have "sock_linked s h \<and> s' = upd_scan i (\<lambda>sc. sc\<lparr>sc_current_bucket := int (sock_hash s h), sc_next := sock_next s h\<rparr>) s \<and>
    (ahead s i k \<longrightarrow> k = h \<or> sock_hash s h < sock_hash s k \<or> k \<in> set (behind h (sock_buckets s (sock_hash s h))))" for k
  proof (cases "sc_next ?sc")
    case (Some x)
    then have "h = x" "s' = upd_scan i (\<lambda>sc. sc\<lparr>sc_current_bucket := ?cur, sc_next := sock_next s h\<rparr>) s"
      using nxt by (auto simp: homa_socktab_next_def Let_def)
    moreover have "sock_linked s x" "int (sock_hash s x) = ?cur" using ok Some by (simp_all add: scan_ok_def)
    ultimately show ?thesis using Some by (auto simp: ahead_def)
  next
    case None
    obtain b links where from_b: "scan_from (sock_buckets s) (nat (?cur + 1)) = (b, links)" by fastforce
    then have links: "links = Some h" and s': "s' = upd_scan i (\<lambda>sc. sc\<lparr>sc_current_bucket := int b, sc_next := sock_next s h\<rparr>) s"
      using nxt None by (auto simp: homa_socktab_next_def Let_def split: option.splits)
    from scan_from_Some [OF from_b [unfolded links]] obtain hs where b: "nat (?cur + 1) \<le> b" "sock_buckets s b = h # hs"
      and empty: "\<And>c. nat (?cur + 1) \<le> c \<Longrightarrow> c < b \<Longrightarrow> sock_buckets s c = []" by blast
    have h: "sock_linked s h" "b = sock_hash s h" using in_bucket [OF inv, of h b] b(2) by simp_all
    have "k = h \<or> sock_hash s h < sock_hash s k \<or> k \<in> set (behind h (sock_buckets s (sock_hash s h)))" if "ahead s i k"
    proof -
      have k: "k \<in> set (sock_buckets s (sock_hash s k))" "?cur < int (sock_hash s k)"
        using that None by (simp_all add: ahead_def sock_linked_def)
      then have "\<not> sock_hash s k < b" using empty [of "sock_hash s k"] cur by auto
      moreover have "k = h \<or> k \<in> set hs" if "sock_hash s k = b" using that k(1) b(2) by simp
      ultimately show ?thesis
        using b(2) h(2) by (cases "sock_hash s k" b rule: linorder_cases) (auto simp: behind_Cons)
    qed
    then show ?thesis using h s' by simp
  qed
  note step = this
  have h: "sock_linked s h" and s': "s' = upd_scan i (\<lambda>sc. sc\<lparr>sc_current_bucket := int (sock_hash s h), sc_next := sock_next s h\<rparr>) s"
    using step by blast+
  note adv = scan_advance [OF inv act h s']
  show "scan_ok s' i" by (rule adv(1))
  show "ahead s i k \<Longrightarrow> k = h \<or> ahead s' i k"
    using step [of k] adv(2,3) [of k] by (auto simp: ahead_def [of s])
  show "ks_socks s' = ks_socks s" and "sock_buckets s' = sock_buckets s" by (simp_all add: s')
qed

lemma next_None:
  assumes ok: "scan_ok s i" and nxt: "homa_socktab_next i s = (None, s')"
  shows "\<not> ahead s i k"
proof -
  let ?cur = "sc_current_bucket (scan_of s i)"
  have none: "sc_next (scan_of s i) = None"
    using nxt by (cases "sc_next (scan_of s i)") (simp_all add: homa_socktab_next_def Let_def)
  obtain b links where from_b: "scan_from (sock_buckets s) (nat (?cur + 1)) = (b, links)" by fastforce
  then have links: "links = None"
    using nxt none by (cases links) (simp_all add: homa_socktab_next_def Let_def)
  have "sock_buckets s (sock_hash s k) = []" if "?cur < int (sock_hash s k)"
    using scan_from_None [OF from_b [unfolded links], of "sock_hash s k"] that port_hash_bound by simp
  then show ?thesis using none by (auto simp: ahead_def sock_linked_def)
qed

lemma unlink_sel:
  assumes "socktab_inv s"
  shows "ks_socks (homa_sock_unlink h s) = ks_socks s" and "socktab_inv (homa_sock_unlink h s)"
    and "sock_linked (homa_sock_unlink h s) x \<longleftrightarrow> x \<noteq> h \<and> sock_linked s x"
    and "sock_buckets (homa_sock_unlink h s) b = (if b = sock_hash s h then remove1 h (sock_buckets s b) else sock_buckets s b)"
    and "st_active_scans (ks_socktab (homa_sock_unlink h s)) = st_active_scans (ks_socktab s)"
    and "i \<in> set (st_active_scans (ks_socktab s)) \<Longrightarrow> scan_of (homa_sock_unlink h s) i =
      (if sc_next (scan_of s i) = Some h then (scan_of s i)\<lparr>sc_next := sock_next s h\<rparr> else scan_of s i)"
proof -
  define s1 where "s1 = upd_socktab (\<lambda>t. t\<lparr>st_scans := (\<lambda>i.
            if i \<in> set (st_active_scans t) \<and> sc_next (st_scans t i) = Some h
            then (st_scans t i)\<lparr>sc_next := sock_next s h\<rparr> else st_scans t i)\<rparr>) s"
  have unlink: "homa_sock_unlink h s = sock_del h s1"
    by (simp add: homa_sock_unlink_def s1_def Let_def)
  have s1: "sock_buckets s1 = sock_buckets s" "ks_socks s1 = ks_socks s" by (simp_all add: s1_def)
  then have "socktab_inv s1" and linked: "sock_linked s1 x = sock_linked s x" for x
    using assms by (simp_all add: socktab_inv_def sock_linked_def)
  note del = sock_del_effect [OF this(1), of h]
  show "ks_socks (homa_sock_unlink h s) = ks_socks s" and "socktab_inv (homa_sock_unlink h s)"
    and "sock_linked (homa_sock_unlink h s) x \<longleftrightarrow> x \<noteq> h \<and> sock_linked s x"
    using del by (simp_all add: unlink s1 linked)
  show "sock_buckets (homa_sock_unlink h s) b = (if b = sock_hash s h then remove1 h (sock_buckets s b) else sock_buckets s b)"
    by (simp add: unlink sock_del_def Let_def s1)
  show "st_active_scans (ks_socktab (homa_sock_unlink h s)) = st_active_scans (ks_socktab s)"
    and "i \<in> set (st_active_scans (ks_socktab s)) \<Longrightarrow> scan_of (homa_sock_unlink h s) i =
      (if sc_next (scan_of s i) = Some h then (scan_of s i)\<lparr>sc_next := sock_next s h\<rparr> else scan_of s i)"
    by (simp_all add: unlink sock_del_def Let_def s1_def)
qed

lemma in_behind:
  assumes "socktab_inv s" and "k \<in> set (behind x (sock_buckets s b))"
  shows "sock_linked s k" and "sock_hash s k = b"
  using in_bucket [OF assms(1), of k b] behind_subset [of x "sock_buckets s b"] assms(2) by auto

lemma unlink_scan:
  assumes ok: "scan_ok s i"
  shows "scan_ok (homa_sock_unlink h s) i" and "ahead s i k \<Longrightarrow> k \<noteq> h \<Longrightarrow> ahead (homa_sock_unlink h s) i k"
proof -
  let ?s = "homa_sock_unlink h s" and ?cur = "sc_current_bucket (scan_of s i)"
  have inv: "socktab_inv s" and act: "i \<in> set (st_active_scans (ks_socktab s))" and cur: "-1 \<le> ?cur"
    and nxt: "sc_next (scan_of s i) = Some x \<Longrightarrow> sock_linked s x \<and> int (sock_hash s x) = ?cur" for x
    using ok by (simp_all add: scan_ok_def)
  note sel = unlink_sel [OF inv, where h = h]
  have scan: "sc_current_bucket (scan_of ?s i) = ?cur"
    "sc_next (scan_of ?s i) = (if sc_next (scan_of s i) = Some h then sock_next s h else sc_next (scan_of s i))"
    by (simp_all add: sel(6) [OF act])
  have B: "k \<in> set (behind x (sock_buckets ?s b))"
    if "x \<noteq> h" "k \<noteq> h" "k \<in> set (behind x (sock_buckets s b))" "x \<in> set (sock_buckets s b)" for x k b
    using that behind_remove1 [OF socktab_invD(1) [OF inv] that(4)] by (auto simp: sel(4))
  show "ahead ?s i k" if a: "ahead s i k" and n: "k \<noteq> h"
  proof (cases "?cur < int (sock_hash s k)")
    case True
    then show ?thesis using a n by (simp add: ahead_def sel scan(1))
  next
    case False
    then obtain x where x: "sc_next (scan_of s i) = Some x" "sock_hash s k = sock_hash s x"
      "k = x \<or> k \<in> set (behind x (sock_buckets s (sock_hash s x)))" "sock_linked s k"
      using a by (auto simp: ahead_def)
    have xB: "x \<in> set (sock_buckets s (sock_hash s x))" using nxt [OF x(1)] by (simp add: sock_linked_def)
    show ?thesis
    proof (cases "x = h")
      case False
      then show ?thesis
        using x n B [OF False n _ xB] by (auto simp: ahead_def sel(1,3) scan)
    next
      case True
      then obtain y ys where y: "behind h (sock_buckets s (sock_hash s h)) = y # ys"
        using x(3) n by (cases "behind h (sock_buckets s (sock_hash s h))") auto
      have yb: "behind y (sock_buckets s (sock_hash s h)) = ys"
        using behind_next [OF socktab_invD(1) [OF inv] _ y] xB True by simp
      have yin: "y \<in> set (sock_buckets s (sock_hash s h))" and yh: "sock_hash s y = sock_hash s h"
        using y behind_subset [of h "sock_buckets s (sock_hash s h)"] in_behind(2) [OF inv, of y h] by auto
      have "y \<noteq> h" using y behind_notin [OF socktab_invD(1) [OF inv], of h "sock_hash s h"] by auto
      moreover have "k = y \<or> k \<in> set (behind y (sock_buckets s (sock_hash s h)))"
        using x(3) n True y yb by auto
      ultimately show ?thesis
        using B [OF _ n _ yin] x True y yh n by (auto simp: ahead_def sel(1,3) scan sock_next_def)
    qed
  qed
  have "sock_linked ?s x \<and> int (sock_hash ?s x) = ?cur" if x: "sc_next (scan_of ?s i) = Some x" for x
  proof (cases "sc_next (scan_of s i) = Some h")
    case True
    then have "x \<in> set (behind h (sock_buckets s (sock_hash s h)))"
      using x by (auto simp: scan(2) sock_next_def split: list.splits)
    then show ?thesis
      using in_behind [OF inv] nxt [OF True] behind_notin [OF socktab_invD(1) [OF inv], of h "sock_hash s h"]
      by (auto simp: sel(1,3))
  next
    case False
    then show ?thesis using nxt [of x] x by (auto simp: scan(2) sel(1,3))
  qed
  then show "scan_ok ?s i"
    using inv act cur by (simp add: scan_ok_def sel(2,5) scan(1))
qed

text \<open>A socket that is not linked gets a port and is linked, as \<open>homa_sock_init\<close> does.\<close>

definition open_sock :: "sock_ptr \<Rightarrow> u16 \<Rightarrow> kstate \<Rightarrow> kstate" where
  "open_sock h port s = sock_link h (upd_sock h (\<lambda>k. k\<lparr>hs_port := port\<rparr>) s)"

lemma open_scan:
  assumes ok: "scan_ok s i" and h: "\<not> sock_linked s h"
  shows "scan_ok (open_sock h port s) i" and "ahead s i k \<Longrightarrow> ahead (open_sock h port s) i k"
proof -
  let ?s1 = "upd_sock h (\<lambda>k. k\<lparr>hs_port := port\<rparr>) s" and ?s = "open_sock h port s"
  have inv: "socktab_inv s" and nxt: "sc_next (scan_of s i) = Some x \<Longrightarrow> sock_linked s x" for x
    using ok by (simp_all add: scan_ok_def)
  have "sock_buckets ?s1 = sock_buckets s" and port: "sock_port ?s1 x = sock_port s x" if "x \<noteq> h" for x using that by simp_all
  note relabel = socktab_relabel [OF inv h, of ?s1, OF _ this(2)]
  have inv1: "socktab_inv ?s1" and linked1: "sock_linked ?s1 x \<longleftrightarrow> x \<noteq> h \<and> sock_linked s x" for x
    using relabel by simp_all
  have "\<not> sock_linked ?s1 h" by (simp add: linked1)
  note link = sock_link_effect [OF inv1 this]
  have linked: "sock_linked ?s x \<longleftrightarrow> x = h \<or> sock_linked s x" for x
    using link(2) [of x] linked1 [of x] by (auto simp: open_sock_def)
  have hash: "sock_hash ?s x = sock_hash s x" if "sock_linked s x" for x
    using that h by (cases "x = h") (simp_all add: open_sock_def link(3))
  have same: "scan_of ?s i = scan_of s i" "st_active_scans (ks_socktab ?s) = st_active_scans (ks_socktab s)"
    by (simp_all add: open_sock_def sock_link_def Let_def)
  have B: "behind x (sock_buckets ?s b) = behind x (sock_buckets s b)" if "sock_linked s x" for x b
    using that h by (cases "x = h") (auto simp: open_sock_def sock_link_def Let_def behind_Cons)
  show "scan_ok ?s i"
    using ok link(1) hash linked by (auto simp: scan_ok_def same open_sock_def [symmetric])
  show "ahead s i k \<Longrightarrow> ahead ?s i k"
    using nxt hash B linked by (auto simp: ahead_def same)
qed

text \<open>A scan while sockets are opened and closed: the sockets it returns.\<close>

datatype scan_op = Scan_Next | Close_Sock sock_ptr | Open_Sock sock_ptr u16

inductive scan_run :: "nat \<Rightarrow> kstate \<Rightarrow> scan_op list \<Rightarrow> sock_ptr list \<Rightarrow> kstate \<Rightarrow> bool" for i where
  scan_end: "scan_run i s [] [] s"
| scan_got: "homa_socktab_next i s = (Some h, s1) \<Longrightarrow> scan_run i s1 ops hs s2 \<Longrightarrow> scan_run i s (Scan_Next # ops) (h # hs) s2"
| scan_close: "scan_run i (homa_sock_unlink h s) ops hs s2 \<Longrightarrow> scan_run i s (Close_Sock h # ops) hs s2"
| scan_open: "\<not> sock_linked s h \<Longrightarrow> scan_run i (open_sock h port s) ops hs s2 \<Longrightarrow> scan_run i s (Open_Sock h port # ops) hs s2"

lemma scan_run_ahead:
  assumes "scan_run i s ops hs s2" and "scan_ok s i"
  shows "scan_ok s2 i \<and> (\<forall>k. ahead s i k \<and> Close_Sock k \<notin> set ops \<longrightarrow> k \<in> set hs \<or> ahead s2 i k)"
  using assms
proof (induction rule: scan_run.induct)
  case (scan_got s h s1 ops hs s2)
  note nxt = next_Some [OF scan_got.prems scan_got.hyps(1)]
  show ?case using scan_got.IH [OF nxt(1)] nxt(2) by auto
next
  case (scan_close h s ops hs s2)
  note un = unlink_scan [OF scan_close.prems, where h = h]
  show ?case using scan_close.IH [OF un(1)] un(2) by auto
next
  case (scan_open s h port ops hs s2)
  note op = open_scan [OF scan_open.prems scan_open.hyps(1), where port = port]
  show ?case using scan_open.IH [OF op(1)] op(2) by auto
qed simp

text \<open>
  C24: A scan over the sockets returns every socket that is in the table when the scan starts and is not
  removed before the scan has ended, in whatever way sockets are opened and closed between the
  steps of the scan.
\<close>

theorem homa_socktab_scan_complete:
  assumes "socktab_inv s" and "homa_socktab_start_scan i s = (first, s1)"
    and "scan_run i s1 ops hs s2" and "fst (homa_socktab_next i s2) = None"
    and "sock_linked s h" and "Close_Sock h \<notin> set ops"
  shows "first = Some h \<or> h \<in> set hs"
proof -
  define s0 where "s0 = upd_socktab (\<lambda>t. t\<lparr>st_active_scans := st_active_scans t @ [i]\<rparr>)
     (upd_scan i (\<lambda>_. \<lparr>sc_current_bucket = -1, sc_next = None\<rparr>) s)"
  have first: "homa_socktab_next i s0 = (first, s1)"
    using assms(2) by (simp add: homa_socktab_start_scan_def s0_def Let_def)
  have "socktab_inv s0" and "sock_linked s0 h"
    using assms(1,5) socktab_same [of s0 s h] by (simp_all add: s0_def)
  then have ok0: "scan_ok s0 i" and "ahead s0 i h"
    by (simp_all add: scan_ok_def ahead_def) (simp_all add: s0_def)
  then have some: "first \<noteq> None" using next_None [OF ok0, of s1 h] first by auto
  then obtain x where x: "first = Some x" by blast
  note nxt = next_Some [OF ok0 first [unfolded x]]
  have run: "scan_ok s2 i \<and> (ahead s1 i h \<longrightarrow> h \<in> set hs \<or> ahead s2 i h)"
    using scan_run_ahead [OF assms(3) nxt(1)] assms(6) by blast
  have "\<not> ahead s2 i h"
    using next_None [of s2 i "snd (homa_socktab_next i s2)" h] run assms(4) by (metis prod.collapse)
  then show ?thesis using run nxt(2) [OF \<open>ahead s0 i h\<close>] x by blast
qed

lemma scan_from_empty: "\<forall>c \<ge> b. B c = [] \<Longrightarrow> snd (scan_from B b) = None"
proof (induction B b rule: scan_from.induct)
  case (1 B b)
  then show ?case by (subst scan_from.simps) auto
qed

lemma scan_from_first:
  assumes "\<forall>c < b. B c = []" and "B b = h # hs" and "b < HOMA_SOCKTAB_BUCKETS" and "a \<le> b"
  shows "scan_from B a = (b, Some h)"
  using assms(4)
proof (induction "b - a" arbitrary: a)
  case 0
  then show ?case using assms by (subst scan_from.simps) simp
next
  case (Suc n)
  then have "scan_from B (a + 1) = (b, Some h)" by simp
  then show ?case using Suc assms by (subst scan_from.simps) simp
qed

text \<open>The example while a scan stands behind its first socket.\<close>

lemma example_scan:
  "homa_socktab_start_scan 0 sock_example = (Some 1, upd_scan 0 (\<lambda>_. \<lparr>sc_current_bucket = 5, sc_next = Some 2\<rparr>)
     (upd_socktab (\<lambda>t. t\<lparr>st_active_scans := [0]\<rparr>) sock_example))"
proof -
  let ?B = "(\<lambda>_. [])(5 := [1, 2, 3]) :: nat \<Rightarrow> sock_ptr list"
  have "scan_from ?B 0 = (5, Some 1)"
    by (rule scan_from_first [where hs = "[2, 3]"]) (simp_all add: HOMA_SOCKTAB_BUCKETS_def)
  then show ?thesis
    by (simp add: homa_socktab_start_scan_def homa_socktab_next_def Let_def upd_scan_def upd_socktab_def
        sock_example_def kstate_zero_def sock_next_def homa_port_hash_def behind_Cons)
qed

definition example_mid :: kstate where
  "example_mid = upd_scan 0 (\<lambda>_. \<lparr>sc_current_bucket = 5, sc_next = Some 2\<rparr>)
     (upd_socktab (\<lambda>t. t\<lparr>st_active_scans := [0]\<rparr>) sock_example)"

lemmas example_mid_defs = example_mid_def upd_scan_def upd_socktab_def sock_example_def kstate_zero_def
  homa_port_hash_def

lemma scan_at_end:
  assumes "sc_next (scan_of s i) = None" and "sc_current_bucket (scan_of s i) = int c" and "\<forall>b > c. sock_buckets s b = []"
  shows "fst (homa_socktab_next i s) = None"
proof -
  obtain b where "scan_from (sock_buckets s) (nat (int c + 1)) = (b, None)"
    using scan_from_empty [of "nat (int c + 1)" "sock_buckets s"] assms(3) by (metis Suc_le_lessD nat_int_add of_nat_1 plus_1_eq_Suc
      add.commute prod.collapse)
  then show ?thesis using assms(1,2) by (simp add: homa_socktab_next_def Let_def)
qed

theorem homa_socktab_scan_complete_witness:
  "\<exists>s2. scan_run 0 example_mid [Close_Sock 2, Scan_Next] [3] s2 \<and> fst (homa_socktab_next 0 s2) = None \<and>
     (Some 1 = Some (3 :: sock_ptr) \<or> (3 :: sock_ptr) \<in> set [3])"
proof -
  let ?s1 = "homa_sock_unlink 2 example_mid"
  obtain r s2 where nxt: "homa_socktab_next 0 ?s1 = (r, s2)" by fastforce
  have r: "r = Some 3" and sc: "scan_of s2 0 = \<lparr>sc_current_bucket = 5, sc_next = None\<rparr>"
    and B: "sock_buckets s2 = (\<lambda>_. [])(5 := [1, 3])"
    using nxt by (auto simp: homa_socktab_next_def homa_sock_unlink_def sock_del_def Let_def sock_next_def behind_Cons
        example_mid_defs)
  have run: "scan_run 0 example_mid [Close_Sock 2, Scan_Next] [3] s2"
    using nxt r by (metis scan_close scan_got scan_end)
  have fin: "fst (homa_socktab_next 0 s2) = None"
    by (rule scan_at_end [where c = 5]) (simp_all add: sc B)
  have "sock_linked sock_example 3"
    by (simp add: sock_linked_def sock_example_def kstate_zero_def homa_port_hash_def)
  from homa_socktab_scan_complete [OF sock_example_inv example_scan [folded example_mid_def] run fin this]
  show ?thesis using run fin by auto
qed

text \<open>
  C37: Binding a port while a scan is in progress breaks the scan: \<open>homa_sock_bind\<close> moves the socket to
  another chain without advancing the scans that point to it (as \<open>homa_sock_unlink\<close> does), so the scan
  continues in the new chain.  In the example, with sockets 1, 2 and 3 in one chain and the scan about to
  return 2, binding 2 to another port makes the scan return 2 twice and end without returning 3, which
  stays in the table throughout.
\<close>

theorem homa_sock_bind_breaks_scan:
  "\<exists>s1 s2 s3 s4. homa_socktab_start_scan 0 sock_example = (Some 1, s1) \<and>
     homa_sock_bind 2 7 s1 = (None, s2) \<and> homa_socktab_next 0 s2 = (Some 2, s3) \<and>
     homa_socktab_next 0 s3 = (Some 2, s4) \<and> fst (homa_socktab_next 0 s4) = None \<and>
     sock_linked s1 3 \<and> sock_linked s2 3 \<and> sock_linked s3 3 \<and> sock_linked s4 3"
proof -
  obtain res s2 where bind: "homa_sock_bind 2 7 example_mid = (res, s2)" by fastforce
  have res: "res = None" and sc2: "scan_of s2 0 = \<lparr>sc_current_bucket = 5, sc_next = Some 2\<rparr>"
    and B2: "sock_buckets s2 = (\<lambda>_. [])(5 := [1, 3], 7 := [2])" and p2: "sock_port s2 2 = 7" "sock_port s2 3 = 2053"
    using bind
    by (auto simp: homa_sock_bind_def homa_sock_find_def sock_link_def sock_del_def Let_def example_mid_defs
        HOMA_MIN_DEFAULT_PORT_def upd_sock_def sock_zero_def)
  obtain r3 s3 where n3: "homa_socktab_next 0 s2 = (r3, s3)" by fastforce
  have r3: "r3 = Some 2" and sc3: "scan_of s3 0 = \<lparr>sc_current_bucket = 5, sc_next = None\<rparr>"
    and B3: "sock_buckets s3 = (\<lambda>_. [])(5 := [1, 3], 7 := [2])" and p3: "sock_port s3 2 = 7" "sock_port s3 3 = 2053"
    using n3 by (auto simp: homa_socktab_next_def Let_def sock_next_def behind_Cons sc2 B2 p2 homa_port_hash_def)
  have "scan_from ((\<lambda>_. [])(5 := [1, 3], 7 := [2])) 6 = (7, Some (2 :: sock_ptr))"
    by (simp add: scan_from.simps HOMA_SOCKTAB_BUCKETS_def)
  then obtain s4 where n4: "homa_socktab_next 0 s3 = (Some 2, s4)" and sc4: "scan_of s4 0 = \<lparr>sc_current_bucket = 7, sc_next = None\<rparr>"
    and B4: "sock_buckets s4 = (\<lambda>_. [])(5 := [1, 3], 7 := [2])" and p4: "sock_port s4 3 = 2053"
    by (simp add: homa_socktab_next_def Let_def sock_next_def behind_Cons sc3 B3 p3 homa_port_hash_def)
  have "fst (homa_socktab_next 0 s4) = None"
    by (rule scan_at_end [where c = 7]) (simp_all add: sc4 B4)
  moreover have "sock_linked example_mid 3" "sock_linked s2 3" "sock_linked s3 3" "sock_linked s4 3"
    using p2 p3 p4 B2 B3 B4 by (simp_all add: sock_linked_def example_mid_defs)
  ultimately show ?thesis
    using example_scan [folded example_mid_def] bind res n3 r3 n4 by blast
qed

end
