(* ===== verification/Homa_Grant.thy ===== *)
theory Homa_Grant
imports Homa_State
begin

text \<open>
  Granting (\<open>homa_grant.c\<close>): which incoming messages may receive more data.  The
  messages that are not fully granted are kept in ranked lists, one per peer, and
  the peers are ranked by their best message; the best messages are active and
  receive grants within the limits of \<open>grant_window\<close> and \<open>max_incoming\<close>.
\<close>

section \<open>Ranking\<close>

definition homa_grant_outranks :: "kstate \<Rightarrow> rpc_ptr \<Rightarrow> rpc_ptr \<Rightarrow> bool" where
  "homa_grant_outranks s r1 r2 \<longleftrightarrow>
     mi_bytes_remaining (msgin s r1) < mi_bytes_remaining (msgin s r2) \<or>
     (mi_bytes_remaining (msgin s r1) = mi_bytes_remaining (msgin s r2) \<and>
      mi_birth (msgin s r1) < mi_birth (msgin s r2))"

text \<open>The best message of a peer, which gives the peer its rank.\<close>

definition best_rpc :: "kstate \<Rightarrow> peer_ptr \<Rightarrow> rpc_ptr" where
  "best_rpc s p = hd (pe_grantable_rpcs (ks_peers s p))"

definition is_grantable :: "kstate \<Rightarrow> rpc_ptr \<Rightarrow> bool" where
  "is_grantable s r \<longleftrightarrow> r \<in> set (pe_grantable_rpcs (ks_peers s (rp_peer (ks_rpcs s r))))"

section \<open>Accounting\<close>

definition incoming_bytes :: "homa_message_in \<Rightarrow> int" where
  "incoming_bytes m = mi_granted m - (mi_length m - mi_bytes_remaining m)"

definition homa_grant_update_incoming :: "rpc_ptr \<Rightarrow> kstate \<Rightarrow> kstate \<times> bool" where
  "homa_grant_update_incoming r s =
     (let incoming = (if incoming_bytes (msgin s r) < 0 then 0 else incoming_bytes (msgin s r)) in
      if incoming \<noteq> mi_rec_incoming (msgin s r) then
        let delta = incoming - mi_rec_incoming (msgin s r);
            old = h_total_incoming (ks_homa s);
            s' = upd_homa (\<lambda>h. h\<lparr>h_total_incoming := old + delta\<rparr>) s;
            s' = upd_msgin r (\<lambda>m. m\<lparr>mi_rec_incoming := incoming\<rparr>) s'
        in (s', old \<ge> h_max_incoming (ks_homa s) \<and> old + delta < h_max_incoming (ks_homa s))
      else (s, False))"

section \<open>The grantable lists\<close>

definition count_grantable :: "nat \<Rightarrow> int \<Rightarrow> homa \<Rightarrow> homa" where
  "count_grantable now n h = h\<lparr>h_last_grantable_change := now, h_num_grantable_rpcs := n,
     h_max_grantable_rpcs := max n (h_max_grantable_rpcs h)\<rparr>"

text \<open>Put the RPC where it belongs in the list of its peer.\<close>

definition position_rpc :: "nat \<Rightarrow> rpc_ptr \<Rightarrow> kstate \<Rightarrow> kstate" where
  "position_rpc now r s =
     (let p = rp_peer (ks_rpcs s r) in
      if \<not> is_grantable s r then
        let s = upd_homa (\<lambda>h. count_grantable now (h_num_grantable_rpcs h + 1) h) s;
            s = upd_msgin r (\<lambda>m. m\<lparr>mi_birth := now\<rparr>) s
        in upd_peer p (\<lambda>peer. peer\<lparr>pe_grantable_rpcs :=
             insert_before (homa_grant_outranks s r) r (pe_grantable_rpcs peer)\<rparr>) s
      else
        upd_peer p (\<lambda>peer. peer\<lparr>pe_grantable_rpcs :=
          move_up (homa_grant_outranks s) r
            (rev (before r (pe_grantable_rpcs peer))) (behind r (pe_grantable_rpcs peer))\<rparr>) s)"

text \<open>Put the peer of the RPC where it belongs in Homa's list (label \<open>position_peer\<close>).\<close>

definition position_peer :: "rpc_ptr \<Rightarrow> kstate \<Rightarrow> kstate" where
  "position_peer r s =
     (let p = rp_peer (ks_rpcs s r);
          beats = (\<lambda>q. homa_grant_outranks s r (best_rpc s q));
          peers = h_grantable_peers (ks_homa s)
      in upd_homa (\<lambda>h. h\<lparr>h_grantable_peers :=
           if p \<notin> set peers then insert_before beats p peers
           else move_up (\<lambda>_. beats) p (rev (before p peers)) (behind p peers)\<rparr>) s)"

definition homa_grant_add_rpc :: "nat \<Rightarrow> rpc_ptr \<Rightarrow> kstate \<Rightarrow> kstate" where
  "homa_grant_add_rpc now r s = position_peer r (position_rpc now r s)"

definition homa_grant_remove_rpc :: "nat \<Rightarrow> rpc_ptr \<Rightarrow> kstate \<Rightarrow> kstate" where
  "homa_grant_remove_rpc now r s =
     (if \<not> is_grantable s r then s
      else
        let p = rp_peer (ks_rpcs s r);
            head = best_rpc s p;
            s = upd_homa (\<lambda>h. if h_oldest_rpc h = Some r then h\<lparr>h_oldest_rpc := None\<rparr> else h) s;
            s = upd_peer p (\<lambda>peer. peer\<lparr>pe_grantable_rpcs := remove1 r (pe_grantable_rpcs peer)\<rparr>) s;
            s = upd_homa (\<lambda>h. h\<lparr>h_last_grantable_change := now,
                               h_num_grantable_rpcs := h_num_grantable_rpcs h - 1\<rparr>) s
        in if r \<noteq> head then s
           else if pe_grantable_rpcs (ks_peers s p) = [] then
             upd_homa (\<lambda>h. h\<lparr>h_grantable_peers := remove1 p (h_grantable_peers h)\<rparr>) s
           else
             upd_homa (\<lambda>h. h\<lparr>h_grantable_peers :=
               before p (h_grantable_peers h) @
               move_down (\<lambda>q. homa_grant_outranks s r (best_rpc s q)) p (behind p (h_grantable_peers h))\<rparr>) s)"

section \<open>Sending a grant\<close>

definition homa_grant_send :: "rpc_ptr \<Rightarrow> kstate \<Rightarrow> kstate \<times> bool" where
  "homa_grant_send r s =
     (let h = ks_homa s;
          behind = incoming_bytes (msgin s r) < 0;
          s = (if behind then upd_msgin r (\<lambda>m. m\<lparr>mi_granted := mi_length m - mi_bytes_remaining m\<rparr>) s else s);
          m = msgin s r;
          incoming = (if behind then 0 else incoming_bytes m);
          increment = min (h_grant_window h - incoming) (mi_length m - mi_granted m);
          available = h_max_incoming h - h_total_incoming h + mi_rec_incoming m - incoming;
          increment = min increment available
      in if increment \<le> 0 then (s, False)
         else if rp_silent_ticks (ks_rpcs s r) > 1 then (s, False)
         else
           let granted = mi_granted m + increment;
               s = upd_msgin r (\<lambda>m. m\<lparr>mi_granted := granted, mi_resend_all := False\<rparr>) s
           in (homa_xmit_control (XGrant granted (mi_priority m) (mi_resend_all m)) r s, True))"

section \<open>Choosing the active RPCs\<close>

text \<open>The place of an RPC in the result: behind the last entry that it does not outrank.\<close>

definition pick_pos :: "kstate \<Rightarrow> rpc_ptr \<Rightarrow> rpc_ptr list \<Rightarrow> nat" where
  "pick_pos s r rpcs = length rpcs - length (takeWhile (\<lambda>x. homa_grant_outranks s r x) (rev rpcs))"

text \<open>The inner loop of \<open>homa_grant_pick_rpcs\<close>, with the number of RPCs taken from the
  peer.\<close>

fun pick_from_peer :: "kstate \<Rightarrow> nat \<Rightarrow> int \<Rightarrow> rpc_ptr list \<Rightarrow> rpc_ptr list \<Rightarrow> int \<Rightarrow> rpc_ptr list \<times> int" where
  "pick_from_peer s max_rpcs per_peer [] rpcs taken = (rpcs, taken)"
| "pick_from_peer s max_rpcs per_peer (r # rs) rpcs taken =
     (let pos = pick_pos s r rpcs in
      if pos \<ge> max_rpcs then (rpcs, taken)
      else
        let rpcs' = take max_rpcs (take pos rpcs @ r # drop pos rpcs) in
        if taken + 1 \<ge> per_peer then (rpcs', taken + 1)
        else pick_from_peer s max_rpcs per_peer rs rpcs' (taken + 1))"

fun pick_from_peers :: "kstate \<Rightarrow> nat \<Rightarrow> int \<Rightarrow> peer_ptr list \<Rightarrow> rpc_ptr list \<Rightarrow> rpc_ptr list" where
  "pick_from_peers s max_rpcs per_peer [] rpcs = rpcs"
| "pick_from_peers s max_rpcs per_peer (p # ps) rpcs =
     (let (rpcs', taken) = pick_from_peer s max_rpcs per_peer (pe_grantable_rpcs (ks_peers s p)) rpcs 0 in
      if taken = 0 then rpcs' else pick_from_peers s max_rpcs per_peer ps rpcs')"

definition homa_grant_pick_rpcs :: "kstate \<Rightarrow> nat \<Rightarrow> rpc_ptr list" where
  "homa_grant_pick_rpcs s max_rpcs =
     pick_from_peers s max_rpcs (h_max_rpcs_per_peer (ks_homa s)) (h_grantable_peers (ks_homa s)) []"

section \<open>Recalculation\<close>

text \<open>The priority for the grants of the RPC with rank \<open>i\<close> of \<open>active\<close> RPCs.\<close>

definition grant_priority :: "homa \<Rightarrow> int \<Rightarrow> int \<Rightarrow> int" where
  "grant_priority h active i =
     (let priority = h_max_sched_prio h - i;
          extra_levels = h_max_sched_prio h + 1 - active;
          priority = (if extra_levels \<ge> 0 then priority - extra_levels else priority)
      in if priority < 0 then 0 else priority)"

fun clear_ranks :: "rpc_ptr list \<Rightarrow> kstate \<Rightarrow> kstate" where
  "clear_ranks [] s = s"
| "clear_ranks (r # rs) s = clear_ranks rs (upd_msgin r (\<lambda>m. m\<lparr>mi_rank := -1\<rparr>) s)"

text \<open>The first loop over the active RPCs; \<open>i\<close> is the rank of the first of \<open>rs\<close>.\<close>

fun set_ranks :: "int \<Rightarrow> nat \<Rightarrow> rpc_ptr list \<Rightarrow> kstate \<Rightarrow> kstate" where
  "set_ranks active i [] s = s"
| "set_ranks active i (r # rs) s =
     (let s = upd_rpc r (\<lambda>rpc. rpc\<lparr>rp_grants_in_progress := rp_grants_in_progress rpc + 1\<rparr>) s;
          s = upd_homa (\<lambda>h. h\<lparr>h_active_remaining := (h_active_remaining h)[i := mi_bytes_remaining (msgin s r)]\<rparr>) s;
          s = upd_msgin r (\<lambda>m. m\<lparr>mi_rank := int i, mi_priority := grant_priority (ks_homa s) active (int i)\<rparr>) s
      in set_ranks active (i + 1) rs s)"

text \<open>The second loop, which sends grants: its body for one RPC and the loop.  The flag is
  \<open>try_again\<close>.\<close>

definition grant_one :: "nat \<Rightarrow> rpc_ptr \<Rightarrow> kstate \<Rightarrow> kstate \<times> bool" where
  "grant_one now r s =
     (let s = fst (homa_grant_send r s);
          (s, freed) = homa_grant_update_incoming r s;
          full = mi_granted (msgin s r) \<ge> mi_length (msgin s r);
          s = (if full then homa_grant_remove_rpc now r s else s);
          s = upd_rpc r (\<lambda>rpc. rpc\<lparr>rp_grants_in_progress := rp_grants_in_progress rpc - 1\<rparr>) s
      in (s, freed \<or> full))"

fun grant_active :: "nat \<Rightarrow> rpc_ptr list \<Rightarrow> kstate \<Rightarrow> kstate \<times> bool" where
  "grant_active now [] s = (s, False)"
| "grant_active now (r # rs) s =
     (let (s, again) = grant_one now r s;
          (s, again') = grant_active now rs s
      in (s, again \<or> again'))"

text \<open>One iteration of the loop of \<open>homa_grant_recalc\<close>.\<close>

definition recalc_round :: "nat \<Rightarrow> kstate \<Rightarrow> kstate \<times> bool" where
  "recalc_round now s =
     (let s = upd_homa (\<lambda>h. h\<lparr>h_grant_recalc_count := h_grant_recalc_count h + 1\<rparr>) s;
          s = clear_ranks (h_active_rpcs (ks_homa s)) s;
          active = homa_grant_pick_rpcs s (nat (h_max_overcommit (ks_homa s)));
          s = upd_homa (\<lambda>h. h\<lparr>h_active_rpcs := active\<rparr>) s;
          s = set_ranks (int (length active)) 0 active s;
          s = upd_homa (\<lambda>h. h\<lparr>h_grant_window :=
                if h_window_param h \<noteq> 0 then h_window_param h
                else h_max_incoming h sdiv (int (length active) + 1)\<rparr>) s
      in grant_active now active s)"

text \<open>
  \<open>homa_grant_recalc\<close>: None when the fuel is used up.  The lock is free here; the code
  skips the work when another thread is already recalculating.
\<close>

fun homa_grant_recalc :: "nat \<Rightarrow> nat \<Rightarrow> kstate \<Rightarrow> kstate option" where
  "homa_grant_recalc 0 now s = None"
| "homa_grant_recalc (Suc fuel) now s =
     (let (s', again) = recalc_round now s in
      if again then homa_grant_recalc fuel now s' else Some s')"

section \<open>Entry points\<close>

text \<open>The entry of the last RPC that may be active; None when \<open>max_overcommit - 1\<close> is no index of the array.\<close>

definition worst_active :: "homa \<Rightarrow> int option" where
  "worst_active h =
     (if 0 < h_max_overcommit h \<and> h_max_overcommit h \<le> int HOMA_MAX_GRANTS
      then Some (h_active_remaining h ! nat (h_max_overcommit h - 1)) else None)"

text \<open>None also stands for an access outside \<open>active_remaining\<close>.\<close>

definition homa_grant_check_rpc :: "nat \<Rightarrow> nat \<Rightarrow> rpc_ptr \<Rightarrow> kstate \<Rightarrow> kstate option" where
  "homa_grant_check_rpc fuel now r s =
     (let m = msgin s r;
          worst = worst_active (ks_homa s)
      in if mi_length m < 0 \<or> rp_state (ks_rpcs s r) = RPC_DEAD \<or> mi_num_bpages m \<le> 0 then Some s
         else if mi_granted m \<ge> mi_length m then Some (fst (homa_grant_update_incoming r s))
         else if \<not> is_grantable s r then
           let s = fst (homa_grant_update_incoming r s);
               s = homa_grant_add_rpc now r s
           in if int (length (h_active_rpcs (ks_homa s))) < h_max_overcommit (ks_homa s) then homa_grant_recalc fuel now s
              else (case worst of
                      None \<Rightarrow> None
                    | Some w \<Rightarrow> if mi_bytes_remaining (msgin s r) < w then homa_grant_recalc fuel now s else Some s)
         else if mi_rank m < 0 then
           let s = fst (homa_grant_update_incoming r s)
           in (case worst of
                 None \<Rightarrow> None
               | Some w \<Rightarrow> if mi_bytes_remaining (msgin s r) < w then homa_grant_recalc fuel now s else Some s)
         else
           let rank = nat (mi_rank m);
               s = upd_homa (\<lambda>h. h\<lparr>h_active_remaining := (h_active_remaining h)[rank := mi_bytes_remaining m]\<rparr>) s
           in if rank > 0 \<and> mi_bytes_remaining m < h_active_remaining (ks_homa s) ! (rank - 1) then
                homa_grant_recalc fuel now (fst (homa_grant_update_incoming r s))
              else
                let s = fst (homa_grant_send r s);
                    (s, recalc) = homa_grant_update_incoming r s
                in if mi_granted (msgin s r) \<ge> mi_length (msgin s r) then
                     homa_grant_recalc fuel now (homa_grant_remove_rpc now r s)
                   else if recalc then homa_grant_recalc fuel now s else Some s)"

fun find_oldest :: "kstate \<Rightarrow> int \<Rightarrow> rpc_ptr list \<Rightarrow> rpc_ptr option \<times> nat option \<Rightarrow> rpc_ptr option \<times> nat option" where
  "find_oldest s max_incoming [] acc = acc"
| "find_oldest s max_incoming (r # rs) (oldest, birth) =
     (let m = msgin s r in
      if (case birth of None \<Rightarrow> False | Some b \<Rightarrow> mi_birth m \<ge> b) then
        find_oldest s max_incoming rs (oldest, birth)
      else if incoming_bytes m \<ge> max_incoming then find_oldest s max_incoming rs (oldest, birth)
      else find_oldest s max_incoming rs (Some r, Some (mi_birth m)))"

text \<open>\<open>homa_grant_find_oldest\<close>; no birth time yet stands for \<open>oldest_birth = ~0\<close>.\<close>

definition homa_grant_find_oldest :: "kstate \<Rightarrow> kstate" where
  "homa_grant_find_oldest s =
     (let h = ks_homa s;
          rpcs = concat (map (\<lambda>p. pe_grantable_rpcs (ks_peers s p)) (h_grantable_peers h));
          limit = h_grant_window h + 2 * h_fifo_grant_increment h
      in upd_homa (\<lambda>h. h\<lparr>h_oldest_rpc := fst (find_oldest s limit rpcs (None, None))\<rparr>) s)"

definition homa_grant_free_rpc :: "nat \<Rightarrow> nat \<Rightarrow> rpc_ptr \<Rightarrow> kstate \<Rightarrow> kstate option" where
  "homa_grant_free_rpc fuel now r s =
     (let after = (if is_grantable s r then
                     let s' = homa_grant_remove_rpc now r s in
                     if mi_rank (msgin s' r) \<ge> 0 then homa_grant_recalc fuel now s' else Some s'
                   else Some s)
      in map_option (\<lambda>s. if mi_rec_incoming (msgin s r) \<noteq> 0
           then upd_homa (\<lambda>h. h\<lparr>h_total_incoming := h_total_incoming h - mi_rec_incoming (msgin s r)\<rparr>) s
           else s) after)"

section \<open>Invariants\<close>

abbreviation grantable :: "kstate \<Rightarrow> peer_ptr \<Rightarrow> rpc_ptr list" where
  "grantable s p \<equiv> pe_grantable_rpcs (ks_peers s p)"

abbreviation grantable_peers :: "kstate \<Rightarrow> peer_ptr list" where
  "grantable_peers s \<equiv> h_grantable_peers (ks_homa s)"

definition grantable_set :: "kstate \<Rightarrow> rpc_ptr set" where
  "grantable_set s = {r. is_grantable s r}"

text \<open>The lists are linked consistently and counted.\<close>

definition grant_links :: "kstate \<Rightarrow> bool" where
  "grant_links s \<longleftrightarrow>
     (\<forall>p. distinct (grantable s p)) \<and>
     (\<forall>p. \<forall>r \<in> set (grantable s p). rp_peer (ks_rpcs s r) = p) \<and>
     distinct (grantable_peers s) \<and>
     (\<forall>p. p \<in> set (grantable_peers s) \<longleftrightarrow> grantable s p \<noteq> []) \<and>
     h_num_grantable_rpcs (ks_homa s) = int (card (grantable_set s))"

text \<open>Both kinds of lists are in order of decreasing rank.\<close>

definition peer_outranks :: "kstate \<Rightarrow> peer_ptr \<Rightarrow> peer_ptr \<Rightarrow> bool" where
  "peer_outranks s p q \<longleftrightarrow> homa_grant_outranks s (best_rpc s p) (best_rpc s q)"

definition grant_order :: "kstate \<Rightarrow> bool" where
  "grant_order s \<longleftrightarrow>
     (\<forall>p. ranked (homa_grant_outranks s) (grantable s p)) \<and>
     ranked (peer_outranks s) (grantable_peers s)"

interpretation rpc_rank: rank_order "homa_grant_outranks s" for s
  by unfold_locales (auto simp: homa_grant_outranks_def)

interpretation peer_rank: rank_order "peer_outranks s" for s
  by unfold_locales (auto simp: peer_outranks_def homa_grant_outranks_def)

lemma grant_linksD:
  assumes "grant_links s"
  shows "distinct (grantable s p)" and "r \<in> set (grantable s p) \<Longrightarrow> rp_peer (ks_rpcs s r) = p"
    and "distinct (grantable_peers s)" and "p \<in> set (grantable_peers s) \<longleftrightarrow> grantable s p \<noteq> []"
    and "h_num_grantable_rpcs (ks_homa s) = int (card (grantable_set s))"
  using assms by (auto simp: grant_links_def)

lemma in_grantable_set:
  assumes "grant_links s"
  shows "r \<in> grantable_set s \<longleftrightarrow> (\<exists>p. r \<in> set (grantable s p))"
  using grant_linksD(2) [OF assms] by (auto simp: grantable_set_def is_grantable_def)

lemma grantable_set_lists:
  assumes "grant_links s"
  shows "grantable_set s = set (concat (map (grantable s) (grantable_peers s)))"
proof -
  have "p \<in> set (grantable_peers s)" if "r \<in> set (grantable s p)" for r p
    using that grant_linksD(4) [OF assms, of p] by auto
  then show ?thesis by (force simp: in_grantable_set [OF assms])
qed

lemma finite_grantable_set: "grant_links s \<Longrightarrow> finite (grantable_set s)"
  by (simp add: grantable_set_lists)

lemma outranks_cong:
  assumes "\<And>r. r \<in> {a, b} \<Longrightarrow> mi_bytes_remaining (msgin s' r) = mi_bytes_remaining (msgin s r)"
    and "\<And>r. r \<in> {a, b} \<Longrightarrow> mi_birth (msgin s' r) = mi_birth (msgin s r)"
  shows "homa_grant_outranks s' a b = homa_grant_outranks s a b"
  using assms by (simp add: homa_grant_outranks_def)

section \<open>Adding and repositioning\<close>

lemma position_peer_sel [heap_simps, simp]:
  "ks_rpcs (position_peer r s) = ks_rpcs s" "ks_peers (position_peer r s) = ks_peers s"
  "h_num_grantable_rpcs (ks_homa (position_peer r s)) = h_num_grantable_rpcs (ks_homa s)"
  "h_total_incoming (ks_homa (position_peer r s)) = h_total_incoming (ks_homa s)"
  by (simp_all add: position_peer_def Let_def)

lemma set_around: "x \<in> set xs \<Longrightarrow> insert x (set (before x xs) \<union> set (behind x xs)) = set xs"
  using arg_cong [OF split_at [of x xs], of set] by simp

lemma distinct_around: "x \<in> set xs \<Longrightarrow> distinct (before x xs @ x # behind x xs) = distinct xs"
  using split_at [of x xs] by simp

lemma set_move_up_around:
  "x \<in> set xs \<Longrightarrow> set (move_up better x (rev (before x xs)) (behind x xs)) = set xs"
  using set_around [of x xs] by simp

lemma distinct_move_up_around:
  "x \<in> set xs \<Longrightarrow> distinct (move_up better x (rev (before x xs)) (behind x xs)) = distinct xs"
  using distinct_around [of x xs] by simp

lemma position_peer_peers:
  "set (grantable_peers (position_peer r s)) = insert (rp_peer (ks_rpcs s r)) (set (grantable_peers s))"
  "distinct (grantable_peers (position_peer r s)) = distinct (grantable_peers s)"
  by (simp_all add: position_peer_def Let_def set_move_up_around distinct_move_up_around insert_absorb
      del: set_move_up distinct_move_up)

lemma position_rpc_list:
  "set (grantable (position_rpc now r s) p) =
     (if p = rp_peer (ks_rpcs s r) then insert r (set (grantable s p)) else set (grantable s p))"
  "distinct (grantable (position_rpc now r s) p) = distinct (grantable s p)"
  by (simp_all add: position_rpc_def Let_def is_grantable_def set_move_up_around distinct_move_up_around
      insert_absorb del: set_move_up distinct_move_up)


lemma position_rpc_sel [heap_simps, simp]:
  "x \<noteq> r \<Longrightarrow> ks_rpcs (position_rpc now r s) x = ks_rpcs s x"
  "rp_peer (ks_rpcs (position_rpc now r s) x) = rp_peer (ks_rpcs s x)"
  "mi_bytes_remaining (msgin (position_rpc now r s) x) = mi_bytes_remaining (msgin s x)"
  "mi_rec_incoming (msgin (position_rpc now r s) x) = mi_rec_incoming (msgin s x)"
  "is_grantable s r \<Longrightarrow> ks_rpcs (position_rpc now r s) = ks_rpcs s"
  "grantable_peers (position_rpc now r s) = grantable_peers s"
  "h_total_incoming (ks_homa (position_rpc now r s)) = h_total_incoming (ks_homa s)"
  "h_num_grantable_rpcs (ks_homa (position_rpc now r s)) =
     h_num_grantable_rpcs (ks_homa s) + (if is_grantable s r then 0 else 1)"
  by (simp_all add: position_rpc_def Let_def count_grantable_def)

lemma add_rpc_grantable:
  "is_grantable (homa_grant_add_rpc now r s) x \<longleftrightarrow> x = r \<or> is_grantable s x"
  by (auto simp: homa_grant_add_rpc_def is_grantable_def position_rpc_list)

lemma add_rpc_links:
  assumes "grant_links s"
  shows "grant_links (homa_grant_add_rpc now r s)"
proof -
  note D = grant_linksD [OF assms]
  let ?s = "homa_grant_add_rpc now r s"
  have set: "grantable_set ?s = insert r (grantable_set s)"
    by (auto simp: grantable_set_def add_rpc_grantable)
  have "h_num_grantable_rpcs (ks_homa ?s) = h_num_grantable_rpcs (ks_homa s) + (if r \<in> grantable_set s then 0 else 1)"
    by (simp add: homa_grant_add_rpc_def) (simp add: grantable_set_def)
  then have "h_num_grantable_rpcs (ks_homa ?s) = int (card (grantable_set ?s))"
    unfolding set using D(5) finite_grantable_set [OF assms] by (simp add: card_insert_if)
  moreover have "p \<in> set (grantable_peers ?s) \<longleftrightarrow> grantable ?s p \<noteq> []" for p
    using D(4) [of p] arg_cong [OF position_rpc_list(1) [of now r s p], of "\<lambda>A. A = {}"]
    by (auto simp: homa_grant_add_rpc_def position_peer_peers split: if_splits)
  ultimately show ?thesis
    using D(1-3) unfolding grant_links_def
    by (auto simp: homa_grant_add_rpc_def position_peer_peers position_rpc_list split: if_splits)
qed

lemma hd_move_up:
  "hd (move_up better x ps ys) = x \<or> hd (move_up better x ps ys) = hd (rev ps @ x # ys)"
  by (induction ps arbitrary: ys) (auto simp: hd_append split: if_splits, blast)

lemma hd_position_rpc:
  assumes "grantable s (rp_peer (ks_rpcs s r)) \<noteq> []"
  shows "best_rpc (position_rpc now r s) (rp_peer (ks_rpcs s r)) \<in> {r, best_rpc s (rp_peer (ks_rpcs s r))}"
proof (cases "is_grantable s r")
  case True
  let ?xs = "grantable s (rp_peer (ks_rpcs s r))"
  have "?xs = before r ?xs @ r # behind r ?xs"
    using True split_at by (simp add: is_grantable_def)
  then show ?thesis
    using True hd_move_up [of "homa_grant_outranks s" r "rev (before r ?xs)" "behind r ?xs"]
    by (auto simp: position_rpc_def Let_def best_rpc_def)
next
  case False
  then show ?thesis
    using assms by (cases "grantable s (rp_peer (ks_rpcs s r))") (auto simp: position_rpc_def Let_def best_rpc_def)
qed

text \<open>The state in which more data has arrived for a message.\<close>

definition data_arrived :: "rpc_ptr \<Rightarrow> int \<Rightarrow> kstate \<Rightarrow> kstate" where
  "data_arrived r n s = upd_msgin r (\<lambda>m. m\<lparr>mi_bytes_remaining := mi_bytes_remaining m - n\<rparr>) s"

lemma data_arrived_sel [heap_simps, simp]:
  "x \<noteq> r \<Longrightarrow> ks_rpcs (data_arrived r n s) x = ks_rpcs s x"
  "rp_peer (ks_rpcs (data_arrived r n s) x) = rp_peer (ks_rpcs s x)"
  "mi_bytes_remaining (msgin (data_arrived r n s) r) = mi_bytes_remaining (msgin s r) - n"
  "mi_birth (msgin (data_arrived r n s) x) = mi_birth (msgin s x)"
  "ks_peers (data_arrived r n s) = ks_peers s" "ks_homa (data_arrived r n s) = ks_homa s"
  by (simp_all add: data_arrived_def)

lemma data_arrived_grantable [simp]: "is_grantable (data_arrived r n s) x = is_grantable s x"
  by (simp add: is_grantable_def)

lemma data_arrived_links: "grant_links s \<Longrightarrow> grant_links (data_arrived r n s)"
  by (simp add: grant_links_def grantable_set_def)

text \<open>The lists of RPCs stay ordered.\<close>

lemma position_rpc_ranked:
  assumes links: "grant_links s" and order: "grant_order s" and "0 \<le> n"
  shows "ranked (homa_grant_outranks (position_rpc now r (data_arrived r n s)))
           (grantable (position_rpc now r (data_arrived r n s)) p)"
    (is "ranked ?better (grantable ?s p)")
proof -
  note D = grant_linksD [OF links]
  let ?t = "data_arrived r n s" and ?p = "rp_peer (ks_rpcs s r)"
  have ranked_s: "ranked (homa_grant_outranks s) (grantable s q)" for q
    using order by (simp add: grant_order_def)
  have same: "?better x y = homa_grant_outranks s x y" if "x \<noteq> r" "y \<noteq> r" for x y
    using that by (intro outranks_cong) auto
  have others: "ranked ?better xs" if "r \<notin> set xs" "ranked (homa_grant_outranks s) xs" for xs
    using that ranked_cong [of xs ?better "homa_grant_outranks s"] same by metis
  show ?thesis
  proof (cases "p = ?p")
    case False
    then have "grantable ?s p = grantable s p" and "r \<notin> set (grantable s p)"
      using D(2) [of r p] by (auto simp: position_rpc_def Let_def)
    then show ?thesis using others ranked_s by simp
  next
    case p: True
    show ?thesis
    proof (cases "is_grantable s r")
      case False
      then have "grantable ?s p = insert_before (?better r) r (grantable s p)"
        by (simp add: p position_rpc_def Let_def homa_grant_outranks_def [abs_def])
      then show ?thesis
        using False p others [OF _ ranked_s] rpc_rank.insert_ranked by (simp add: is_grantable_def)
    next
      case True
      let ?xs = "grantable s p"
      have split: "?xs = before r ?xs @ r # behind r ?xs"
        using True p split_at by (simp add: is_grantable_def)
      have "distinct (before r ?xs @ r # behind r ?xs)" and "ranked (homa_grant_outranks s) (before r ?xs @ r # behind r ?xs)"
        using D(1) [of p] ranked_s [of p] split by simp_all
      then have notin: "r \<notin> set (before r ?xs @ behind r ?xs)"
        and rk: "ranked (homa_grant_outranks s) (before r ?xs @ behind r ?xs)"
        and worse: "\<forall>y \<in> set (behind r ?xs). \<not> homa_grant_outranks s y r"
        by (auto simp: ranked_append)
      have "?better = homa_grant_outranks ?t"
        using True by (simp add: homa_grant_outranks_def [abs_def])
      then have list: "grantable ?s p = move_up ?better r (rev (before r ?xs)) (behind r ?xs)"
        using True p by (simp add: position_rpc_def Let_def)
      have "\<forall>y \<in> set (behind r ?xs). \<not> ?better y r"
      proof
        fix y assume y: "y \<in> set (behind r ?xs)"
        then have "y \<noteq> r" using notin by auto
        then show "\<not> ?better y r"
          using True worse y \<open>0 \<le> n\<close> by (auto simp: homa_grant_outranks_def)
      qed
      then show ?thesis
        unfolding list using others [OF notin rk] by (intro rpc_rank.move_up_ranked) simp_all
    qed
  qed
qed

text \<open>The list of peers stays ordered.\<close>

lemma position_peer_ranked:
  assumes links: "grant_links s" and order: "grant_order s" and "0 \<le> n"
    and s': "s' = position_rpc now r (data_arrived r n s)"
  shows "ranked (peer_outranks (position_peer r s')) (grantable_peers (position_peer r s'))"
proof -
  note D = grant_linksD [OF links]
  let ?p = "rp_peer (ks_rpcs s r)" and ?ps = "grantable_peers s"
  let ?beats = "\<lambda>q. homa_grant_outranks s' r (best_rpc s' q)"
  have ranked_list: "ranked (homa_grant_outranks s') (grantable s' ?p)"
    unfolding s' by (rule position_rpc_ranked [OF links order \<open>0 \<le> n\<close>])
  have in_list: "r \<in> set (grantable s' ?p)" and "set (grantable s ?p) \<subseteq> set (grantable s' ?p)"
    by (auto simp: s' position_rpc_list)
  then have hd_best: "\<not> homa_grant_outranks s' x (best_rpc s' ?p)" if "x = r \<or> x \<in> set (grantable s ?p)" for x
    using that rpc_rank.ranked_hd_best [OF ranked_list, of x] by (auto simp: best_rpc_def)
  have other_best: "best_rpc s' q = best_rpc s q" if "q \<noteq> ?p" for q
    using that by (simp add: s' best_rpc_def position_rpc_def Let_def)
  have best_in: "best_rpc s q \<in> set (grantable s q)" if "q \<in> set ?ps" for q
    using that D(4) [of q] by (simp add: best_rpc_def)
  have not_r: "best_rpc s q \<noteq> r" if "q \<in> set ?ps" "q \<noteq> ?p" for q
    using that D(2) [OF best_in] by auto
  have key: "homa_grant_outranks s' x y = homa_grant_outranks s x y" if "x \<noteq> r" "y \<noteq> r" for x y
    using that by (intro outranks_cong) (auto simp: s')
  have same: "peer_outranks s' a b = peer_outranks s a b"
    if "a \<in> set ?ps - {?p}" "b \<in> set ?ps - {?p}" for a b
    using that other_best not_r key by (simp add: peer_outranks_def)
  have rk: "ranked (peer_outranks s) ?ps" using order by (simp add: grant_order_def)
  have others: "ranked (peer_outranks s') xs" if "ranked (peer_outranks s) xs" "set xs \<subseteq> set ?ps - {?p}" for xs
    using that ranked_cong [of xs "peer_outranks s'" "peer_outranks s"] same by blast
  have peers: "grantable_peers (position_peer r s') =
      (if ?p \<notin> set ?ps then insert_before ?beats ?p ?ps
       else move_up (\<lambda>_. ?beats) ?p (rev (before ?p ?ps)) (behind ?p ?ps))"
    by (simp add: position_peer_def Let_def s')
  have "ranked (peer_outranks s') (grantable_peers (position_peer r s'))"
  proof (cases "?p \<in> set ?ps")
    case False
    then have "grantable s ?p = []" using D(4) by blast
    then have "best_rpc s' ?p = r"
      by (simp add: s' best_rpc_def position_rpc_def Let_def is_grantable_def)
    then have "?beats = peer_outranks s' ?p" by (simp add: peer_outranks_def fun_eq_iff)
    then show ?thesis
      unfolding peers using False others [OF rk] peer_rank.insert_ranked by (simp add: subset_Diff_insert)
  next
    case True
    have split: "?ps = before ?p ?ps @ ?p # behind ?p ?ps" using True by (rule split_at)
    have "distinct (before ?p ?ps @ ?p # behind ?p ?ps)"
      and "ranked (peer_outranks s) (before ?p ?ps @ ?p # behind ?p ?ps)"
      using D(3) rk split by simp_all
    then have notin: "?p \<notin> set (before ?p ?ps @ behind ?p ?ps)"
      and rk': "ranked (peer_outranks s) (before ?p ?ps @ behind ?p ?ps)"
      and worse: "\<forall>q \<in> set (behind ?p ?ps). \<not> peer_outranks s q ?p"
      and better: "\<forall>q \<in> set (before ?p ?ps). \<not> peer_outranks s ?p q"
      by (auto simp: ranked_append)
    have sub: "set (before ?p ?ps @ behind ?p ?ps) \<subseteq> set ?ps - {?p}"
      using notin set_around [OF True] by auto
    note rk'' = others [OF rk' sub]
    have nonempty: "grantable s ?p \<noteq> []" using True D(4) by blast
    show ?thesis
    proof (cases "best_rpc s' ?p = r")
      case hd: True
      have "\<not> peer_outranks s' q ?p" if q: "q \<in> set (behind ?p ?ps)" for q
      proof -
        have qs: "q \<in> set ?ps" "q \<noteq> ?p" using q sub by auto
        have "\<not> homa_grant_outranks s (best_rpc s q) (best_rpc s ?p)"
          using worse q by (simp add: peer_outranks_def)
        then have "\<not> homa_grant_outranks s' (best_rpc s q) r \<or>
            \<not> homa_grant_outranks s' (best_rpc s q) (best_rpc s ?p)"
        proof (cases "best_rpc s ?p = r")
          case True
          then have "is_grantable s r" using nonempty by (metis best_rpc_def hd_in_set is_grantable_def)
          then show ?thesis
            using True not_r [OF qs] \<open>0 \<le> n\<close> \<open>\<not> homa_grant_outranks s _ _\<close>
            by (auto simp: s' homa_grant_outranks_def)
        next
          case False
          then show ?thesis
            using key [OF not_r [OF qs] False] \<open>\<not> homa_grant_outranks s _ _\<close> by blast
        qed
        moreover have "\<not> homa_grant_outranks s' (best_rpc s ?p) r"
          using hd_best [of "best_rpc s ?p"] best_in [OF True] hd by simp
        ultimately show ?thesis
          using rpc_rank.better_weak [of s' "best_rpc s q" r "best_rpc s ?p"]
          by (auto simp: peer_outranks_def hd other_best qs(2))
      qed
      then have "ranked (peer_outranks s')
          (move_up (peer_outranks s') ?p (rev (before ?p ?ps)) (behind ?p ?ps))"
        using rk'' by (intro peer_rank.move_up_ranked) simp_all
      moreover have "move_up (peer_outranks s') ?p (rev (before ?p ?ps)) (behind ?p ?ps)
          = move_up (\<lambda>_. ?beats) ?p (rev (before ?p ?ps)) (behind ?p ?ps)"
        by (rule move_up_cong) (simp add: peer_outranks_def hd)
      ultimately show ?thesis using True by (simp add: peers)
    next
      case False
      then have hd: "best_rpc s' ?p = best_rpc s ?p"
        using hd_position_rpc [of "data_arrived r n s" r now] nonempty by (auto simp: s' best_rpc_def)
      then have "peer_outranks s' a b = peer_outranks s a b" if "a \<in> set ?ps" "b \<in> set ?ps" for a b
        using that other_best not_r key False by (cases "a = ?p"; cases "b = ?p") (simp_all add: peer_outranks_def)
      then have rk1: "ranked (peer_outranks s') ?ps"
        using ranked_cong [of ?ps "peer_outranks s'" "peer_outranks s"] rk by blast
      have "\<not> ?beats q" if q: "q \<in> set (before ?p ?ps)" for q
      proof -
        have "\<not> homa_grant_outranks s' (best_rpc s' ?p) (best_rpc s' q)"
          using rk1 q split ranked_append [of "peer_outranks s'" "before ?p ?ps" "?p # behind ?p ?ps"]
          by (auto simp: peer_outranks_def)
        then show ?thesis using hd_best [of r] rpc_rank.better_weak [of s' r "best_rpc s' q" "best_rpc s' ?p"] by blast
      qed
      then have "grantable_peers (position_peer r s') = ?ps"
        using True split by (simp add: peers move_up_stays)
      then show ?thesis using rk1 by simp
    qed
  qed
  moreover have "peer_outranks (position_peer r s') = peer_outranks s'"
    by (simp add: peer_outranks_def [abs_def] best_rpc_def homa_grant_outranks_def)
  ultimately show ?thesis by simp
qed

section \<open>Removing\<close>

lemma remove_rpc_sel [heap_simps, simp]:
  "ks_rpcs (homa_grant_remove_rpc now r s) = ks_rpcs s"
  "ks_socks (homa_grant_remove_rpc now r s) = ks_socks s"
  "h_total_incoming (ks_homa (homa_grant_remove_rpc now r s)) = h_total_incoming (ks_homa s)"
  "h_max_incoming (ks_homa (homa_grant_remove_rpc now r s)) = h_max_incoming (ks_homa s)"
  "h_grant_window (ks_homa (homa_grant_remove_rpc now r s)) = h_grant_window (ks_homa s)"
  by (simp_all add: homa_grant_remove_rpc_def Let_def)

lemma remove_rpc_list:
  "grantable (homa_grant_remove_rpc now r s) p =
     (if p = rp_peer (ks_rpcs s r) then remove1 r (grantable s p) else grantable s p)"
  by (auto simp: homa_grant_remove_rpc_def Let_def is_grantable_def remove1_idem)

lemma set_move_down [simp]: "set (move_down P x ys) = insert x (set ys)"
  by (simp add: move_down_insert)

lemma distinct_move_down [simp]: "distinct (move_down P x ys) \<longleftrightarrow> x \<notin> set ys \<and> distinct ys"
  by (simp add: move_down_insert)

lemma remove_rpc_peers_eq:
  "grantable_peers (homa_grant_remove_rpc now r s) =
     (let p = rp_peer (ks_rpcs s r); ps = grantable_peers s in
      if \<not> is_grantable s r \<or> r \<noteq> best_rpc s p then ps
      else if remove1 r (grantable s p) = [] then remove1 p ps
      else before p ps @
        move_down (\<lambda>q. homa_grant_outranks s r (best_rpc (homa_grant_remove_rpc now r s) q)) p (behind p ps))"
  by (simp add: Let_def homa_grant_remove_rpc_def best_rpc_def homa_grant_outranks_def)

lemma remove_rpc_peers:
  assumes "grant_links s"
  shows "distinct (grantable_peers (homa_grant_remove_rpc now r s))"
    and "set (grantable_peers (homa_grant_remove_rpc now r s)) =
           (if grantable s (rp_peer (ks_rpcs s r)) = [r]
            then set (grantable_peers s) - {rp_peer (ks_rpcs s r)} else set (grantable_peers s))"
proof -
  note D = grant_linksD [OF assms]
  let ?p = "rp_peer (ks_rpcs s r)" and ?s = "homa_grant_remove_rpc now r s" and ?ps = "grantable_peers s"
  have "distinct (grantable_peers ?s) \<and>
    set (grantable_peers ?s) = (if grantable s ?p = [r] then set ?ps - {?p} else set ?ps)"
  proof (cases "is_grantable s r \<and> r = best_rpc s ?p")
    case False
    then have "grantable s ?p \<noteq> [r]" by (auto simp: is_grantable_def best_rpc_def)
    moreover have "grantable_peers ?s = ?ps" using False by (simp add: remove_rpc_peers_eq Let_def)
    ultimately show ?thesis using D(3) by simp
  next
    case True
    then have "?p \<in> set ?ps" using D(4) [of ?p] by (cases "grantable s ?p") (simp_all add: is_grantable_def)
    then have around: "insert ?p (set (before ?p ?ps) \<union> set (behind ?p ?ps)) = set ?ps"
      and dist: "distinct (before ?p ?ps @ ?p # behind ?p ?ps)"
      using D(3) by (simp_all only: set_around distinct_around)
    have "remove1 r (grantable s ?p) = [] \<longleftrightarrow> grantable s ?p = [r]"
      using True by (cases "grantable s ?p") (simp_all add: is_grantable_def best_rpc_def)
    then show ?thesis
      using True around dist D(3) by (simp add: remove_rpc_peers_eq Let_def)
  qed
  then show "distinct (grantable_peers ?s)"
    and "set (grantable_peers ?s) = (if grantable s ?p = [r] then set ?ps - {?p} else set ?ps)"
    by blast+
qed

lemma remove_rpc_grantable:
  assumes "grant_links s"
  shows "is_grantable (homa_grant_remove_rpc now r s) x \<longleftrightarrow> x \<noteq> r \<and> is_grantable s x"
  using grant_linksD(1) [OF assms] by (auto simp: is_grantable_def remove_rpc_list)

lemma remove_rpc_links:
  assumes "grant_links s"
  shows "grant_links (homa_grant_remove_rpc now r s)"
proof -
  note D = grant_linksD [OF assms]
  let ?s = "homa_grant_remove_rpc now r s"
  have set: "grantable_set ?s = grantable_set s - {r}"
    by (auto simp: grantable_set_def remove_rpc_grantable [OF assms])
  have "h_num_grantable_rpcs (ks_homa ?s) =
      h_num_grantable_rpcs (ks_homa s) - (if r \<in> grantable_set s then 1 else 0)"
    by (simp add: homa_grant_remove_rpc_def Let_def grantable_set_def)
  then have "h_num_grantable_rpcs (ks_homa ?s) = int (card (grantable_set ?s))"
    unfolding set D(5) using finite_grantable_set [OF assms] card_Suc_Diff1 [of "grantable_set s" r]
    by (cases "r \<in> grantable_set s") simp_all
  moreover have "p \<in> set (grantable_peers ?s) \<longleftrightarrow> grantable ?s p \<noteq> []" for p
    using D(4) [of p]
    by (cases "grantable s p"; cases "p = rp_peer (ks_rpcs s r)")
      (auto simp: remove_rpc_peers(2) [OF assms] remove_rpc_list)
  moreover have "distinct (grantable ?s p)" for p
    using D(1) [of p] by (auto simp: remove_rpc_list)
  moreover have "rp_peer (ks_rpcs ?s x) = p" if "x \<in> set (grantable ?s p)" for x p
    using that D(2) [of x p] set_remove1_subset [of r "grantable s p"] by (auto simp: remove_rpc_list split: if_splits)
  ultimately show ?thesis
    using remove_rpc_peers(1) [OF assms] by (simp add: grant_links_def)
qed

lemma ranked_remove1: "ranked better xs \<Longrightarrow> ranked better (remove1 x xs)"
  by (induction xs) (auto dest: notin_set_remove1)

lemma remove_rpc_order:
  assumes links: "grant_links s" and order: "grant_order s"
  shows "ranked (homa_grant_outranks (homa_grant_remove_rpc now r s)) (grantable (homa_grant_remove_rpc now r s) p)"
    and "r \<noteq> best_rpc s (rp_peer (ks_rpcs s r)) \<or> grantable s (rp_peer (ks_rpcs s r)) = [r] \<Longrightarrow>
         ranked (peer_outranks (homa_grant_remove_rpc now r s)) (grantable_peers (homa_grant_remove_rpc now r s))"
proof -
  let ?s = "homa_grant_remove_rpc now r s" and ?p = "rp_peer (ks_rpcs s r)"
  have same: "homa_grant_outranks ?s = homa_grant_outranks s"
    by (simp add: homa_grant_outranks_def [abs_def])
  have rk: "ranked (peer_outranks s) (grantable_peers s)" and "ranked (homa_grant_outranks s) (grantable s p)"
    using order by (auto simp: grant_order_def)
  then show "ranked (homa_grant_outranks ?s) (grantable ?s p)"
    by (auto simp: same remove_rpc_list intro: ranked_remove1)
  assume pos: "r \<noteq> best_rpc s ?p \<or> grantable s ?p = [r]"
  have best: "best_rpc ?s q = best_rpc s q" if "q \<noteq> ?p \<or> grantable s ?p \<noteq> [r]" for q
  proof (cases "q = ?p")
    case True
    then have "r \<noteq> hd (grantable s ?p)" using pos that by (auto simp: best_rpc_def)
    then show ?thesis by (cases "grantable s ?p") (auto simp: True best_rpc_def remove_rpc_list)
  qed (simp add: best_rpc_def remove_rpc_list)
  show "ranked (peer_outranks ?s) (grantable_peers ?s)"
  proof (cases "grantable s ?p = [r]")
    case True
    then have peers: "grantable_peers ?s = remove1 ?p (grantable_peers s)"
      by (simp add: homa_grant_remove_rpc_def Let_def is_grantable_def best_rpc_def)
    have "?p \<notin> set (grantable_peers ?s)"
      using grant_linksD(3) [OF links] by (simp add: peers)
    then have "ranked (peer_outranks ?s) (grantable_peers ?s) = ranked (peer_outranks s) (grantable_peers ?s)"
      by (intro ranked_cong) (metis best peer_outranks_def same)
    then show ?thesis using ranked_remove1 [OF rk] by (simp add: peers)
  next
    case False
    then have "grantable_peers ?s = grantable_peers s"
      using pos by (simp add: homa_grant_remove_rpc_def Let_def)
    moreover have "peer_outranks ?s = peer_outranks s"
      using best False by (simp add: peer_outranks_def [abs_def] same)
    ultimately show ?thesis using rk by simp
  qed
qed


section \<open>Choosing the active RPCs: the early exits lose nothing\<close>

lemma insert_before_while:
  "insert_before P x xs = takeWhile (\<lambda>y. \<not> P y) xs @ x # dropWhile (\<lambda>y. \<not> P y) xs"
  by (induction xs) auto

lemma take_insert_before: "take m (insert_before P x (take m xs)) = take m (insert_before P x xs)"
proof (induction xs arbitrary: m)
  case (Cons y ys)
  then show ?case by (cases m) (auto simp: take_Cons')
qed simp

lemma take_insert_before_same:
  assumes "m \<le> length xs" and "\<forall>y \<in> set (take m xs). \<not> P y"
  shows "take m (insert_before P x xs) = take m xs"
  using assms
proof (induction xs arbitrary: m)
  case (Cons y ys)
  then show ?case by (cases m) auto
qed simp

abbreviation add_ranked :: "kstate \<Rightarrow> rpc_ptr list \<Rightarrow> rpc_ptr \<Rightarrow> rpc_ptr list" where
  "add_ranked s acc r \<equiv> insert_before (homa_grant_outranks s r) r acc"

text \<open>What \<open>homa_grant_pick_rpcs\<close> may choose from, and all of it in order of rank.\<close>

definition candidates :: "kstate \<Rightarrow> peer_ptr list \<Rightarrow> rpc_ptr list" where
  "candidates s ps = concat (map (\<lambda>p. take (nat (max 1 (h_max_rpcs_per_peer (ks_homa s)))) (grantable s p)) ps)"

definition sort_ranked :: "kstate \<Rightarrow> rpc_ptr list \<Rightarrow> rpc_ptr list \<Rightarrow> rpc_ptr list" where
  "sort_ranked s acc rs = foldl (add_ranked s) acc rs"

lemma sort_ranked_simps [simp]:
  "sort_ranked s acc [] = acc"
  "sort_ranked s acc (r # rs) = sort_ranked s (add_ranked s acc r) rs"
  "sort_ranked s acc (rs @ rs') = sort_ranked s (sort_ranked s acc rs) rs'"
  by (simp_all add: sort_ranked_def)

lemma sort_ranked_ranked: "ranked (homa_grant_outranks s) acc \<Longrightarrow> ranked (homa_grant_outranks s) (sort_ranked s acc rs)"
  by (induction rs arbitrary: acc) (simp_all add: rpc_rank.insert_ranked)

lemma sort_ranked_mset: "mset (sort_ranked s acc rs) = mset acc + mset rs"
  by (induction rs arbitrary: acc) (simp_all add: insert_before_mset)

lemma take_sort_ranked: "take m (sort_ranked s (take m acc) rs) = take m (sort_ranked s acc rs)"
proof (induction rs arbitrary: acc)
  case (Cons r rs)
  have "take m (sort_ranked s (add_ranked s (take m acc) r) rs)
      = take m (sort_ranked s (take m (add_ranked s (take m acc) r)) rs)" by (rule Cons.IH [symmetric])
  then show ?case using Cons.IH [of "add_ranked s acc r"] by (simp add: take_insert_before)
qed simp

text \<open>RPCs that do not outrank one that does not fit do not fit either.\<close>

lemma sort_ranked_full:
  assumes "length acc = m" and "\<forall>x \<in> set acc. \<not> homa_grant_outranks s r x"
    and "\<forall>r' \<in> set rs. \<not> homa_grant_outranks s r' r"
  shows "take m (sort_ranked s acc rs) = acc"
  using assms(3)
proof (induction rs)
  case Nil
  then show ?case using assms(1) by simp
next
  case (Cons r' rs)
  have "\<forall>x \<in> set acc. \<not> homa_grant_outranks s r' x"
    using Cons.prems assms(2) rpc_rank.better_weak [of s r' _ r] by auto
  then have "take m (add_ranked s acc r') = acc"
    using take_insert_before_same [of m acc] assms(1) by simp
  then show ?case
    using Cons take_sort_ranked [of m s "add_ranked s acc r'" rs] by simp
qed

lemma pick_pos_ranked:
  assumes "ranked (homa_grant_outranks s) acc"
  shows "pick_pos s r acc = length (takeWhile (\<lambda>y. \<not> homa_grant_outranks s r y) acc)"
    and "take (pick_pos s r acc) acc @ r # drop (pick_pos s r acc) acc = add_ranked s acc r"
proof -
  let ?P = "homa_grant_outranks s r"
  define A B where "A = takeWhile (\<lambda>y. \<not> ?P y) acc" and "B = dropWhile (\<lambda>y. \<not> ?P y) acc"
  have acc: "acc = A @ B" by (simp add: A_def B_def)
  have A: "\<forall>y \<in> set A. \<not> ?P y" using set_takeWhileD by (fastforce simp: A_def)
  have B: "\<forall>y \<in> set B. ?P y"
  proof (cases B)
    case (Cons b bs)
    then have "?P b" using hd_dropWhile [of "\<lambda>y. \<not> ?P y" acc] by (simp add: B_def)
    moreover have "\<forall>y \<in> set bs. \<not> homa_grant_outranks s y b" using assms by (simp add: acc Cons ranked_append)
    ultimately show ?thesis using Cons rpc_rank.better_weak [of s r b] by auto
  qed simp
  have "takeWhile ?P (rev B @ rev A) = rev B @ takeWhile ?P (rev A)"
    using B by (intro takeWhile_append2) simp
  moreover have "takeWhile ?P (rev A) = []" using A by (cases A rule: rev_cases) simp_all
  ultimately have pos: "pick_pos s r acc = length A" by (simp add: pick_pos_def acc)
  then show "pick_pos s r acc = length (takeWhile (\<lambda>y. \<not> homa_grant_outranks s r y) acc)"
    by (simp add: A_def)
  have "add_ranked s acc r = A @ r # B" by (simp add: insert_before_while A_def B_def)
  moreover have "take (length A) acc = A" and "drop (length A) acc = B" by (simp_all add: acc)
  ultimately show "take (pick_pos s r acc) acc @ r # drop (pick_pos s r acc) acc = add_ranked s acc r"
    by (simp add: pos)
qed


lemma pick_from_peer_best:
  assumes "ranked (homa_grant_outranks s) acc" and "length acc \<le> m" and "0 \<le> taken" "taken < max 1 per_peer"
    and "ranked (homa_grant_outranks s) rs" and "pick_from_peer s m per_peer rs acc taken = (acc', taken')"
  shows "acc' = take m (sort_ranked s acc (take (nat (max 1 per_peer - taken)) rs))"
    and "taken \<le> taken'"
    and "taken' = taken \<Longrightarrow> rs \<noteq> [] \<Longrightarrow>
         acc' = acc \<and> length acc = m \<and> (\<forall>x \<in> set acc. \<not> homa_grant_outranks s (hd rs) x)"
proof -
  have "acc' = take m (sort_ranked s acc (take (nat (max 1 per_peer - taken)) rs)) \<and> taken \<le> taken' \<and>
    (taken' = taken \<longrightarrow> rs \<noteq> [] \<longrightarrow>
         acc' = acc \<and> length acc = m \<and> (\<forall>x \<in> set acc. \<not> homa_grant_outranks s (hd rs) x))"
    using assms
  proof (induction rs arbitrary: acc taken)
    case Nil
    then show ?case by simp
  next
    case (Cons r rs)
    note pos = pick_pos_ranked [OF Cons.prems(1), of r]
    show ?case
    proof (cases "pick_pos s r acc \<ge> m")
      case True
      then have "length (takeWhile (\<lambda>y. \<not> homa_grant_outranks s r y) acc) = length acc" and len: "length acc = m"
        using Cons.prems(2) pos(1) length_takeWhile_le [of "\<lambda>y. \<not> homa_grant_outranks s r y" acc] by simp_all
      then have no: "\<forall>x \<in> set acc. \<not> homa_grant_outranks s r x"
        using arg_cong [OF takeWhile_dropWhile_id [of "\<lambda>y. \<not> homa_grant_outranks s r y" acc], of length]
        by (simp del: takeWhile_dropWhile_id)
      have "\<forall>r' \<in> set (take (nat (max 1 per_peer - taken)) (r # rs)). \<not> homa_grant_outranks s r' r"
        using Cons.prems(5) by (auto dest!: in_set_takeD)
      then show ?thesis
        using True Cons.prems(6) sort_ranked_full [OF len no] len no by simp
    next
      case False
      define acc1 where "acc1 = take m (add_ranked s acc r)"
      have acc1: "ranked (homa_grant_outranks s) acc1" "length acc1 \<le> m"
        using Cons.prems(1) rpc_rank.insert_ranked by (simp_all add: acc1_def ranked_take)
      obtain k where k: "nat (max 1 per_peer - taken) = Suc k" "nat (max 1 per_peer - (taken + 1)) = k"
        using Cons.prems(3,4) by (intro that [of "nat (max 1 per_peer - taken) - 1"]) simp_all
      show ?thesis
      proof (cases "taken + 1 \<ge> per_peer")
        case True
        then have "k = 0" using k(2) Cons.prems(3,4) by simp
        then show ?thesis using False True Cons.prems(6) pos(2) k(1) by (simp add: Let_def)
      next
        case again: False
        then have "pick_from_peer s m per_peer rs acc1 (taken + 1) = (acc', taken')"
          using False Cons.prems(6) pos(2) by (simp add: Let_def acc1_def)
        then have "acc' = take m (sort_ranked s acc1 (take k rs))" and "taken + 1 \<le> taken'"
          using Cons.IH [of acc1 "taken + 1"] acc1 again Cons.prems(3,5) k(2) by simp_all
        then show ?thesis by (simp add: k(1) acc1_def take_sort_ranked)
      qed
    qed
  qed
  then show "acc' = take m (sort_ranked s acc (take (nat (max 1 per_peer - taken)) rs))" and "taken \<le> taken'"
    and "taken' = taken \<Longrightarrow> rs \<noteq> [] \<Longrightarrow>
         acc' = acc \<and> length acc = m \<and> (\<forall>x \<in> set acc. \<not> homa_grant_outranks s (hd rs) x)"
    by blast+
qed

lemma pick_from_peers_best:
  assumes "ranked (homa_grant_outranks s) acc" and "length acc \<le> m"
    and "\<forall>p. ranked (homa_grant_outranks s) (grantable s p)" and "ranked (peer_outranks s) ps"
    and "\<forall>p \<in> set ps. grantable s p \<noteq> []"
  shows "pick_from_peers s m (h_max_rpcs_per_peer (ks_homa s)) ps acc = take m (sort_ranked s acc (candidates s ps))"
  using assms(1,2,4,5)
proof (induction ps arbitrary: acc)
  case Nil
  then show ?case by (simp add: candidates_def)
next
  case (Cons p ps)
  let ?per = "h_max_rpcs_per_peer (ks_homa s)"
  obtain acc1 taken where pick: "pick_from_peer s m ?per (grantable s p) acc 0 = (acc1, taken)" by fastforce
  have rk: "ranked (homa_grant_outranks s) (grantable s p)" using assms(3) by blast
  have "(0 :: int) \<le> 0" and "0 < max 1 ?per" by simp_all
  note best = pick_from_peer_best [OF Cons.prems(1,2) this rk pick]
  have cand: "candidates s (p # ps) = take (nat (max 1 ?per)) (grantable s p) @ candidates s ps"
    by (simp add: candidates_def)
  show ?case
  proof (cases "taken = 0")
    case True
    then have full: "acc1 = acc" "length acc = m" "\<forall>x \<in> set acc. \<not> homa_grant_outranks s (best_rpc s p) x"
      using best(3) Cons.prems(4) by (simp_all add: best_rpc_def)
    have "\<not> homa_grant_outranks s x (best_rpc s p)" if x: "x \<in> set (candidates s (p # ps))" for x
    proof -
      obtain q where q: "q \<in> set (p # ps)" "x \<in> set (grantable s q)"
        using x by (auto simp: candidates_def dest: in_set_takeD)
      have "\<not> homa_grant_outranks s x (best_rpc s q)"
        using rpc_rank.ranked_hd_best q(2) assms(3) by (simp add: best_rpc_def)
      moreover have "\<not> homa_grant_outranks s (best_rpc s q) (best_rpc s p)"
        using Cons.prems(3) q(1) by (auto simp: peer_outranks_def)
      ultimately show ?thesis using rpc_rank.better_weak by blast
    qed
    then show ?thesis using sort_ranked_full [OF full(2,3)] pick True full(1) by simp
  next
    case False
    have "ranked (homa_grant_outranks s) acc1" and "length acc1 \<le> m"
      unfolding best(1) using sort_ranked_ranked [OF Cons.prems(1)] by (simp_all add: ranked_take)
    then have "pick_from_peers s m ?per ps acc1 = take m (sort_ranked s acc1 (candidates s ps))"
      using Cons.IH Cons.prems(3,4) by simp
    then show ?thesis using False pick by (simp add: cand best(1) take_sort_ranked)
  qed
qed

lemma distinct_candidates:
  assumes "grant_links s" and "distinct ps"
  shows "distinct (candidates s ps)"
  using assms(2)
proof (induction ps)
  case (Cons p ps)
  have "x \<notin> set (candidates s ps)" if "x \<in> set (grantable s p)" for x
    using that Cons.prems grant_linksD(2) [OF assms(1), of x] by (auto simp: candidates_def dest!: in_set_takeD)
  then show ?case
    using Cons grant_linksD(1) [OF assms(1), of p] by (auto simp: candidates_def dest: in_set_takeD)
qed (simp add: candidates_def)

section \<open>Properties of the lists\<close>

text \<open>
  Three messages from two peers.  Numbers name RPCs (10, 11 and 12) and peers (1 and 2).
\<close>

definition grant_example :: kstate where
  "grant_example = kstate_zero\<lparr>
     ks_homa := homa_zero\<lparr>h_grantable_peers := [1, 2], h_num_grantable_rpcs := 3, h_max_incoming := 50000,
       h_max_overcommit := 2, h_max_rpcs_per_peer := 1, h_window_param := 10000, h_grant_window := 10000,
       h_max_sched_prio := 3, h_num_priorities := 8\<rparr>,
     ks_peers := (\<lambda>_. peer_zero)(1 := peer_zero\<lparr>pe_grantable_rpcs := [10, 11]\<rparr>,
                                   2 := peer_zero\<lparr>pe_grantable_rpcs := [12]\<rparr>),
     ks_rpcs := (\<lambda>_. rpc_zero)(
       10 := rpc_zero\<lparr>rp_peer := 1, rp_msgin := message_in_zero\<lparr>mi_length := 20000, mi_bytes_remaining := 5000,
               mi_granted := 15000, mi_birth := 1, mi_rank := -1, mi_num_bpages := 1\<rparr>\<rparr>,
       11 := rpc_zero\<lparr>rp_peer := 1, rp_msgin := message_in_zero\<lparr>mi_length := 20000, mi_bytes_remaining := 7000,
               mi_granted := 13000, mi_birth := 2, mi_rank := -1, mi_num_bpages := 1\<rparr>\<rparr>,
       12 := rpc_zero\<lparr>rp_peer := 2, rp_msgin := message_in_zero\<lparr>mi_length := 20000, mi_bytes_remaining := 9000,
               mi_granted := 11000, mi_birth := 3, mi_rank := -1, mi_num_bpages := 1\<rparr>\<rparr>)\<rparr>"

lemmas grant_example_defs = grant_example_def zero_defs

lemma grant_example_links: "grant_links grant_example"
proof -
  have "grantable_set grant_example = {10, 11, 12}"
    by (auto simp: grantable_set_def is_grantable_def grant_example_defs)
  then show ?thesis by (simp add: grant_links_def grant_example_defs)
qed

lemma grant_example_order: "grant_order grant_example"
  by (simp add: grant_order_def peer_outranks_def homa_grant_outranks_def best_rpc_def grant_example_defs)

text \<open>
  C16: \<open>homa_grant_add_rpc\<close> keeps both kinds of grantable lists in order of priority, linked and
  counted, whether the RPC is new or has moved up because data arrived for it; afterwards the
  RPC is grantable and no other RPC has changed its membership.
\<close>

theorem homa_grant_add_rpc_keeps_order:
  assumes "grant_links s" and "grant_order s" and "0 \<le> n"
  shows "let s' = homa_grant_add_rpc now r (data_arrived r n s) in
    grant_links s' \<and> grant_order s' \<and> (\<forall>x. is_grantable s' x \<longleftrightarrow> x = r \<or> is_grantable s x)"
proof -
  let ?t = "position_rpc now r (data_arrived r n s)"
  have "homa_grant_outranks (position_peer r ?t) = homa_grant_outranks ?t"
    by (simp add: homa_grant_outranks_def [abs_def])
  then have "grant_order (position_peer r ?t)"
    using position_rpc_ranked [OF assms, of now r] position_peer_ranked [OF assms refl, of r now]
    by (simp add: grant_order_def)
  then show ?thesis
    using add_rpc_links [OF data_arrived_links [OF assms(1)]]
    by (simp add: homa_grant_add_rpc_def [symmetric] add_rpc_grantable Let_def)
qed

theorem homa_grant_add_rpc_keeps_order_witness:
  "let s' = homa_grant_add_rpc 4 12 (data_arrived 12 6000 grant_example) in
    grant_links s' \<and> grant_order s' \<and> (\<forall>x. is_grantable s' x \<longleftrightarrow> x = 12 \<or> is_grantable grant_example x)"
  using homa_grant_add_rpc_keeps_order [OF grant_example_links grant_example_order, of 6000 4 12] by simp

text \<open>
  C29: \<open>homa_grant_remove_rpc\<close> takes exactly the given RPC out of the lists and keeps them
  linked and counted, and each peer's list in order; the list of peers stays in order as long
  as the RPC was not followed by another one of its peer at the head of the list.
\<close>

theorem homa_grant_remove_rpc_keeps_links:
  assumes "grant_links s" and "grant_order s"
  shows "let s' = homa_grant_remove_rpc now r s; p = rp_peer (ks_rpcs s r) in
    grant_links s' \<and> (\<forall>x. is_grantable s' x \<longleftrightarrow> x \<noteq> r \<and> is_grantable s x) \<and>
    (\<forall>q. ranked (homa_grant_outranks s') (pe_grantable_rpcs (ks_peers s' q))) \<and>
    (r \<noteq> best_rpc s p \<or> pe_grantable_rpcs (ks_peers s p) = [r] \<longrightarrow> grant_order s')"
  using remove_rpc_links [OF assms(1)] remove_rpc_grantable [OF assms(1)] remove_rpc_order [OF assms]
  by (simp add: Let_def grant_order_def)

theorem homa_grant_remove_rpc_keeps_links_witness:
  "grant_order (homa_grant_remove_rpc 4 11 grant_example)"
  using homa_grant_remove_rpc_keeps_links [OF grant_example_links grant_example_order, of 4 11]
  by (simp add: Let_def best_rpc_def grant_example_defs)

text \<open>
  C34: When the best RPC of a peer is removed and others of the peer remain, the peer moves to
  the end of Homa's list, behind every peer that the \<^emph>\<open>removed\<close> RPC outranked, however
  good the peer's next RPC is (the loop compares the removed RPC and not the new head).
\<close>

theorem homa_grant_remove_rpc_demotes:
  assumes "grant_links s" and "is_grantable s r" and "r = best_rpc s (rp_peer (ks_rpcs s r))"
    and "pe_grantable_rpcs (ks_peers s (rp_peer (ks_rpcs s r))) \<noteq> [r]"
    and "\<forall>q \<in> set (behind (rp_peer (ks_rpcs s r)) (h_grantable_peers (ks_homa s))). homa_grant_outranks s r (best_rpc s q)"
  shows "h_grantable_peers (ks_homa (homa_grant_remove_rpc now r s)) =
    remove1 (rp_peer (ks_rpcs s r)) (h_grantable_peers (ks_homa s)) @ [rp_peer (ks_rpcs s r)]"
proof -
  let ?p = "rp_peer (ks_rpcs s r)" and ?s = "homa_grant_remove_rpc now r s"
  have mem: "?p \<in> set (grantable_peers s)"
    using assms(2) grant_linksD(4) [OF assms(1), of ?p] by (cases "grantable s ?p") (simp_all add: is_grantable_def)
  then have dist: "distinct (before ?p (grantable_peers s) @ ?p # behind ?p (grantable_peers s))"
    using grant_linksD(3) [OF assms(1)] by (simp only: distinct_around)
  have "remove1 r (grantable s ?p) \<noteq> []"
    using assms(2-4) by (cases "grantable s ?p") (simp_all add: is_grantable_def best_rpc_def)
  moreover have "best_rpc ?s q = best_rpc s q" if "q \<in> set (behind ?p (grantable_peers s))" for q
    using that dist by (auto simp: best_rpc_def remove_rpc_list)
  then have "move_down (\<lambda>q. homa_grant_outranks s r (best_rpc ?s q)) ?p (behind ?p (grantable_peers s))
      = behind ?p (grantable_peers s) @ [?p]"
    using assms(5) by (simp add: move_down_insert insert_before_append)
  ultimately have "grantable_peers ?s = before ?p (grantable_peers s) @ behind ?p (grantable_peers s) @ [?p]"
    using assms(2,3) by (simp add: remove_rpc_peers_eq Let_def)
  moreover have "remove1 ?p (grantable_peers s) = before ?p (grantable_peers s) @ behind ?p (grantable_peers s)"
    by (subst split_at [OF mem]) (use dist in \<open>simp add: remove1_append\<close>)
  ultimately show ?thesis by simp
qed

text \<open>In the example the next RPC of peer 1 still outranks the one of peer 2.\<close>

theorem homa_grant_remove_rpc_demotes_witness:
  "h_grantable_peers (ks_homa (homa_grant_remove_rpc 4 10 grant_example)) = [2, 1] \<and>
   \<not> grant_order (homa_grant_remove_rpc 4 10 grant_example)"
proof -
  have peers: "grantable_peers (homa_grant_remove_rpc 4 10 grant_example) = [2, 1]"
    using homa_grant_remove_rpc_demotes [OF grant_example_links, of 10 4]
    by (simp add: is_grantable_def best_rpc_def behind_def homa_grant_outranks_def grant_example_defs)
  then show ?thesis
    by (simp add: grant_order_def peer_outranks_def best_rpc_def remove_rpc_list)
      (simp add: homa_grant_outranks_def grant_example_defs)
qed

text \<open>
  C9: \<open>homa_grant_pick_rpcs\<close> returns the highest-priority RPCs, in order: of the candidates (the
  first \<open>max_rpcs_per_peer\<close> of each peer, at least one) it returns as many as fit, without
  duplicates, and none that it leaves out outranks one that it returns.  The early exits of its
  loops lose nothing.
\<close>

theorem homa_grant_pick_rpcs_best:
  assumes "grant_links s" and "grant_order s"
  shows "let active = homa_grant_pick_rpcs s max_rpcs;
             cands = concat (map (\<lambda>p. take (nat (max 1 (h_max_rpcs_per_peer (ks_homa s))))
                (pe_grantable_rpcs (ks_peers s p))) (h_grantable_peers (ks_homa s))) in
    ranked (homa_grant_outranks s) active \<and> distinct active \<and> set active \<subseteq> set cands \<and>
    length active = min max_rpcs (length cands) \<and>
    (\<forall>c \<in> set cands - set active. \<forall>r \<in> set active. \<not> homa_grant_outranks s c r)"
proof -
  let ?cands = "candidates s (grantable_peers s)"
  define all where "all = sort_ranked s [] ?cands"
  have all: "ranked (homa_grant_outranks s) all" "mset all = mset ?cands"
    by (simp_all add: all_def sort_ranked_ranked sort_ranked_mset)
  have "distinct ?cands" by (rule distinct_candidates [OF assms(1) grant_linksD(3) [OF assms(1)]])
  then have "distinct all" using all(2) by (metis distinct_count_atmost_1 set_mset_mset)
  have "set all = set ?cands" "length all = length ?cands"
    using all(2) by (metis set_mset_mset, metis size_mset)
  have pick: "homa_grant_pick_rpcs s max_rpcs = take max_rpcs all"
    unfolding homa_grant_pick_rpcs_def all_def
    using pick_from_peers_best [of s "[]" max_rpcs "grantable_peers s"] assms grant_linksD(4) [OF assms(1)]
    by (simp add: grant_order_def)
  have "ranked (homa_grant_outranks s) (take max_rpcs all @ drop max_rpcs all)" using all(1) by simp
  then have worse: "\<forall>c \<in> set (drop max_rpcs all). \<forall>r \<in> set (take max_rpcs all). \<not> homa_grant_outranks s c r"
    unfolding ranked_append by blast
  have "set ?cands = set (take max_rpcs all) \<union> set (drop max_rpcs all)"
    using \<open>set all = set ?cands\<close> by (metis append_take_drop_id set_append)
  then show ?thesis
    using all(1) \<open>distinct all\<close> \<open>length all = _\<close> worse
    by (auto simp: Let_def pick ranked_take candidates_def [symmetric])
qed

theorem homa_grant_pick_rpcs_best_witness:
  "let active = homa_grant_pick_rpcs grant_example 2;
       cands = concat (map (\<lambda>p. take (nat (max 1 (h_max_rpcs_per_peer (ks_homa grant_example))))
                (pe_grantable_rpcs (ks_peers grant_example p))) (h_grantable_peers (ks_homa grant_example))) in
    ranked (homa_grant_outranks grant_example) active \<and> distinct active \<and> set active \<subseteq> set cands \<and>
    length active = min 2 (length cands) \<and>
    (\<forall>c \<in> set cands - set active. \<forall>r \<in> set active. \<not> homa_grant_outranks grant_example c r)"
  using homa_grant_pick_rpcs_best [OF grant_example_links grant_example_order, of 2] by simp

end
