(* ===== verification/Homa_Grant_Use.thy ===== *)
theory Homa_Grant_Use
imports Homa_Grant
begin

text \<open>
  Granting as a whole: the accounting of incoming bytes, the limits that a grant respects, and
  the recalculation loop, which ends and keeps the lists and the accounts consistent.
\<close>

section \<open>The effect of sending and accounting\<close>

text \<open>The grant that the code sends.\<close>

definition grant_increment :: "kstate \<Rightarrow> rpc_ptr \<Rightarrow> int" where
  "grant_increment s r =
     (let m = msgin s r; incoming = max 0 (incoming_bytes m);
          granted = max (mi_granted m) (mi_length m - mi_bytes_remaining m) in
      min (min (h_grant_window (ks_homa s) - incoming) (mi_length m - granted))
          (h_max_incoming (ks_homa s) - h_total_incoming (ks_homa s) + mi_rec_incoming m - incoming))"

abbreviation granted_base :: "kstate \<Rightarrow> rpc_ptr \<Rightarrow> int" where
  "granted_base s r \<equiv> max (mi_granted (msgin s r)) (mi_length (msgin s r) - mi_bytes_remaining (msgin s r))"

lemma send_eq:
  "homa_grant_send r s =
     (let s1 = (if incoming_bytes (msgin s r) < 0 then upd_msgin r (\<lambda>m. m\<lparr>mi_granted := granted_base s r\<rparr>) s else s) in
      if grant_increment s r \<le> 0 \<or> rp_silent_ticks (ks_rpcs s r) > 1 then (s1, False)
      else (homa_xmit_control
              (XGrant (granted_base s r + grant_increment s r) (mi_priority (msgin s r)) (mi_resend_all (msgin s r))) r
              (upd_msgin r (\<lambda>m. m\<lparr>mi_granted := granted_base s r + grant_increment s r, mi_resend_all := False\<rparr>) s1),
            True))"
proof (cases "incoming_bytes (msgin s r) < 0")
  case True
  then have "granted_base s r = mi_length (msgin s r) - mi_bytes_remaining (msgin s r)"
    and "max 0 (incoming_bytes (msgin s r)) = 0" by (simp_all add: incoming_bytes_def)
  then show ?thesis using True by (simp add: homa_grant_send_def grant_increment_def Let_def upd_rpc_def)
next
  case False
  then have "granted_base s r = mi_granted (msgin s r)"
    and "max 0 (incoming_bytes (msgin s r)) = incoming_bytes (msgin s r)" by (simp_all add: incoming_bytes_def)
  then show ?thesis using False by (simp add: homa_grant_send_def grant_increment_def Let_def)
qed

lemma send_sel [heap_simps, simp]:
  "ks_homa (fst (homa_grant_send r s)) = ks_homa s" "ks_peers (fst (homa_grant_send r s)) = ks_peers s"
  "ks_socks (fst (homa_grant_send r s)) = ks_socks s"
  "x \<noteq> r \<Longrightarrow> ks_rpcs (fst (homa_grant_send r s)) x = ks_rpcs s x"
  "rp_peer (ks_rpcs (fst (homa_grant_send r s)) x) = rp_peer (ks_rpcs s x)"
  "mi_rec_incoming (msgin (fst (homa_grant_send r s)) x) = mi_rec_incoming (msgin s x)"
  "mi_length (msgin (fst (homa_grant_send r s)) x) = mi_length (msgin s x)"
  "mi_bytes_remaining (msgin (fst (homa_grant_send r s)) x) = mi_bytes_remaining (msgin s x)"
  by (simp_all add: send_eq Let_def)

lemma send_sent: "snd (homa_grant_send r s) \<longleftrightarrow> 0 < grant_increment s r \<and> rp_silent_ticks (ks_rpcs s r) \<le> 1"
  by (simp add: send_eq Let_def not_le not_less)

lemma send_granted:
  "mi_granted (msgin (fst (homa_grant_send r s)) r) =
     granted_base s r + (if snd (homa_grant_send r s) then grant_increment s r else 0)"
  by (simp add: send_eq Let_def incoming_bytes_def)

lemma update_sel [heap_simps, simp]:
  "ks_peers (fst (homa_grant_update_incoming r s)) = ks_peers s"
  "ks_socks (fst (homa_grant_update_incoming r s)) = ks_socks s"
  "ks_xmits (fst (homa_grant_update_incoming r s)) = ks_xmits s"
  "grantable_peers (fst (homa_grant_update_incoming r s)) = grantable_peers s"
  "h_num_grantable_rpcs (ks_homa (fst (homa_grant_update_incoming r s))) = h_num_grantable_rpcs (ks_homa s)"
  "h_max_incoming (ks_homa (fst (homa_grant_update_incoming r s))) = h_max_incoming (ks_homa s)"
  "h_grant_window (ks_homa (fst (homa_grant_update_incoming r s))) = h_grant_window (ks_homa s)"
  "h_active_rpcs (ks_homa (fst (homa_grant_update_incoming r s))) = h_active_rpcs (ks_homa s)"
  "x \<noteq> r \<Longrightarrow> ks_rpcs (fst (homa_grant_update_incoming r s)) x = ks_rpcs s x"
  "rp_peer (ks_rpcs (fst (homa_grant_update_incoming r s)) x) = rp_peer (ks_rpcs s x)"
  "mi_granted (msgin (fst (homa_grant_update_incoming r s)) x) = mi_granted (msgin s x)"
  "mi_length (msgin (fst (homa_grant_update_incoming r s)) x) = mi_length (msgin s x)"
  "mi_bytes_remaining (msgin (fst (homa_grant_update_incoming r s)) x) = mi_bytes_remaining (msgin s x)"
  "mi_rec_incoming (msgin (fst (homa_grant_update_incoming r s)) r) = max 0 (incoming_bytes (msgin s r))"
  by (simp_all add: homa_grant_update_incoming_def Let_def max_def)

lemma update_total:
  "h_total_incoming (ks_homa (fst (homa_grant_update_incoming r s))) =
     h_total_incoming (ks_homa s) + max 0 (incoming_bytes (msgin s r)) - mi_rec_incoming (msgin s r)"
  by (simp add: homa_grant_update_incoming_def Let_def max_def)

lemma update_freed: "snd (homa_grant_update_incoming r s) \<Longrightarrow> max 0 (incoming_bytes (msgin s r)) < mi_rec_incoming (msgin s r)"
  by (simp add: homa_grant_update_incoming_def Let_def max_def split: if_splits)

section \<open>Accounts\<close>

text \<open>The total is the sum of what is recorded for the RPCs in \<open>R\<close>.\<close>

definition accounted :: "rpc_ptr set \<Rightarrow> kstate \<Rightarrow> bool" where
  "accounted R s \<longleftrightarrow> h_total_incoming (ks_homa s) = (\<Sum>r \<in> R. mi_rec_incoming (msgin s r))"

lemma accounted_cong:
  assumes "h_total_incoming (ks_homa s') = h_total_incoming (ks_homa s)"
    and "\<And>r. mi_rec_incoming (msgin s' r) = mi_rec_incoming (msgin s r)"
  shows "accounted R s' = accounted R s"
  using assms by (simp add: accounted_def)

lemma update_accounted:
  assumes "finite R" and "r \<in> R" and "accounted R s"
  shows "accounted R (fst (homa_grant_update_incoming r s))"
proof -
  let ?s = "fst (homa_grant_update_incoming r s)"
  have "(\<Sum>x \<in> R - {r}. mi_rec_incoming (msgin ?s x)) = (\<Sum>x \<in> R - {r}. mi_rec_incoming (msgin s x))"
    by (intro sum.cong) auto
  then show ?thesis
    using assms sum.remove [of R r "\<lambda>x. mi_rec_incoming (msgin ?s x)"]
      sum.remove [of R r "\<lambda>x. mi_rec_incoming (msgin s x)"]
    by (simp add: accounted_def update_total)
qed

lemma send_accounted [simp]: "accounted R (fst (homa_grant_send r s)) = accounted R s"
  by (intro accounted_cong) simp_all

lemma remove_accounted [simp]: "accounted R (homa_grant_remove_rpc now r s) = accounted R s"
  by (intro accounted_cong) simp_all

lemma add_accounted [simp]: "accounted R (homa_grant_add_rpc now r s) = accounted R s"
  by (intro accounted_cong) (simp_all add: homa_grant_add_rpc_def)

lemma upd_rpc_accounted [simp]:
  "(\<And>rpc. mi_rec_incoming (rp_msgin (f rpc)) = mi_rec_incoming (rp_msgin rpc)) \<Longrightarrow> accounted R (upd_rpc r f s) = accounted R s"
  by (intro accounted_cong) simp_all

lemma upd_homa_accounted [simp]:
  "(\<And>h. h_total_incoming (f h) = h_total_incoming h) \<Longrightarrow> accounted R (upd_homa f s) = accounted R s"
  by (intro accounted_cong) simp_all

section \<open>Links under the operations that do not touch the lists\<close>

lemma grant_links_cong:
  assumes "ks_peers s' = ks_peers s" and "grantable_peers s' = grantable_peers s"
    and "h_num_grantable_rpcs (ks_homa s') = h_num_grantable_rpcs (ks_homa s)"
    and "\<And>x. rp_peer (ks_rpcs s' x) = rp_peer (ks_rpcs s x)"
  shows "grant_links s' = grant_links s" and "grantable_set s' = grantable_set s"
  using assms by (simp_all add: grant_links_def grantable_set_def is_grantable_def)

text \<open>The RPCs whose record is out of date.\<close>

definition stale :: "kstate \<Rightarrow> rpc_ptr set" where
  "stale s = {r \<in> grantable_set s. mi_rec_incoming (msgin s r) \<noteq> max 0 (incoming_bytes (msgin s r))}"

text \<open>The measure of the recalculation loop.\<close>

definition grant_work :: "kstate \<Rightarrow> nat" where
  "grant_work s = card (grantable_set s) + card (stale s)"

definition grant_inv :: "rpc_ptr set \<Rightarrow> kstate \<Rightarrow> bool" where
  "grant_inv R s \<longleftrightarrow> grant_links s \<and> accounted R s \<and> grantable_set s \<subseteq> R"

lemma grant_one_effect:
  assumes "finite R" and "grant_inv R s" and "r \<in> grantable_set s" and "grant_one now r s = (s', again)"
  shows "grant_inv R s'" and "grantable_set s' = grantable_set s - (if mi_granted (msgin s' r) \<ge> mi_length (msgin s' r) then {r} else {})"
    and "grant_work s' \<le> grant_work s" and "again \<Longrightarrow> grant_work s' < grant_work s"
    and "mi_rec_incoming (msgin s' r) = max 0 (incoming_bytes (msgin s' r))" and "x \<noteq> r \<Longrightarrow> msgin s' x = msgin s x"
proof -
  define s1 where "s1 = fst (homa_grant_send r s)"
  define s2 where "s2 = fst (homa_grant_update_incoming r s1)"
  define full where "full \<longleftrightarrow> mi_granted (msgin s2 r) \<ge> mi_length (msgin s2 r)"
  define s3 where "s3 = (if full then homa_grant_remove_rpc now r s2 else s2)"
  have one: "s' = upd_rpc r (\<lambda>rpc. rpc\<lparr>rp_grants_in_progress := rp_grants_in_progress rpc - 1\<rparr>) s3"
    "again = (snd (homa_grant_update_incoming r s1) \<or> full)"
    using assms(4) unfolding grant_one_def Let_def case_prod_beta s1_def [symmetric] s2_def [symmetric]
      full_def [symmetric] s3_def [symmetric] by simp_all
  have links: "grant_links s" and acc: "accounted R s" and sub: "grantable_set s \<subseteq> R"
    using assms(2) by (auto simp: grant_inv_def)
  have l2: "grant_links s2" and g2: "grantable_set s2 = grantable_set s"
    using links grant_links_cong [of s2 s] by (simp_all add: s1_def s2_def)
  have "accounted R s2"
    unfolding s2_def using assms(1,3) sub acc by (intro update_accounted) (auto simp: s1_def)
  then have l3: "grant_links s3" "accounted R s3"
    using l2 remove_rpc_links by (simp_all add: s3_def)
  have g3: "grantable_set s3 = grantable_set s - (if full then {r} else {})"
    using remove_rpc_grantable [OF l2] g2 by (auto simp: s3_def grantable_set_def)
  have same: "grantable_set s' = grantable_set s3" "grant_links s' = grant_links s3"
    using grant_links_cong [of s' s3] by (simp_all add: one(1))
  show "grant_inv R s'"
    unfolding grant_inv_def same using l3 g3 sub by (auto simp: one(1))
  have full': "full \<longleftrightarrow> mi_granted (msgin s' r) \<ge> mi_length (msgin s' r)"
    by (simp add: one(1) full_def s3_def)
  show "grantable_set s' = grantable_set s - (if mi_granted (msgin s' r) \<ge> mi_length (msgin s' r) then {r} else {})"
    using g3 by (simp add: same full')
  show exact: "mi_rec_incoming (msgin s' r) = max 0 (incoming_bytes (msgin s' r))"
    by (simp add: one(1) s3_def s2_def incoming_bytes_def)
  have others: "msgin s' x = msgin s x" if "x \<noteq> r" for x
    using that by (simp add: one(1) s3_def s2_def s1_def)
  then show "x \<noteq> r \<Longrightarrow> msgin s' x = msgin s x" .
  from others have "x \<in> stale s' \<longleftrightarrow> x \<in> stale s - {r}" for x
    using exact by (cases "x = r") (simp_all add: stale_def same g3)
  then have stale: "stale s' = stale s - {r}" by blast
  have fin: "finite (grantable_set s)" "finite (stale s)"
    using finite_grantable_set [OF links] by (auto simp: stale_def)
  show "grant_work s' \<le> grant_work s"
    unfolding grant_work_def stale same g3 using fin by (intro add_mono card_mono) auto
  assume again
  then consider "full" | "snd (homa_grant_update_incoming r s1)" using one(2) by blast
  then show "grant_work s' < grant_work s"
  proof cases
    case 1
    then have "card (grantable_set s') < card (grantable_set s)"
      using card_Diff1_less [OF fin(1) assms(3)] by (simp add: same g3)
    moreover have "card (stale s') \<le> card (stale s)" unfolding stale by (rule card_Diff1_le)
    ultimately show ?thesis by (simp add: grant_work_def)
  next
    case 2
    have "max 0 (incoming_bytes (msgin s r)) \<le> max 0 (incoming_bytes (msgin s1 r))"
    proof -
      have "granted_base s r \<le> mi_granted (msgin s1 r)"
        unfolding s1_def send_granted using send_sent [of r s] by simp
      then show ?thesis by (simp add: incoming_bytes_def s1_def)
    qed
    moreover have "mi_rec_incoming (msgin s1 r) = mi_rec_incoming (msgin s r)" by (simp add: s1_def)
    ultimately have "max 0 (incoming_bytes (msgin s r)) < mi_rec_incoming (msgin s r)"
      using update_freed [OF 2] by linarith
    then have "r \<in> stale s"
      using assms(3) dual_order.strict_implies_not_eq unfolding stale_def by blast
    then have "card (stale s') < card (stale s)" unfolding stale by (rule card_Diff1_less [OF fin(2)])
    moreover have "card (grantable_set s') \<le> card (grantable_set s)"
      unfolding same g3 using fin(1) by (intro card_mono) simp_all
    ultimately show ?thesis by (simp add: grant_work_def)
  qed
qed

section \<open>The recalculation loop\<close>

text \<open>Grants are never taken back, and never exceed the message.\<close>

definition grants_grow :: "kstate \<Rightarrow> kstate \<Rightarrow> bool" where
  "grants_grow s s' \<longleftrightarrow> (\<forall>x. mi_length (msgin s' x) = mi_length (msgin s x) \<and>
     mi_bytes_remaining (msgin s' x) = mi_bytes_remaining (msgin s x) \<and>
     mi_granted (msgin s x) \<le> mi_granted (msgin s' x) \<and>
     (0 \<le> mi_bytes_remaining (msgin s x) \<longrightarrow>
       mi_granted (msgin s' x) \<le> max (mi_granted (msgin s x)) (mi_length (msgin s x))))"

lemma grants_grow_refl [simp]: "grants_grow s s"
  by (simp add: grants_grow_def)

lemma grants_grow_trans:
  assumes "grants_grow s s'" and "grants_grow s' s''"
  shows "grants_grow s s''"
  unfolding grants_grow_def
proof
  fix x
  show "mi_length (msgin s'' x) = mi_length (msgin s x) \<and>
     mi_bytes_remaining (msgin s'' x) = mi_bytes_remaining (msgin s x) \<and>
     mi_granted (msgin s x) \<le> mi_granted (msgin s'' x) \<and>
     (0 \<le> mi_bytes_remaining (msgin s x) \<longrightarrow>
       mi_granted (msgin s'' x) \<le> max (mi_granted (msgin s x)) (mi_length (msgin s x)))"
    using assms [unfolded grants_grow_def, THEN spec, of x] by auto
qed

lemma grants_grow_same:
  "(\<And>x. mi_granted (msgin s' x) = mi_granted (msgin s x)) \<Longrightarrow>
   (\<And>x. mi_length (msgin s' x) = mi_length (msgin s x)) \<Longrightarrow>
   (\<And>x. mi_bytes_remaining (msgin s' x) = mi_bytes_remaining (msgin s x)) \<Longrightarrow> grants_grow s s'"
  by (simp add: grants_grow_def)

lemma send_grants_grow: "grants_grow s (fst (homa_grant_send r s))"
  unfolding grants_grow_def
proof
  fix x
  have "grant_increment s r \<le> mi_length (msgin s r) - granted_base s r"
    by (simp add: grant_increment_def Let_def min_le_iff_disj)
  then show "mi_length (msgin (fst (homa_grant_send r s)) x) = mi_length (msgin s x) \<and>
     mi_bytes_remaining (msgin (fst (homa_grant_send r s)) x) = mi_bytes_remaining (msgin s x) \<and>
     mi_granted (msgin s x) \<le> mi_granted (msgin (fst (homa_grant_send r s)) x) \<and>
     (0 \<le> mi_bytes_remaining (msgin s x) \<longrightarrow> mi_granted (msgin (fst (homa_grant_send r s)) x)
       \<le> max (mi_granted (msgin s x)) (mi_length (msgin s x)))"
    using send_granted [of r s] send_sent [of r s] by (cases "x = r") (auto split: if_splits)
qed

text \<open>What the proofs below use of a step of the recalculation.\<close>

definition grant_step :: "rpc_ptr set \<Rightarrow> kstate \<Rightarrow> kstate \<Rightarrow> bool" where
  "grant_step R s s' \<longleftrightarrow> (grant_inv R s \<longrightarrow> grant_inv R s') \<and> grant_work s' \<le> grant_work s \<and>
     grantable_set s' \<subseteq> grantable_set s \<and> grants_grow s s'"

lemma grant_step_trans: "grant_step R s s' \<Longrightarrow> grant_step R s' s'' \<Longrightarrow> grant_step R s s''"
  using grants_grow_trans [of s s' s''] by (auto simp: grant_step_def)

lemma grant_step_same:
  assumes "ks_peers s' = ks_peers s" and "grantable_peers s' = grantable_peers s"
    and "h_num_grantable_rpcs (ks_homa s') = h_num_grantable_rpcs (ks_homa s)"
    and "h_total_incoming (ks_homa s') = h_total_incoming (ks_homa s)"
    and "\<And>x. rp_peer (ks_rpcs s' x) = rp_peer (ks_rpcs s x)"
    and "\<And>x. mi_rec_incoming (msgin s' x) = mi_rec_incoming (msgin s x)"
    and "\<And>x. mi_granted (msgin s' x) = mi_granted (msgin s x)"
    and "\<And>x. mi_length (msgin s' x) = mi_length (msgin s x)"
    and "\<And>x. mi_bytes_remaining (msgin s' x) = mi_bytes_remaining (msgin s x)"
  shows "grant_step R s s'"
proof -
  note g = grant_links_cong [OF assms(1-3,5)]
  have "accounted R s' = accounted R s" by (rule accounted_cong [OF assms(4,6)])
  moreover have "stale s' = stale s" using assms by (simp add: stale_def g(2) incoming_bytes_def)
  ultimately show ?thesis
    using g grants_grow_same [of s' s] assms by (simp add: grant_step_def grant_inv_def grant_work_def)
qed

lemma grant_one_step:
  assumes "finite R" and "grant_inv R s" and "r \<in> grantable_set s"
  shows "grant_step R s (fst (grant_one now r s))"
    and "grantable_set s - {r} \<subseteq> grantable_set (fst (grant_one now r s))"
    and "snd (grant_one now r s) \<Longrightarrow> grant_work (fst (grant_one now r s)) < grant_work s"
proof -
  note one = grant_one_effect [OF assms prod.collapse [symmetric], of now]
  have "grants_grow (fst (homa_grant_send r s)) (fst (grant_one now r s))"
    by (rule grants_grow_same) (simp_all add: grant_one_def Let_def case_prod_beta)
  then have "grants_grow s (fst (grant_one now r s))"
    using send_grants_grow grants_grow_trans by blast
  then show "grant_step R s (fst (grant_one now r s))"
    using one(1,3) by (auto simp: grant_step_def one(2))
  show "grantable_set s - {r} \<subseteq> grantable_set (fst (grant_one now r s))"
    unfolding one(2) by auto
  show "snd (grant_one now r s) \<Longrightarrow> grant_work (fst (grant_one now r s)) < grant_work s"
    by (rule one(4))
qed

lemma grant_active_step:
  assumes "finite R" and "grant_inv R s" and "set rs \<subseteq> grantable_set s" and "distinct rs"
    and "grant_active now rs s = (s', again)"
  shows "grant_step R s s' \<and> (again \<longrightarrow> grant_work s' < grant_work s)"
  using assms(2-)
proof (induction rs arbitrary: s again)
  case Nil
  then show ?case by (auto simp: grant_step_def)
next
  case (Cons r rs)
  let ?s1 = "fst (grant_one now r s)"
  have r: "r \<in> grantable_set s" using Cons.prems(2) by simp
  note one = grant_one_step [OF assms(1) Cons.prems(1) r, of now]
  obtain again2 where tail: "grant_active now rs ?s1 = (s', again2)" and again: "again = (snd (grant_one now r s) \<or> again2)"
    using Cons.prems(4) by (auto simp: Let_def split: prod.splits)
  have "grant_inv R ?s1" using one(1) Cons.prems(1) by (simp add: grant_step_def)
  moreover have "set rs \<subseteq> grantable_set ?s1" using one(2) Cons.prems(2,3) by auto
  ultimately have IH: "grant_step R ?s1 s' \<and> (again2 \<longrightarrow> grant_work s' < grant_work ?s1)"
    using Cons.IH [OF _ _ _ tail] Cons.prems(3) by simp
  have "grant_work s' \<le> grant_work ?s1" "grant_work ?s1 \<le> grant_work s"
    using IH one(1) by (auto simp: grant_step_def)
  then have "again \<longrightarrow> grant_work s' < grant_work s"
    using IH one(3) again by auto
  then show ?case using IH grant_step_trans [OF one(1)] by simp
qed

lemma pick_from_peer_from:
  assumes "pick_from_peer s m per_peer rs acc taken = (acc', taken')"
  shows "set acc' \<subseteq> set acc \<union> set rs" and "distinct (acc @ rs) \<Longrightarrow> distinct acc'"
proof -
  have "set acc' \<subseteq> set acc \<union> set rs \<and> (distinct (acc @ rs) \<longrightarrow> distinct acc')"
    using assms
  proof (induction rs arbitrary: acc taken)
    case (Cons r rs)
    let ?k = "pick_pos s r acc"
    define acc1 where "acc1 = take m (take ?k acc @ r # drop ?k acc)"
    have sets: "set acc1 \<subseteq> insert r (set acc)"
      unfolding acc1_def using set_take_subset [of m] by (fastforce dest: in_set_takeD in_set_dropD)
    have "distinct acc1" if "distinct acc" "r \<notin> set acc"
      unfolding acc1_def using that set_take_disj_set_drop_if_distinct [of acc ?k ?k]
      by (intro distinct_take) (auto dest: in_set_takeD in_set_dropD)
    then have dist: "distinct (acc @ r # rs) \<Longrightarrow> distinct (acc1 @ rs)"
      using sets by auto
    consider "acc' = acc" | "acc' = acc1" | "pick_from_peer s m per_peer rs acc1 (taken + 1) = (acc', taken')"
      using Cons.prems unfolding pick_from_peer.simps Let_def acc1_def [symmetric] by (auto split: if_splits)
    then show ?case
    proof cases
      case 3
      from Cons.IH [OF this] show ?thesis using sets dist by auto
    qed (use sets dist in auto)
  qed simp
  then show "set acc' \<subseteq> set acc \<union> set rs" and "distinct (acc @ rs) \<Longrightarrow> distinct acc'" by blast+
qed

lemma pick_from_peers_from:
  assumes "grant_links s" and "distinct ps" and "distinct acc"
    and "\<forall>p \<in> set ps. set acc \<inter> set (grantable s p) = {}"
  shows "set (pick_from_peers s m per_peer ps acc) \<subseteq> set acc \<union> (\<Union>p \<in> set ps. set (grantable s p)) \<and>
    distinct (pick_from_peers s m per_peer ps acc)"
  using assms(2-)
proof (induction ps arbitrary: acc)
  case (Cons p ps)
  obtain acc1 taken where pick: "pick_from_peer s m per_peer (grantable s p) acc 0 = (acc1, taken)" by fastforce
  note chosen = pick_from_peer_from [OF pick]
  have "distinct (acc @ grantable s p)"
    using Cons.prems grant_linksD(1) [OF assms(1), of p] by auto
  then have dist: "distinct acc1" by (rule chosen(2))
  have "x \<notin> set (grantable s q)" if "x \<in> set (grantable s p)" "q \<in> set ps" for x q
    using that Cons.prems(1) grant_linksD(2) [OF assms(1), of x p] grant_linksD(2) [OF assms(1), of x q] by auto
  then have "\<forall>q \<in> set ps. set acc1 \<inter> set (grantable s q) = {}"
    using chosen(1) Cons.prems(3) by (simp add: disjoint_iff) blast
  from Cons.IH [OF _ dist this] Cons.prems(1)
  have IH: "set (pick_from_peers s m per_peer ps acc1) \<subseteq> set acc1 \<union> (\<Union>p \<in> set ps. set (grantable s p)) \<and>
    distinct (pick_from_peers s m per_peer ps acc1)" by simp
  have "pick_from_peers s m per_peer (p # ps) acc = (if taken = 0 then acc1 else pick_from_peers s m per_peer ps acc1)"
    by (simp add: pick)
  then show ?case using IH chosen(1) dist by auto
qed simp

lemma pick_rpcs_from:
  assumes "grant_links s"
  shows "set (homa_grant_pick_rpcs s m) \<subseteq> grantable_set s" and "distinct (homa_grant_pick_rpcs s m)"
  using pick_from_peers_from [OF assms grant_linksD(3) [OF assms], of "[]" m "h_max_rpcs_per_peer (ks_homa s)"]
  by (simp_all add: homa_grant_pick_rpcs_def grantable_set_lists [OF assms])

lemma clear_ranks_step: "grant_step R s (clear_ranks rs s)"
proof (induction rs arbitrary: s)
  case Nil
  show ?case by (intro grant_step_same) simp_all
next
  case (Cons r rs)
  have "grant_step R s (upd_msgin r (\<lambda>m. m\<lparr>mi_rank := -1\<rparr>) s)"
    by (intro grant_step_same) simp_all
  from grant_step_trans [OF this Cons.IH] show ?case by simp
qed

lemma set_ranks_step:
  "grant_step R s (set_ranks active i rs s) \<and> grantable_set (set_ranks active i rs s) = grantable_set s"
proof (induction rs arbitrary: s i)
  case Nil
  then show ?case by (intro conjI grant_step_same) simp_all
next
  case (Cons r rs)
  define s1 where "s1 = upd_rpc r (\<lambda>rpc. rpc\<lparr>rp_grants_in_progress := rp_grants_in_progress rpc + 1\<rparr>) s"
  define s2 where "s2 = upd_homa (\<lambda>h. h\<lparr>h_active_remaining := (h_active_remaining h)[i := mi_bytes_remaining (msgin s1 r)]\<rparr>) s1"
  define s3 where "s3 = upd_msgin r (\<lambda>m. m\<lparr>mi_rank := int i, mi_priority := grant_priority (ks_homa s2) active (int i)\<rparr>) s2"
  have ranks: "set_ranks active i (r # rs) s = set_ranks active (i + 1) rs s3"
    by (simp add: s1_def s2_def s3_def Let_def)
  have "grant_step R s s3" and "grantable_set s3 = grantable_set s"
    by (intro grant_step_same grant_links_cong(2); simp add: s1_def s2_def s3_def)+
  then show ?case
    unfolding ranks using Cons.IH [of s3 "i + 1"] grant_step_trans by metis
qed

lemma recalc_round_step:
  assumes "finite R" and "grant_inv R s" and "recalc_round now s = (s', again)"
  shows "grant_step R s s'" and "again \<Longrightarrow> grant_work s' < grant_work s"
proof -
  define s1 where "s1 = upd_homa (\<lambda>h. h\<lparr>h_grant_recalc_count := h_grant_recalc_count h + 1\<rparr>) s"
  define s2 where "s2 = clear_ranks (h_active_rpcs (ks_homa s1)) s1"
  define active where "active = homa_grant_pick_rpcs s2 (nat (h_max_overcommit (ks_homa s2)))"
  define s3 where "s3 = upd_homa (\<lambda>h. h\<lparr>h_active_rpcs := active\<rparr>) s2"
  define s4 where "s4 = set_ranks (int (length active)) 0 active s3"
  define s5 where "s5 = upd_homa (\<lambda>h. h\<lparr>h_grant_window :=
     if h_window_param h \<noteq> 0 then h_window_param h else h_max_incoming h sdiv (int (length active) + 1)\<rparr>) s4"
  have round: "grant_active now active s5 = (s', again)"
    using assms(3) unfolding recalc_round_def Let_def s1_def s2_def active_def s3_def s4_def s5_def by simp
  have "grant_step R s s1" by (intro grant_step_same) (simp_all add: s1_def)
  moreover have "grant_step R s1 s2" unfolding s2_def by (rule clear_ranks_step)
  ultimately have s2: "grant_step R s s2" by (rule grant_step_trans)
  have g3: "grantable_set s3 = grantable_set s2" and s3: "grant_step R s2 s3"
    by (intro grant_step_same grant_links_cong(2); simp add: s3_def)+
  have g4: "grantable_set s4 = grantable_set s3" and s4: "grant_step R s3 s4"
    using set_ranks_step by (simp_all add: s4_def)
  have g5: "grantable_set s5 = grantable_set s4" and s5: "grant_step R s4 s5"
    by (intro grant_step_same grant_links_cong(2); simp add: s5_def)+
  have step: "grant_step R s s5"
    by (rule grant_step_trans [OF grant_step_trans [OF grant_step_trans [OF s2 s3] s4] s5])
  have inv: "grant_inv R s5" using step assms(2) by (simp add: grant_step_def)
  have "grant_links s2" using s2 assms(2) by (simp add: grant_step_def grant_inv_def)
  then have "set active \<subseteq> grantable_set s5" and "distinct active"
    using pick_rpcs_from by (simp_all add: active_def g3 g4 g5)
  note last = grant_active_step [OF assms(1) inv this round]
  then show "grant_step R s s'" using step grant_step_trans by blast
  show "again \<Longrightarrow> grant_work s' < grant_work s" using last step by (simp add: grant_step_def)
qed

lemma recalc_ends:
  assumes "finite R" and "grant_inv R s" and "grant_work s < fuel"
  shows "\<exists>s'. homa_grant_recalc fuel now s = Some s' \<and> grant_step R s s'"
  using assms(2,3)
proof (induction fuel arbitrary: s)
  case (Suc fuel)
  obtain s1 again where round: "recalc_round now s = (s1, again)" by fastforce
  note step = recalc_round_step [OF assms(1) Suc.prems(1) round]
  show ?case
  proof (cases again)
    case True
    then have "grant_work s1 < fuel" using step(2) Suc.prems(2) by simp
    moreover have "grant_inv R s1" using step(1) Suc.prems(1) by (simp add: grant_step_def)
    ultimately obtain s' where "homa_grant_recalc fuel now s1 = Some s'" "grant_step R s1 s'"
      using Suc.IH by blast
    then show ?thesis using True round grant_step_trans [OF step(1)] by simp
  qed (use step(1) round in simp)
qed simp

lemma grant_work_bound:
  assumes "finite R" and "grant_inv R s"
  shows "grant_work s \<le> 2 * card (grantable_set s)" and "card (grantable_set s) \<le> card R"
proof -
  have fin: "finite (grantable_set s)" and sub: "grantable_set s \<subseteq> R"
    using assms finite_grantable_set by (auto simp: grant_inv_def)
  have "card (stale s) \<le> card (grantable_set s)" using fin by (intro card_mono) (auto simp: stale_def)
  then show "grant_work s \<le> 2 * card (grantable_set s)" by (simp add: grant_work_def)
  show "card (grantable_set s) \<le> card R" using assms(1) sub by (rule card_mono)
qed

section \<open>Properties\<close>

text \<open>
  C19: A grant never asks for more than the limits allow: if \<open>homa_grant_send\<close> sends a grant,
  it sends exactly one packet, whose offset is the new \<open>granted\<close>, above the old one and within
  the message, and once the RPC is accounted for neither its own incoming bytes exceed
  \<open>grant_window\<close> nor the total exceeds \<open>max_incoming\<close>; otherwise it sends nothing.
\<close>

theorem homa_grant_send_limits:
  assumes "homa_grant_send r s = (s1, sent)" and "homa_grant_update_incoming r s1 = (s2, freed)"
    and "0 \<le> mi_bytes_remaining (msgin s r)"
  shows "(sent \<longrightarrow>
      mi_granted (msgin s r) < mi_granted (msgin s2 r) \<and> mi_granted (msgin s2 r) \<le> mi_length (msgin s r) \<and>
      mi_rec_incoming (msgin s2 r) \<le> h_grant_window (ks_homa s) \<and>
      h_total_incoming (ks_homa s2) \<le> h_max_incoming (ks_homa s) \<and>
      map xm_body (ks_xmits s2) = map xm_body (ks_xmits s) @
        [XGrant (mi_granted (msgin s2 r)) (mi_priority (msgin s r)) (mi_resend_all (msgin s r))]) \<and>
    (\<not> sent \<longrightarrow> ks_xmits s2 = ks_xmits s)"
proof (cases sent)
  case True
  let ?inc = "grant_increment s r"
  have s1: "s1 = fst (homa_grant_send r s)" and s2: "s2 = fst (homa_grant_update_incoming r s1)"
    and pos: "0 < ?inc" "rp_silent_ticks (ks_rpcs s r) \<le> 1"
    using assms(1,2) True send_sent [of r s] by simp_all
  have granted: "mi_granted (msgin s1 r) = granted_base s r + ?inc"
    using send_granted [of r s] assms(1) True by simp
  have inc: "?inc \<le> h_grant_window (ks_homa s) - max 0 (incoming_bytes (msgin s r))"
    "?inc \<le> mi_length (msgin s r) - granted_base s r"
    "?inc \<le> h_max_incoming (ks_homa s) - h_total_incoming (ks_homa s) + mi_rec_incoming (msgin s r)
       - max 0 (incoming_bytes (msgin s r))"
    by (simp_all add: grant_increment_def Let_def)
  have incoming: "incoming_bytes (msgin s1 r) = max 0 (incoming_bytes (msgin s r)) + ?inc"
    using granted by (simp add: incoming_bytes_def [of "msgin s1 r"] s1) (simp add: incoming_bytes_def max_def)
  have "mi_rec_incoming (msgin s2 r) = max 0 (incoming_bytes (msgin s r)) + ?inc"
    unfolding s2 using incoming pos(1) by simp
  moreover have "h_total_incoming (ks_homa s2) =
      h_total_incoming (ks_homa s) + (max 0 (incoming_bytes (msgin s r)) + ?inc) - mi_rec_incoming (msgin s r)"
    unfolding s2 update_total incoming using pos(1) by (simp add: s1)
  moreover have "mi_granted (msgin s2 r) = granted_base s r + ?inc"
    using granted by (simp add: s2)
  moreover have "map xm_body (ks_xmits s2) = map xm_body (ks_xmits s) @
        [XGrant (granted_base s r + ?inc) (mi_priority (msgin s r)) (mi_resend_all (msgin s r))]"
    using pos unfolding s2 update_sel s1 send_eq Let_def by (simp add: xmits_homa_xmit_control)
  moreover have "mi_granted (msgin s r) < granted_base s r + ?inc" using pos(1) by simp
  ultimately show ?thesis using inc True by simp
next
  case False
  have "s2 = fst (homa_grant_update_incoming r s1)" and "s1 = fst (homa_grant_send r s)"
    using assms(1,2) by simp_all
  moreover have "\<not> snd (homa_grant_send r s)" using assms(1) False by simp
  ultimately show ?thesis using False by (auto simp: send_eq Let_def split: if_splits)
qed

theorem homa_grant_send_limits_witness:
  "map xm_body (ks_xmits (fst (homa_grant_send 10 grant_example))) = [XGrant 20000 0 False]"
proof -
  obtain s1 sent where 1: "homa_grant_send 10 grant_example = (s1, sent)" by fastforce
  obtain s2 freed where 2: "homa_grant_update_incoming 10 s1 = (s2, freed)" by fastforce
  have "grant_increment grant_example 10 = 5000"
    by (simp add: grant_increment_def Let_def incoming_bytes_def grant_example_defs)
  moreover have "rp_silent_ticks (ks_rpcs grant_example 10) = 0" by (simp add: grant_example_defs)
  ultimately have sent
    using send_sent [of 10 grant_example] 1 by simp
  have s2: "s2 = fst (homa_grant_update_incoming 10 s1)" and s1: "s1 = fst (homa_grant_send 10 grant_example)"
    using 1 2 by simp_all
  have "mi_granted (msgin s2 10) = 20000"
    using send_granted [of 10 grant_example] \<open>sent\<close> 1 \<open>grant_increment grant_example 10 = 5000\<close>
    by (simp add: s2) (simp add: grant_example_defs)
  then show ?thesis
    using homa_grant_send_limits [OF 1 2] \<open>sent\<close> s2 s1 by (simp add: grant_example_defs)
qed

text \<open>
  C11: \<open>homa_grant_recalc\<close> ends: its loop runs at most twice per grantable RPC and once more.  It
  keeps the lists linked and counted and \<open>total_incoming\<close> the sum of the recorded incoming bytes,
  adds no RPC to the lists, never takes a grant back and never grants past the end of a message.
\<close>

theorem homa_grant_recalc_ends:
  assumes "finite R" and "grant_inv R s" and "2 * h_num_grantable_rpcs (ks_homa s) < int fuel"
  shows "\<exists>s'. homa_grant_recalc fuel now s = Some s' \<and> grant_inv R s' \<and>
    grantable_set s' \<subseteq> grantable_set s \<and> grants_grow s s'"
proof -
  have "h_num_grantable_rpcs (ks_homa s) = int (card (grantable_set s))"
    using assms(2) grant_linksD(5) by (simp add: grant_inv_def)
  then have "grant_work s < fuel" using grant_work_bound(1) [OF assms(1,2)] assms(3) by simp
  from recalc_ends [OF assms(1,2) this] show ?thesis using assms(2) by (auto simp: grant_step_def)
qed

lemma grant_example_inv: "grant_inv {10, 11, 12} grant_example"
proof -
  have "accounted {10, 11, 12} grant_example" by (simp add: accounted_def grant_example_defs)
  moreover have "grantable_set grant_example \<subseteq> {10, 11, 12}"
    by (auto simp: grantable_set_def is_grantable_def grant_example_defs split: if_splits)
  ultimately show ?thesis using grant_example_links by (simp add: grant_inv_def)
qed

theorem homa_grant_recalc_ends_witness:
  "\<exists>s'. homa_grant_recalc 7 4 grant_example = Some s' \<and> grant_inv {10, 11, 12} s' \<and>
    grantable_set s' \<subseteq> grantable_set grant_example \<and> grants_grow grant_example s'"
  by (rule homa_grant_recalc_ends [OF _ grant_example_inv]) (simp_all add: grant_example_defs)

lemma update_inv:
  assumes "finite R" and "r \<in> R" and "grant_inv R s"
  shows "grant_inv R (fst (homa_grant_update_incoming r s))"
proof -
  let ?s = "fst (homa_grant_update_incoming r s)"
  have "grant_links ?s = grant_links s" and "grantable_set ?s = grantable_set s"
    by (intro grant_links_cong; simp)+
  then show ?thesis using update_accounted [OF assms(1,2)] assms(3) by (simp add: grant_inv_def)
qed

lemma update_grants_grow: "grants_grow s (fst (homa_grant_update_incoming r s))"
  by (rule grants_grow_same) simp_all

lemma send_inv: "grant_inv R (fst (homa_grant_send r s)) = grant_inv R s"
proof -
  have "grant_links (fst (homa_grant_send r s)) = grant_links s"
    and "grantable_set (fst (homa_grant_send r s)) = grantable_set s"
    by (intro grant_links_cong; simp)+
  then show ?thesis by (simp add: grant_inv_def)
qed

lemma remove_inv: "grant_inv R s \<Longrightarrow> grant_inv R (homa_grant_remove_rpc now r s)"
  using remove_rpc_links [of s now r] remove_rpc_grantable [of s now r]
  by (auto simp: grant_inv_def grantable_set_def)

lemma add_inv: "grant_inv R s \<Longrightarrow> r \<in> R \<Longrightarrow> grant_inv R (homa_grant_add_rpc now r s)"
  using add_rpc_links [of s now r] by (auto simp: grant_inv_def grantable_set_def add_rpc_grantable)

lemma recalc_within:
  assumes "finite R" and "grant_inv R s" and "2 * card R < fuel"
  shows "\<exists>s'. homa_grant_recalc fuel now s = Some s' \<and> grant_inv R s' \<and>
    grantable_set s' \<subseteq> grantable_set s \<and> grants_grow s s'"
proof -
  have "grant_work s < fuel" using grant_work_bound [OF assms(1,2)] assms(3) by simp
  from recalc_ends [OF assms(1,2) this] show ?thesis using assms(2) by (auto simp: grant_step_def)
qed

text \<open>A step of an entry point that keeps the invariant.\<close>

definition grant_ok :: "rpc_ptr set \<Rightarrow> kstate \<Rightarrow> kstate \<Rightarrow> bool" where
  "grant_ok R s s' \<longleftrightarrow> grant_inv R s' \<and> grants_grow s s'"

lemma grant_okI: "grant_ok R s s1 \<Longrightarrow> grants_grow s1 s2 \<Longrightarrow> grant_inv R s2 \<Longrightarrow> grant_ok R s s2"
  using grants_grow_trans [of s s1 s2] by (simp add: grant_ok_def)

lemma grant_ok_inv: "grant_ok R s s1 \<Longrightarrow> grant_inv R s1"
  by (simp add: grant_ok_def)

lemma grant_ok_recalc:
  assumes "grant_ok R s s1" and "finite R" and "2 * card R < fuel"
  shows "\<exists>s'. homa_grant_recalc fuel now s1 = Some s' \<and> grant_ok R s s'"
proof -
  obtain s' where "homa_grant_recalc fuel now s1 = Some s'" "grant_inv R s'" "grants_grow s1 s'"
    using recalc_within [OF assms(2) grant_ok_inv [OF assms(1)] assms(3)] by blast
  then show ?thesis using grant_okI [OF assms(1)] by blast
qed

lemma grant_ok_update:
  assumes "grant_ok R s s1" and "finite R" and "r \<in> R"
  shows "grant_ok R s (fst (homa_grant_update_incoming r s1))"
  by (rule grant_okI [OF assms(1) update_grants_grow update_inv [OF assms(2,3) grant_ok_inv [OF assms(1)]]])

lemma grant_ok_send:
  assumes "grant_ok R s s1"
  shows "grant_ok R s (fst (homa_grant_send r s1))"
  by (rule grant_okI [OF assms send_grants_grow]) (simp add: send_inv grant_ok_inv [OF assms])

lemma grant_ok_remove:
  assumes "grant_ok R s s1"
  shows "grant_ok R s (homa_grant_remove_rpc now r s1)"
  by (rule grant_okI [OF assms grants_grow_same remove_inv [OF grant_ok_inv [OF assms]]]) simp_all

lemma position_rpc_msgin [heap_simps, simp]:
  "mi_granted (msgin (position_rpc now r s) x) = mi_granted (msgin s x)"
  "mi_length (msgin (position_rpc now r s) x) = mi_length (msgin s x)"
  by (simp_all add: position_rpc_def Let_def)

lemma grant_ok_add:
  assumes "grant_ok R s s1" and "r \<in> R"
  shows "grant_ok R s (homa_grant_add_rpc now r s1)"
  by (rule grant_okI [OF assms(1) grants_grow_same add_inv [OF grant_ok_inv [OF assms(1)] assms(2)]])
    (simp_all add: homa_grant_add_rpc_def)

lemma grant_ok_remaining:
  assumes "grant_ok R s s1"
  shows "grant_ok R s (upd_homa (\<lambda>h. h\<lparr>h_active_remaining := (h_active_remaining h)[i := n]\<rparr>) s1)"
proof -
  let ?s = "upd_homa (\<lambda>h. h\<lparr>h_active_remaining := (h_active_remaining h)[i := n]\<rparr>) s1"
  have step: "grant_step R s1 ?s" by (intro grant_step_same) simp_all
  then have "grants_grow s1 ?s" and "grant_inv R ?s"
    using grant_ok_inv [OF assms] by (simp_all only: grant_step_def)
  then show ?thesis by (rule grant_okI [OF assms])
qed

text \<open>\<open>max_overcommit\<close> is in the range that the code assumes; \<open>homa_incoming_sysctl_changed\<close> ensures the upper bound only.\<close>

definition overcommit_ok :: "homa \<Rightarrow> bool" where
  "overcommit_ok h \<longleftrightarrow> 0 < h_max_overcommit h \<and> h_max_overcommit h \<le> int HOMA_MAX_GRANTS"

lemma worst_active_ok: "overcommit_ok h \<Longrightarrow> worst_active h = Some (h_active_remaining h ! nat (h_max_overcommit h - 1))"
  by (simp add: overcommit_ok_def worst_active_def)

lemma check_rpc_result:
  assumes "finite R" and "r \<in> R" and "grant_inv R s" and "2 * card R < fuel" and "overcommit_ok (ks_homa s)"
  shows "\<exists>s'. homa_grant_check_rpc fuel now r s = Some s' \<and> grant_inv R s' \<and> grants_grow s s'"
proof -
  note recalc = grant_ok_recalc [OF _ assms(1,4)]
  have s: "grant_ok R s s" using assms(3) by (simp add: grant_ok_def)
  let ?u = "fst (homa_grant_update_incoming r s)"
  have u: "grant_ok R s ?u" by (rule grant_ok_update [OF s assms(1,2)])
  let ?a = "homa_grant_add_rpc now r ?u"
  have a: "grant_ok R s ?a" by (rule grant_ok_add [OF u assms(2)])
  let ?v = "upd_homa (\<lambda>h. h\<lparr>h_active_remaining := (h_active_remaining h)
               [nat (mi_rank (msgin s r)) := mi_bytes_remaining (msgin s r)]\<rparr>) s"
  have v: "grant_ok R s ?v" by (rule grant_ok_remaining [OF s])
  let ?vu = "fst (homa_grant_update_incoming r ?v)"
  have vu: "grant_ok R s ?vu" by (rule grant_ok_update [OF v assms(1,2)])
  let ?w = "fst (homa_grant_update_incoming r (fst (homa_grant_send r ?v)))"
  have w: "grant_ok R s ?w" by (rule grant_ok_update [OF grant_ok_send [OF v] assms(1,2)])
  let ?x = "homa_grant_remove_rpc now r ?w"
  have x: "grant_ok R s ?x" by (rule grant_ok_remove [OF w])
  define ok where "ok res \<longleftrightarrow> (\<exists>s'. res = Some s' \<and> grant_ok R s s')" for res
  have ok_if: "ok res \<Longrightarrow> ok res' \<Longrightarrow> ok (if b then res else res')" for b res res' by simp
  have ok_Some: "grant_ok R s s' \<Longrightarrow> ok (Some s')" for s' by (simp add: ok_def)
  have ok_recalc: "grant_ok R s s1 \<Longrightarrow> ok (homa_grant_recalc fuel now s1)" for s1
    unfolding ok_def by (rule recalc)
  have "ok (homa_grant_check_rpc fuel now r s)"
    unfolding homa_grant_check_rpc_def Let_def case_prod_beta worst_active_ok [OF assms(5)] option.case
    by (intro ok_if ok_Some ok_recalc s u a w vu x)
  then show ?thesis by (simp add: grant_ok_def ok_def)
qed

lemma free_rpc_result:
  assumes "finite R" and "r \<in> R" and "grant_inv R s" and "2 * card R < fuel"
  shows "\<exists>s'. homa_grant_free_rpc fuel now r s = Some s' \<and> grant_inv (R - {r}) s'"
proof -
  have "\<exists>s1. (if is_grantable s r then
                let s' = homa_grant_remove_rpc now r s in
                if mi_rank (msgin s' r) \<ge> 0 then homa_grant_recalc fuel now s' else Some s'
              else Some s) = Some s1 \<and> grant_inv R s1 \<and> r \<notin> grantable_set s1"
  proof (cases "is_grantable s r")
    case True
    let ?s = "homa_grant_remove_rpc now r s"
    have inv: "grant_inv R ?s" by (rule remove_inv [OF assms(3)])
    have off: "r \<notin> grantable_set ?s"
      using assms(3) remove_rpc_grantable [of s now r r] by (simp add: grantable_set_def grant_inv_def)
    obtain s' where "homa_grant_recalc fuel now ?s = Some s'" "grant_inv R s'" "grantable_set s' \<subseteq> grantable_set ?s"
      using recalc_within [OF assms(1) inv assms(4)] by blast
    then show ?thesis using True inv off by (auto simp: Let_def)
  qed (use assms(3) in \<open>simp add: grantable_set_def\<close>)
  then obtain s1 where after: "(if is_grantable s r then
                let s' = homa_grant_remove_rpc now r s in
                if mi_rank (msgin s' r) \<ge> 0 then homa_grant_recalc fuel now s' else Some s'
              else Some s) = Some s1" and inv: "grant_inv R s1" and off: "r \<notin> grantable_set s1" by blast
  let ?s = "if mi_rec_incoming (msgin s1 r) \<noteq> 0
     then upd_homa (\<lambda>h. h\<lparr>h_total_incoming := h_total_incoming h - mi_rec_incoming (msgin s1 r)\<rparr>) s1 else s1"
  have free: "homa_grant_free_rpc fuel now r s = Some ?s"
    using after by (simp add: homa_grant_free_rpc_def Let_def)
  have "grant_links ?s = grant_links s1" and "grantable_set ?s = grantable_set s1"
    by (intro grant_links_cong; simp)+
  moreover have "accounted (R - {r}) ?s"
    using inv assms(1,2) by (auto simp: grant_inv_def accounted_def sum.remove)
  ultimately have "grant_inv (R - {r}) ?s" using inv off by (auto simp: grant_inv_def)
  then show ?thesis using free by blast
qed

text \<open>
  When an RPC is freed, \<open>homa_grant_free_rpc\<close> returns with the RPC off the grantable lists and
  with its recorded bytes returned to \<open>total_incoming\<close>, so that the account is exact for the
  remaining RPCs.
\<close>

theorem homa_grant_free_rpc_settles:
  assumes "finite R" and "r \<in> R" and "grant_inv R s" and "2 * card R < fuel"
  shows "\<exists>s'. homa_grant_free_rpc fuel now r s = Some s' \<and> grant_inv (R - {r}) s'"
  using assms by (rule free_rpc_result)

theorem homa_grant_free_rpc_settles_witness:
  "\<exists>s'. homa_grant_free_rpc 7 4 10 grant_example = Some s' \<and> grant_inv ({10, 11, 12} - {10}) s'"
  by (rule homa_grant_free_rpc_settles [OF _ _ grant_example_inv]) simp_all

end
