(* ===== verification/Homa_Grant_Check.thy ===== *)
theory Homa_Grant_Check
imports Homa_Grant_Use
begin

text \<open>
  What \<open>homa_grant_check_rpc\<close> of \<open>homa_grant.c\<close> does in each of its cases: which RPCs it ignores, when it sends a grant, when
  it recalculates the active RPCs (seen in \<open>grant_recalc_count\<close>), and how it leaves the record and the list entry of the RPC.
\<close>

section \<open>The recalculation and one RPC\<close>

text \<open>The record of the RPC is exact, and it is on the list of its peer exactly if it is not fully granted.\<close>

definition settled :: "rpc_ptr \<Rightarrow> kstate \<Rightarrow> bool" where
  "settled r s \<longleftrightarrow> mi_rec_incoming (msgin s r) = max 0 (incoming_bytes (msgin s r)) \<and>
     (is_grantable s r \<longleftrightarrow> mi_granted (msgin s r) < mi_length (msgin s r))"

definition same_grants :: "rpc_ptr \<Rightarrow> kstate \<Rightarrow> kstate \<Rightarrow> bool" where
  "same_grants r s s' \<longleftrightarrow> is_grantable s' r = is_grantable s r \<and>
     mi_rec_incoming (msgin s' r) = mi_rec_incoming (msgin s r) \<and> mi_granted (msgin s' r) = mi_granted (msgin s r) \<and>
     mi_length (msgin s' r) = mi_length (msgin s r) \<and> mi_bytes_remaining (msgin s' r) = mi_bytes_remaining (msgin s r)"

lemma same_grants_settled: "same_grants r s s' \<Longrightarrow> settled r s' = settled r s"
  by (simp add: same_grants_def settled_def incoming_bytes_def)

lemma same_grants_trans: "same_grants r s s' \<Longrightarrow> same_grants r s' s'' \<Longrightarrow> same_grants r s s''"
  by (simp add: same_grants_def)

text \<open>The packets and the recalculations so far.\<close>

definition same_log :: "kstate \<Rightarrow> kstate \<Rightarrow> bool" where
  "same_log s s' \<longleftrightarrow> ks_xmits s' = ks_xmits s \<and> h_grant_recalc_count (ks_homa s') = h_grant_recalc_count (ks_homa s)"

definition more_log :: "kstate \<Rightarrow> kstate \<Rightarrow> bool" where
  "more_log s s' \<longleftrightarrow> (\<exists>xs. ks_xmits s' = ks_xmits s @ xs) \<and>
     h_grant_recalc_count (ks_homa s) \<le> h_grant_recalc_count (ks_homa s')"

lemma more_log_refl: "more_log s s" and same_more: "same_log s s' \<Longrightarrow> more_log s s'"
  by (simp_all add: more_log_def same_log_def)

lemma more_log_trans: "more_log s s' \<Longrightarrow> more_log s' s'' \<Longrightarrow> more_log s s''"
  by (auto simp: more_log_def)

lemma same_log_trans: "same_log s s' \<Longrightarrow> same_log s' s'' \<Longrightarrow> same_log s s''"
  by (simp add: same_log_def)

lemma clear_ranks_same: "same_grants r s (clear_ranks rs s) \<and> same_log s (clear_ranks rs s)"
proof (induction rs arbitrary: s)
  case (Cons q rs)
  let ?s = "upd_msgin q (\<lambda>m. m\<lparr>mi_rank := -1\<rparr>) s"
  have "same_grants r s ?s" "same_log s ?s" by (simp_all add: same_grants_def same_log_def is_grantable_def)
  with Cons.IH [of ?s] show ?case
    by (simp_all add: same_grants_def same_log_def)
qed (simp_all add: same_grants_def same_log_def)

lemma set_ranks_same: "same_grants r s (set_ranks n i rs s) \<and> same_log s (set_ranks n i rs s)"
proof (induction rs arbitrary: s i)
  case (Cons q rs)
  define s1 where "s1 = upd_rpc q (\<lambda>rpc. rpc\<lparr>rp_grants_in_progress := rp_grants_in_progress rpc + 1\<rparr>) s"
  define s2 where "s2 = upd_homa (\<lambda>h. h\<lparr>h_active_remaining := (h_active_remaining h)[i := mi_bytes_remaining (msgin s1 q)]\<rparr>) s1"
  define s3 where "s3 = upd_msgin q (\<lambda>m. m\<lparr>mi_rank := int i, mi_priority := grant_priority (ks_homa s2) n (int i)\<rparr>) s2"
  have ranks: "set_ranks n i (q # rs) s = set_ranks n (i + 1) rs s3" by (simp add: s1_def s2_def s3_def Let_def)
  have "same_grants r s s3" "same_log s s3"
    by (simp_all add: same_grants_def same_log_def is_grantable_def s3_def s2_def s1_def)
  with Cons.IH [of s3 "i + 1"] show ?case
    unfolding ranks by (blast intro: same_grants_trans same_log_trans)
qed (simp_all add: same_grants_def same_log_def)

lemma remove_same_log: "same_log s (homa_grant_remove_rpc now r s)"
  by (simp add: same_log_def homa_grant_remove_rpc_def Let_def)

lemma add_same_log: "same_log s (homa_grant_add_rpc now r s)"
  by (simp add: same_log_def homa_grant_add_rpc_def position_peer_def position_rpc_def Let_def count_grantable_def)

lemma update_same_log: "same_log s (fst (homa_grant_update_incoming r s))"
  by (simp add: same_log_def homa_grant_update_incoming_def Let_def)

lemma send_more_log: "more_log s (fst (homa_grant_send r s))"
  by (simp add: more_log_def send_eq Let_def xmits_homa_xmit_control)

lemma grant_one_log: "more_log s (fst (grant_one now r s))"
proof -
  define s1 where "s1 = fst (homa_grant_send r s)"
  define s2 where "s2 = fst (homa_grant_update_incoming r s1)"
  define s3 where "s3 = (if mi_granted (msgin s2 r) \<ge> mi_length (msgin s2 r) then homa_grant_remove_rpc now r s2 else s2)"
  have "same_log s1 s3"
    using update_same_log [of s1 r] same_log_trans [OF _ remove_same_log, of s1 s2 now r] by (simp add: s3_def s2_def)
  moreover have "fst (grant_one now r s) = upd_rpc r (\<lambda>rpc. rpc\<lparr>rp_grants_in_progress := rp_grants_in_progress rpc - 1\<rparr>) s3"
    by (simp add: grant_one_def Let_def case_prod_beta s1_def s2_def s3_def)
  moreover have "more_log s s1" unfolding s1_def by (rule send_more_log)
  ultimately show ?thesis by (simp add: more_log_def same_log_def)
qed

lemma grant_active_settled:
  assumes "finite R" and "grant_inv R s" and "set rs \<subseteq> grantable_set s" and "distinct rs" and "settled r s"
  shows "settled r (fst (grant_active now rs s)) \<and> more_log s (fst (grant_active now rs s))"
  using assms(2-)
proof (induction rs arbitrary: s)
  case Nil
  then show ?case by (simp add: more_log_refl)
next
  case (Cons x rs)
  let ?s1 = "fst (grant_one now x s)"
  have x: "x \<in> grantable_set s" using Cons.prems(2) by simp
  note one = grant_one_effect [OF assms(1) Cons.prems(1) x prod.collapse [symmetric], where now = now]
  have g: "is_grantable ?s1 r \<longleftrightarrow> is_grantable s r \<and> (r = x \<longrightarrow> mi_granted (msgin ?s1 x) < mi_length (msgin ?s1 x))"
  proof -
    have "r \<in> grantable_set ?s1 \<longleftrightarrow> r \<in> grantable_set s \<and> (r = x \<longrightarrow> mi_granted (msgin ?s1 x) < mi_length (msgin ?s1 x))"
      unfolding one(2) by (simp add: not_le)
    then show ?thesis by (simp only: grantable_set_def mem_Collect_eq)
  qed
  have "settled r ?s1"
  proof (cases "r = x")
    case True
    then show ?thesis using g one(5) x by (simp add: settled_def grantable_set_def)
  next
    case False
    then show ?thesis using g one(6) [OF False] Cons.prems(4) by (simp add: settled_def)
  qed
  moreover have "set rs \<subseteq> grantable_set ?s1"
    using grant_one_step(2) [OF assms(1) Cons.prems(1) x, of now] Cons.prems(2,3) by auto
  ultimately have "settled r (fst (grant_active now rs ?s1)) \<and> more_log ?s1 (fst (grant_active now rs ?s1))"
    using Cons.IH [OF one(1)] Cons.prems(3) by simp
  moreover have "fst (grant_active now (x # rs) s) = fst (grant_active now rs ?s1)" by (simp add: Let_def case_prod_beta)
  ultimately show ?case using more_log_trans [OF grant_one_log [of s now x]] by (simp only:)
qed

lemma recalc_round_settled:
  assumes "finite R" and "grant_inv R s" and "settled r s"
  shows "settled r (fst (recalc_round now s))" and "\<exists>xs. ks_xmits (fst (recalc_round now s)) = ks_xmits s @ xs"
    and "h_grant_recalc_count (ks_homa s) < h_grant_recalc_count (ks_homa (fst (recalc_round now s)))"
proof -
  define s1 where "s1 = upd_homa (\<lambda>h. h\<lparr>h_grant_recalc_count := h_grant_recalc_count h + 1\<rparr>) s"
  define s2 where "s2 = clear_ranks (h_active_rpcs (ks_homa s1)) s1"
  define active where "active = homa_grant_pick_rpcs s2 (nat (h_max_overcommit (ks_homa s2)))"
  define s3 where "s3 = upd_homa (\<lambda>h. h\<lparr>h_active_rpcs := active\<rparr>) s2"
  define s4 where "s4 = set_ranks (int (length active)) 0 active s3"
  define s5 where "s5 = upd_homa (\<lambda>h. h\<lparr>h_grant_window :=
     if h_window_param h \<noteq> 0 then h_window_param h else h_max_incoming h sdiv (int (length active) + 1)\<rparr>) s4"
  have round: "recalc_round now s = grant_active now active s5"
    unfolding recalc_round_def Let_def s1_def s2_def active_def s3_def s4_def s5_def by simp
  have s1: "same_grants x s s1" for x by (simp add: same_grants_def is_grantable_def s1_def)
  have s3: "same_grants x s2 s3" "same_log s2 s3" for x by (simp_all add: same_grants_def same_log_def is_grantable_def s3_def)
  have s5: "same_grants x s4 s5" "same_log s4 s5" for x by (simp_all add: same_grants_def same_log_def is_grantable_def s5_def)
  have s2: "same_grants x s1 s2" "same_log s1 s2" for x using clear_ranks_same by (simp_all add: s2_def)
  have s4: "same_grants x s3 s4" "same_log s3 s4" for x using set_ranks_same by (simp_all add: s4_def)
  have same: "same_grants x s s5" for x
    by (rule same_grants_trans [OF same_grants_trans [OF same_grants_trans [OF same_grants_trans [OF s1 s2(1)] s3(1)] s4(1)] s5(1)])
  have log: "same_log s1 s5" by (rule same_log_trans [OF same_log_trans [OF same_log_trans [OF s2(2) s3(2)] s4(2)] s5(2)])
  have steps: "grant_step R s s2" "grant_step R s2 s5"
  proof -
    show "grant_step R s s2" unfolding s2_def
      by (rule grant_step_trans [OF _ clear_ranks_step]) (intro grant_step_same; simp add: s1_def)
    have "grant_step R s2 s3" "grant_step R s4 s5" by (intro grant_step_same; simp add: s3_def s5_def)+
    then show "grant_step R s2 s5" using set_ranks_step [of R s3 "int (length active)" 0 active] grant_step_trans
      unfolding s4_def [symmetric] by blast
  qed
  then have inv: "grant_inv R s2" "grant_inv R s5" using assms(2) by (simp_all add: grant_step_def)
  have "set active \<subseteq> grantable_set s2" "distinct active"
    using pick_rpcs_from inv(1) by (simp_all add: active_def grant_inv_def)
  moreover have "grantable_set s5 = grantable_set s2"
    using same_grants_trans [OF same_grants_trans [OF s3(1) s4(1)] s5(1)] by (simp add: same_grants_def grantable_set_def)
  ultimately have "settled r (fst (recalc_round now s)) \<and> more_log s5 (fst (recalc_round now s))"
    unfolding round
    by (intro grant_active_settled [OF assms(1) inv(2)]) (simp_all add: same_grants_settled [OF same] assms(3))
  then show "settled r (fst (recalc_round now s))" "\<exists>xs. ks_xmits (fst (recalc_round now s)) = ks_xmits s @ xs"
    "h_grant_recalc_count (ks_homa s) < h_grant_recalc_count (ks_homa (fst (recalc_round now s)))"
    using log by (simp_all add: more_log_def same_log_def s1_def)
qed

lemma recalc_settled:
  assumes "finite R" and "grant_inv R s" and "settled r s" and "homa_grant_recalc fuel now s = Some s'"
  shows "settled r s' \<and> (\<exists>xs. ks_xmits s' = ks_xmits s @ xs) \<and>
    h_grant_recalc_count (ks_homa s) < h_grant_recalc_count (ks_homa s')"
  using assms(2-)
proof (induction fuel arbitrary: s)
  case (Suc fuel)
  obtain s1 again where round: "recalc_round now s = (s1, again)" by fastforce
  note one = recalc_round_settled [OF assms(1) Suc.prems(1,2), of now, unfolded round fst_conv]
  have inv: "grant_inv R s1" using recalc_round_step(1) [OF assms(1) Suc.prems(1) round] Suc.prems(1) by (simp add: grant_step_def)
  show ?case
  proof (cases again)
    case True
    then have "homa_grant_recalc fuel now s1 = Some s'" using Suc.prems(3) round by simp
    from Suc.IH [OF inv one(1) this] one(2,3) show ?thesis by auto
  next
    case False
    then have "s' = s1" using Suc.prems(3) round by simp
    then show ?thesis using one by simp
  qed
qed simp

section \<open>The cases of the check\<close>

definition grant_ignored :: "kstate \<Rightarrow> rpc_ptr \<Rightarrow> bool" where
  "grant_ignored s r \<longleftrightarrow> mi_length (msgin s r) < 0 \<or> rp_state (ks_rpcs s r) = RPC_DEAD \<or> mi_num_bpages (msgin s r) \<le> 0"

text \<open>The RPC has become better than the one with the next better rank.\<close>

definition overtakes :: "kstate \<Rightarrow> rpc_ptr \<Rightarrow> bool" where
  "overtakes s r \<longleftrightarrow> 0 < mi_rank (msgin s r) \<and>
     mi_bytes_remaining (msgin s r) < h_active_remaining (ks_homa s) ! (nat (mi_rank (msgin s r)) - 1)"

definition beats_worst :: "kstate \<Rightarrow> rpc_ptr \<Rightarrow> bool" where
  "beats_worst s r \<longleftrightarrow>
     mi_bytes_remaining (msgin s r) < h_active_remaining (ks_homa s) ! nat (h_max_overcommit (ks_homa s) - 1)"

text \<open>The RPC is granted to directly: it is active, and its rank does not change.\<close>

definition grants_directly :: "kstate \<Rightarrow> rpc_ptr \<Rightarrow> bool" where
  "grants_directly s r \<longleftrightarrow> mi_granted (msgin s r) < mi_length (msgin s r) \<and> is_grantable s r \<and>
     0 \<le> mi_rank (msgin s r) \<and> \<not> overtakes s r"

definition sends_grant :: "kstate \<Rightarrow> rpc_ptr \<Rightarrow> bool" where
  "sends_grant s r \<longleftrightarrow> 0 < grant_increment s r \<and> rp_silent_ticks (ks_rpcs s r) \<le> 1"

definition new_granted :: "kstate \<Rightarrow> rpc_ptr \<Rightarrow> int" where
  "new_granted s r = granted_base s r + (if sends_grant s r then grant_increment s r else 0)"

text \<open>With the new record of the RPC the total falls below \<open>max_incoming\<close>.\<close>

definition frees_budget :: "kstate \<Rightarrow> rpc_ptr \<Rightarrow> bool" where
  "frees_budget s r \<longleftrightarrow> h_max_incoming (ks_homa s) \<le> h_total_incoming (ks_homa s) \<and>
     h_total_incoming (ks_homa s) - mi_rec_incoming (msgin s r) +
       max 0 (new_granted s r - (mi_length (msgin s r) - mi_bytes_remaining (msgin s r))) < h_max_incoming (ks_homa s)"

text \<open>The active RPCs have to be chosen again.\<close>

definition recalc_due :: "kstate \<Rightarrow> rpc_ptr \<Rightarrow> bool" where
  "recalc_due s r \<longleftrightarrow> mi_granted (msgin s r) < mi_length (msgin s r) \<and>
     (if \<not> is_grantable s r
      then int (length (h_active_rpcs (ks_homa s))) < h_max_overcommit (ks_homa s) \<or> beats_worst s r
      else if mi_rank (msgin s r) < 0 then beats_worst s r
      else overtakes s r \<or> mi_length (msgin s r) \<le> new_granted s r \<or> frees_budget s r)"

definition checked :: "rpc_ptr \<Rightarrow> kstate \<Rightarrow> kstate \<Rightarrow> bool" where
  "checked r s s' \<longleftrightarrow>
     mi_rec_incoming (msgin s' r) = max 0 (incoming_bytes (msgin s' r)) \<and>
     (if mi_length (msgin s r) \<le> mi_granted (msgin s r)
      then same_log s s' \<and> is_grantable s' = is_grantable s
      else (is_grantable s' r \<longleftrightarrow> mi_granted (msgin s' r) < mi_length (msgin s' r)) \<and>
           (h_grant_recalc_count (ks_homa s') = h_grant_recalc_count (ks_homa s) \<longleftrightarrow> \<not> recalc_due s r) \<and>
           (grants_directly s r \<and> sends_grant s r \<longrightarrow>
              (\<exists>xs. ks_xmits s' = ks_xmits (homa_xmit_control
                 (XGrant (new_granted s r) (mi_priority (msgin s r)) (mi_resend_all (msgin s r))) r s) @ xs)) \<and>
           (\<not> recalc_due s r \<and> \<not> (grants_directly s r \<and> sends_grant s r) \<longrightarrow> ks_xmits s' = ks_xmits s))"


abbreviation grant_sent :: "kstate \<Rightarrow> rpc_ptr \<Rightarrow> xmit list" where
  "grant_sent s r \<equiv> ks_xmits (homa_xmit_control
     (XGrant (new_granted s r) (mi_priority (msgin s r)) (mi_resend_all (msgin s r))) r s)"

text \<open>The state before the recalculation, if there is one.\<close>

definition check_log :: "rpc_ptr \<Rightarrow> kstate \<Rightarrow> kstate \<Rightarrow> bool" where
  "check_log r s s1 \<longleftrightarrow> h_grant_recalc_count (ks_homa s1) = h_grant_recalc_count (ks_homa s) \<and>
     ks_xmits s1 = (if grants_directly s r \<and> sends_grant s r then grant_sent s r else ks_xmits s)"

lemma checked_same:
  assumes "mi_granted (msgin s r) < mi_length (msgin s r)" and "\<not> recalc_due s r" and "settled r s1" and "check_log r s s1"
  shows "checked r s s1"
  using assms by (simp add: checked_def settled_def check_log_def)

lemma checked_recalc:
  assumes "finite R" and "grant_inv R s1" and "homa_grant_recalc fuel now s1 = Some s'"
    and "mi_granted (msgin s r) < mi_length (msgin s r)" and "recalc_due s r" and "settled r s1" and "check_log r s s1"
  shows "checked r s s'"
proof -
  from recalc_settled [OF assms(1,2,6,3)] obtain xs where "settled r s'" "ks_xmits s' = ks_xmits s1 @ xs"
    "h_grant_recalc_count (ks_homa s1) < h_grant_recalc_count (ks_homa s')" by blast
  then show ?thesis using assms(4,5,7) by (simp add: checked_def settled_def check_log_def)
qed

lemma update_settled:
  "settled r (fst (homa_grant_update_incoming r s)) \<longleftrightarrow> (is_grantable s r \<longleftrightarrow> mi_granted (msgin s r) < mi_length (msgin s r))"
  by (simp add: settled_def is_grantable_def incoming_bytes_def)

lemma check_new:
  assumes "finite R" and "r \<in> R" and "grant_inv R s" and "overcommit_ok (ks_homa s)" and "\<not> grant_ignored s r"
    and "mi_granted (msgin s r) < mi_length (msgin s r)" and "\<not> is_grantable s r" and "homa_grant_check_rpc fuel now r s = Some s'"
  shows "checked r s s'"
proof -
  define s1 where "s1 = homa_grant_add_rpc now r (fst (homa_grant_update_incoming r s))"
  have inv: "grant_inv R s1" unfolding s1_def by (rule add_inv [OF update_inv [OF assms(1-3)] assms(2)])
  have sel: "mi_granted (msgin s1 r) = mi_granted (msgin s r)" "mi_length (msgin s1 r) = mi_length (msgin s r)"
    "mi_bytes_remaining (msgin s1 r) = mi_bytes_remaining (msgin s r)"
    "mi_rec_incoming (msgin s1 r) = max 0 (incoming_bytes (msgin s r))"
    by (simp_all add: s1_def homa_grant_add_rpc_def)
  have act: "h_active_rpcs (ks_homa s1) = h_active_rpcs (ks_homa s)" "h_max_overcommit (ks_homa s1) = h_max_overcommit (ks_homa s)"
    by (simp_all add: s1_def homa_grant_add_rpc_def position_peer_def position_rpc_def count_grantable_def
        homa_grant_update_incoming_def Let_def)
  have "settled r s1" using assms(6) add_rpc_grantable [of now r _ r] by (simp add: settled_def sel incoming_bytes_def) (simp add: s1_def)
  moreover have "same_log s s1" unfolding s1_def by (rule same_log_trans [OF update_same_log add_same_log])
  then have "check_log r s s1" using assms(7) by (simp add: check_log_def grants_directly_def same_log_def)
  moreover have "homa_grant_check_rpc fuel now r s = (if recalc_due s r then homa_grant_recalc fuel now s1 else Some s1)"
    using assms(5-7) act sel
    by (simp add: homa_grant_check_rpc_def Let_def s1_def [symmetric] grant_ignored_def recalc_due_def beats_worst_def
        worst_active_ok [OF assms(4)])
  ultimately show ?thesis
    using checked_recalc [OF assms(1) inv _ assms(6)] checked_same [OF assms(6)] assms(8) by (simp split: if_splits)
qed

lemma check_waiting_rank:
  assumes "finite R" and "r \<in> R" and "grant_inv R s" and "overcommit_ok (ks_homa s)" and "\<not> grant_ignored s r"
    and "mi_granted (msgin s r) < mi_length (msgin s r)" and "is_grantable s r" and "mi_rank (msgin s r) < 0"
    and "homa_grant_check_rpc fuel now r s = Some s'"
  shows "checked r s s'"
proof -
  define s1 where "s1 = fst (homa_grant_update_incoming r s)"
  have inv: "grant_inv R s1" unfolding s1_def by (rule update_inv [OF assms(1-3)])
  have "settled r s1" using assms(6,7) by (simp add: s1_def update_settled)
  moreover have "check_log r s s1"
    using update_same_log [of s r] assms(8) by (simp add: check_log_def grants_directly_def same_log_def s1_def)
  moreover have "homa_grant_check_rpc fuel now r s = (if recalc_due s r then homa_grant_recalc fuel now s1 else Some s1)"
    using assms(5-8)
    by (simp add: homa_grant_check_rpc_def Let_def s1_def grant_ignored_def recalc_due_def beats_worst_def
        worst_active_ok [OF assms(4)])
  ultimately show ?thesis
    using checked_recalc [OF assms(1) inv _ assms(6)] checked_same [OF assms(6)] assms(9) by (simp split: if_splits)
qed


text \<open>A direct grant, in a state \<open>v\<close> that differs from \<open>s\<close> in \<open>active_remaining\<close> only.\<close>

lemma direct_grant:
  fixes s r i n defines "v \<equiv> upd_homa (\<lambda>h. h\<lparr>h_active_remaining := (h_active_remaining h)[i := n]\<rparr>) s"
  shows "mi_granted (msgin (fst (homa_grant_send r v)) r) = new_granted s r"
    and "ks_xmits (fst (homa_grant_send r v)) = (if sends_grant s r then grant_sent s r else ks_xmits s)"
    and "snd (homa_grant_update_incoming r (fst (homa_grant_send r v))) = frees_budget s r"
    and "is_grantable (fst (homa_grant_send r v)) x = is_grantable s x"
proof -
  have v: "msgin v = msgin s" "ks_peers v = ks_peers s" "ks_rpcs v = ks_rpcs s" "ks_xmits v = ks_xmits s" "ks_skb_mem v = ks_skb_mem s"
    "h_grant_window (ks_homa v) = h_grant_window (ks_homa s)" "h_max_incoming (ks_homa v) = h_max_incoming (ks_homa s)"
    "h_total_incoming (ks_homa v) = h_total_incoming (ks_homa s)" "h_num_priorities (ks_homa v) = h_num_priorities (ks_homa s)"
    "ks_socks v = ks_socks s"
    by (simp_all add: v_def)
  have inc: "grant_increment v r = grant_increment s r" by (simp add: grant_increment_def v)
  have sent: "snd (homa_grant_send r v) = sends_grant s r" by (simp add: send_sent sends_grant_def inc v)
  show granted: "mi_granted (msgin (fst (homa_grant_send r v)) r) = new_granted s r"
    by (simp add: send_granted sent new_granted_def inc v)
  show "ks_xmits (fst (homa_grant_send r v)) = (if sends_grant s r then grant_sent s r else ks_xmits s)"
    using sent send_sent [of r v]
    by (auto simp: send_eq Let_def xmits_homa_xmit_control new_granted_def inc v sends_grant_def)
  show "is_grantable (fst (homa_grant_send r v)) x = is_grantable s x" by (simp add: is_grantable_def v)
  have inc': "incoming_bytes (msgin (fst (homa_grant_send r v)) r) =
      new_granted s r - (mi_length (msgin s r) - mi_bytes_remaining (msgin s r))"
    by (simp add: incoming_bytes_def granted v)
  show "snd (homa_grant_update_incoming r (fst (homa_grant_send r v))) = frees_budget s r"
    by (simp add: homa_grant_update_incoming_def Let_def inc' frees_budget_def v max_def) linarith
qed

lemma check_active_rank:
  assumes "finite R" and "r \<in> R" and "grant_inv R s" and "\<not> grant_ignored s r"
    and "mi_granted (msgin s r) < mi_length (msgin s r)" and "is_grantable s r" and "0 \<le> mi_rank (msgin s r)"
    and "homa_grant_check_rpc fuel now r s = Some s'"
  shows "checked r s s'"
proof -
  define v where "v = upd_homa (\<lambda>h. h\<lparr>h_active_remaining := (h_active_remaining h)
     [nat (mi_rank (msgin s r)) := mi_bytes_remaining (msgin s r)]\<rparr>) s"
  define w where "w = fst (homa_grant_update_incoming r (fst (homa_grant_send r v)))"
  define x where "x = (if mi_length (msgin s r) \<le> new_granted s r then homa_grant_remove_rpc now r w else w)"
  have prev: "0 < i \<Longrightarrow> xs[nat i := n] ! (nat i - Suc 0) = xs ! (nat i - Suc 0)" for xs :: "int list" and n i
    by (rule nth_list_update_neq) simp
  have "grant_ok R s v" unfolding v_def by (rule grant_ok_remaining) (simp add: grant_ok_def assms(3))
  note ok = this grant_ok_update [OF this assms(1,2)] grant_ok_update [OF grant_ok_send [OF this] assms(1,2)]
  show ?thesis
  proof (cases "overtakes s r")
    case True
    let ?u = "fst (homa_grant_update_incoming r v)"
    have "homa_grant_recalc fuel now ?u = Some s'"
      using assms True by (simp add: homa_grant_check_rpc_def Let_def v_def grant_ignored_def overtakes_def prev)
    moreover have "settled r ?u" using assms(5,6) by (simp add: update_settled v_def is_grantable_def)
    moreover have "same_log v ?u" by (rule update_same_log)
    then have "check_log r s ?u" using True by (simp add: check_log_def grants_directly_def same_log_def v_def)
    moreover have "recalc_due s r" using assms(5-7) True by (simp add: recalc_due_def)
    ultimately show ?thesis using checked_recalc [OF assms(1) grant_ok_inv [OF ok(2)] _ assms(5)] by simp
  next
    case False
    note d = direct_grant [where s = s and i = "nat (mi_rank (msgin s r))" and n = "mi_bytes_remaining (msgin s r)", folded v_def]
    have w: "grant_inv R w" "mi_granted (msgin w r) = new_granted s r" "mi_length (msgin w r) = mi_length (msgin s r)"
      "is_grantable w r" "same_log (fst (homa_grant_send r v)) w"
      using grant_ok_inv [OF ok(3)] d(1,4) [where r = r] assms(6) update_same_log by (simp_all add: w_def v_def is_grantable_def)
    have "mi_rec_incoming (msgin w r) = max 0 (incoming_bytes (msgin w r))" by (simp add: w_def incoming_bytes_def)
    then have "settled r x" using w remove_rpc_grantable [of w now r r]
      by (simp add: settled_def x_def grant_inv_def)
    moreover have "same_log w x" using remove_same_log by (simp add: x_def same_log_def)
    then have "check_log r s x"
      using w(5) d(2) assms(5-7) False by (simp add: check_log_def same_log_def grants_directly_def v_def)
    moreover have "grant_inv R x" using w(1) remove_inv by (simp add: x_def)
    moreover have no: "(0 < nat (mi_rank (msgin s r)) \<and>
        mi_bytes_remaining (msgin s r) < h_active_remaining (ks_homa v) ! (nat (mi_rank (msgin s r)) - 1)) = False"
      using False prev by (auto simp: v_def overtakes_def)
    then have "homa_grant_check_rpc fuel now r s = (if recalc_due s r then homa_grant_recalc fuel now x else Some x)"
      using assms(4-7) False w(2,3) d(3)
      unfolding homa_grant_check_rpc_def Let_def case_prod_beta v_def [symmetric] w_def [symmetric] no if_False
      by (simp add: x_def grant_ignored_def recalc_due_def)
    ultimately show ?thesis
      using checked_recalc [OF assms(1) _ _ assms(5)] checked_same [OF assms(5)] assms(8) by (simp split: if_splits)
  qed
qed

lemma check_rpc_checked:
  assumes "finite R" and "r \<in> R" and "grant_inv R s" and "overcommit_ok (ks_homa s)" and "homa_grant_check_rpc fuel now r s = Some s'"
  shows "if grant_ignored s r then s' = s else checked r s s'"
proof (cases "grant_ignored s r \<or> mi_length (msgin s r) \<le> mi_granted (msgin s r)")
  case True
  then show ?thesis using assms(5) update_same_log [of s r]
    by (auto simp: homa_grant_check_rpc_def Let_def grant_ignored_def checked_def is_grantable_def incoming_bytes_def fun_eq_iff)
next
  case False
  then show ?thesis
    using check_new [OF assms(1-4) _ _ _ assms(5)] check_waiting_rank [OF assms(1-4) _ _ _ _ assms(5)]
      check_active_rank [OF assms(1-3) _ _ _ _ assms(5)] by (meson linorder_not_le)
qed


section \<open>Properties\<close>

text \<open>
  C14: \<open>homa_grant_check_rpc\<close> returns and leaves the lists and the account consistent, takes no grant back and grants nothing
  past the end of a message.  It does nothing for an RPC that is dead, has no message or no space.  Otherwise it
  brings the record of the RPC up to date, and if the message was not fully granted before: the RPC is on the list of its peer
  afterwards exactly if it still is not; an active RPC whose rank does not change is sent a grant at once, if the limits allow one;
  the active RPCs are chosen again exactly if a new RPC fits or beats the last active one, a waiting RPC beats it, an
  active one has overtaken the one before it, is now fully granted, or its data brought the total below
  \<open>max_incoming\<close>; and without both of these no packet is sent.  \<open>max_overcommit\<close> must be between 1 and the size of the array.
\<close>

theorem homa_grant_check_rpc_cases:
  assumes "finite R" and "r \<in> R" and "grant_inv R s" and "2 * card R < fuel" and "overcommit_ok (ks_homa s)"
  shows "\<exists>s'. homa_grant_check_rpc fuel now r s = Some s' \<and> grant_inv R s' \<and> grants_grow s s' \<and>
    (if grant_ignored s r then s' = s else checked r s s')"
  using check_rpc_result [OF assms, of now] check_rpc_checked [OF assms(1-3,5)] by blast

definition check_example :: kstate where
  "check_example = upd_msgin 10 (\<lambda>m. m\<lparr>mi_rank := 0\<rparr>) grant_example"

theorem homa_grant_check_rpc_cases_witness:
  "\<exists>s' xs. homa_grant_check_rpc 7 4 10 check_example = Some s' \<and> ks_xmits s' = grant_sent check_example 10 @ xs \<and>
     new_granted check_example 10 = 20000 \<and>
     h_grant_recalc_count (ks_homa s') \<noteq> h_grant_recalc_count (ks_homa check_example) \<and> grant_inv {10, 11, 12} s'"
proof -
  have inv: "grant_inv {10, 11, 12} check_example"
    using grant_example_inv grant_links_cong [of check_example grant_example] accounted_cong [of check_example grant_example]
    by (simp add: grant_inv_def check_example_def)
  have ok: "overcommit_ok (ks_homa check_example)"
    by (simp add: overcommit_ok_def check_example_def grant_example_defs HOMA_MAX_GRANTS_def)
  have m: "mi_length (msgin check_example 10) = 20000" "mi_granted (msgin check_example 10) = 15000"
    "mi_rank (msgin check_example 10) = 0" "mi_bytes_remaining (msgin check_example 10) = 5000"
    "rp_state (ks_rpcs check_example 10) \<noteq> RPC_DEAD" "mi_num_bpages (msgin check_example 10) = 1"
    "is_grantable check_example 10" "grant_increment check_example 10 = 5000" "rp_silent_ticks (ks_rpcs check_example 10) = 0"
    by (simp_all add: check_example_def grant_example_defs is_grantable_def grant_increment_def incoming_bytes_def)
  have sends: "sends_grant check_example 10" "grants_directly check_example 10" "\<not> grant_ignored check_example 10"
    by (simp_all add: m sends_grant_def grants_directly_def overtakes_def grant_ignored_def)
  then have new: "new_granted check_example 10 = 20000" by (simp add: new_granted_def m)
  then have "recalc_due check_example 10" by (simp add: recalc_due_def m)
  then show ?thesis
    using homa_grant_check_rpc_cases [OF _ _ inv _ ok, of 10 7 4] sends new by (auto simp: checked_def m)
qed

end
