(* ===== verification/Homa_Grant_Frame.thy ===== *)
theory Homa_Grant_Frame
imports Homa_Grant_Check
begin

text \<open>
  What granting leaves alone.  \<open>grant_view\<close> is the state without the fields that the
  functions of \<open>homa_grant.c\<close> own; each of these functions keeps it.  The other
  components read their own fields through the view.
\<close>

definition msgin_view :: "homa_message_in \<Rightarrow> homa_message_in" where
  "msgin_view m = m\<lparr>mi_granted := 0, mi_rec_incoming := 0, mi_rank := 0, mi_priority := 0,
     mi_resend_all := False, mi_birth := 0\<rparr>"

definition rpc_view :: "homa_rpc \<Rightarrow> homa_rpc" where
  "rpc_view rpc = rpc\<lparr>rp_grants_in_progress := 0, rp_msgin := msgin_view (rp_msgin rpc)\<rparr>"

definition peer_view :: "homa_peer \<Rightarrow> homa_peer" where
  "peer_view p = p\<lparr>pe_grantable_rpcs := []\<rparr>"

definition homa_view :: "homa \<Rightarrow> homa" where
  "homa_view h = h\<lparr>h_grant_recalc_count := 0, h_grantable_peers := [], h_num_grantable_rpcs := 0,
     h_last_grantable_change := 0, h_max_grantable_rpcs := 0, h_oldest_rpc := None, h_grant_window := 0,
     h_active_rpcs := [], h_active_remaining := [], h_total_incoming := 0\<rparr>"

definition grant_view :: "kstate \<Rightarrow> kstate" where
  "grant_view s = s\<lparr>ks_homa := homa_view (ks_homa s), ks_rpcs := rpc_view \<circ> ks_rpcs s,
     ks_peers := peer_view \<circ> ks_peers s, ks_xmits := []\<rparr>"

lemma grant_view_sel:
  "ks_homa (grant_view s) = homa_view (ks_homa s)" "ks_rpcs (grant_view s) = rpc_view \<circ> ks_rpcs s"
  "ks_peers (grant_view s) = peer_view \<circ> ks_peers s" "ks_socks (grant_view s) = ks_socks s"
  "ks_peertab (grant_view s) = ks_peertab s" "ks_socktab (grant_view s) = ks_socktab s"
  "ks_interests (grant_view s) = ks_interests s" "ks_next_rpc (grant_view s) = ks_next_rpc s"
  "ks_wakeups (grant_view s) = ks_wakeups s"
  by (simp_all add: grant_view_def)

lemma msgin_view_upd:
  "msgin_view (m\<lparr>mi_granted := g\<rparr>) = msgin_view m" "msgin_view (m\<lparr>mi_rec_incoming := g\<rparr>) = msgin_view m"
  "msgin_view (m\<lparr>mi_rank := g\<rparr>) = msgin_view m" "msgin_view (m\<lparr>mi_priority := g\<rparr>) = msgin_view m"
  "msgin_view (m\<lparr>mi_resend_all := b\<rparr>) = msgin_view m" "msgin_view (m\<lparr>mi_birth := n\<rparr>) = msgin_view m"
  by (simp_all add: msgin_view_def)

lemma rpc_view_upd:
  "rpc_view (rpc\<lparr>rp_grants_in_progress := n\<rparr>) = rpc_view rpc"
  "rpc_view (rpc\<lparr>rp_msgin := m\<rparr>) = (rpc_view rpc)\<lparr>rp_msgin := msgin_view m\<rparr>"
  "(rpc_view rpc)\<lparr>rp_msgin := msgin_view (rp_msgin rpc)\<rparr> = rpc_view rpc"
  by (simp_all add: rpc_view_def)

lemma homa_view_upd:
  "homa_view (h\<lparr>h_grant_recalc_count := n\<rparr>) = homa_view h" "homa_view (h\<lparr>h_grantable_peers := ps\<rparr>) = homa_view h"
  "homa_view (h\<lparr>h_num_grantable_rpcs := n\<rparr>) = homa_view h" "homa_view (h\<lparr>h_last_grantable_change := t\<rparr>) = homa_view h"
  "homa_view (h\<lparr>h_max_grantable_rpcs := n\<rparr>) = homa_view h" "homa_view (h\<lparr>h_oldest_rpc := r\<rparr>) = homa_view h"
  "homa_view (h\<lparr>h_grant_window := n\<rparr>) = homa_view h" "homa_view (h\<lparr>h_active_rpcs := rs\<rparr>) = homa_view h"
  "homa_view (h\<lparr>h_active_remaining := ns\<rparr>) = homa_view h" "homa_view (h\<lparr>h_total_incoming := n\<rparr>) = homa_view h"
  by (simp_all add: homa_view_def)

lemma peer_view_upd: "peer_view (p\<lparr>pe_grantable_rpcs := rs\<rparr>) = peer_view p"
  by (simp add: peer_view_def)

lemmas view_upd = msgin_view_upd rpc_view_upd homa_view_upd peer_view_upd

lemma grant_view_homa: "(\<And>h. homa_view (f h) = homa_view h) \<Longrightarrow> grant_view (upd_homa f s) = grant_view s"
  by (simp add: grant_view_def upd_homa_def)

lemma grant_view_peer: "(\<And>p. peer_view (f p) = peer_view p) \<Longrightarrow> grant_view (upd_peer q f s) = grant_view s"
  by (simp add: grant_view_def upd_peer_def fun_eq_iff)

lemma grant_view_rpc: "(\<And>rpc. rpc_view (g rpc) = rpc_view rpc) \<Longrightarrow> grant_view (upd_rpc r g s) = grant_view s"
  by (simp add: grant_view_def upd_rpc_def fun_eq_iff)

lemma grant_view_xmit: "grant_view (homa_xmit_control b r s) = grant_view s"
  by (simp add: grant_view_def homa_xmit_control_def xmit_control_to_def Let_def)

lemmas grant_views = grant_view_homa grant_view_peer grant_view_rpc grant_view_xmit view_upd

lemma update_incoming_view: "grant_view (fst (homa_grant_update_incoming r s)) = grant_view s"
  unfolding homa_grant_update_incoming_def Let_def by (simp add: grant_views del: upd_rpc_sel upd_homa_sel)

lemma position_rpc_view: "grant_view (position_rpc now r s) = grant_view s"
  unfolding position_rpc_def Let_def count_grantable_def
  by (simp add: grant_views del: upd_rpc_sel upd_homa_sel upd_peer_sel)

lemma add_rpc_view: "grant_view (homa_grant_add_rpc now r s) = grant_view s"
  unfolding homa_grant_add_rpc_def position_peer_def Let_def
  by (simp add: grant_views position_rpc_view del: upd_homa_sel)

lemma remove_rpc_view: "grant_view (homa_grant_remove_rpc now r s) = grant_view s"
proof -
  define oldest :: "homa \<Rightarrow> homa" where "oldest = (\<lambda>h. if h_oldest_rpc h = Some r then h\<lparr>h_oldest_rpc := None\<rparr> else h)"
  have "homa_view (oldest h) = homa_view h" for h by (simp add: oldest_def homa_view_upd)
  then show ?thesis
    unfolding homa_grant_remove_rpc_def Let_def oldest_def [symmetric]
    by (simp add: grant_views del: upd_homa_sel upd_peer_sel)
qed

lemma send_view: "grant_view (fst (homa_grant_send r s)) = grant_view s"
  unfolding send_eq Let_def by (simp add: grant_views del: upd_rpc_sel)

lemmas grant_op_views = update_incoming_view add_rpc_view remove_rpc_view send_view

lemma grant_active_view: "grant_view (fst (grant_active now rs s)) = grant_view s"
proof (induction rs arbitrary: s)
  case (Cons r rs)
  have "grant_view (fst (grant_one now r s)) = grant_view s"
    by (simp add: grant_one_def Let_def case_prod_beta grant_view_rpc rpc_view_upd grant_op_views)
  with Cons.IH show ?case by (simp add: case_prod_beta Let_def)
qed simp

lemma clear_ranks_view: "grant_view (clear_ranks rs s) = grant_view s"
  by (induction rs arbitrary: s) (simp_all add: grant_views)

lemma set_ranks_view: "grant_view (set_ranks n i rs s) = grant_view s"
  by (induction rs arbitrary: i s) (simp_all add: Let_def grant_views)

lemma recalc_view: "homa_grant_recalc fuel now s = Some s' \<Longrightarrow> grant_view s' = grant_view s"
proof (induction fuel arbitrary: s)
  case (Suc fuel)
  have "grant_view (fst (recalc_round now s)) = grant_view s"
    by (simp add: recalc_round_def Let_def grant_active_view set_ranks_view clear_ranks_view grant_views)
  with Suc show ?case by (auto simp: case_prod_beta Let_def split: if_splits)
qed simp

abbreviation keeps_view :: "kstate \<Rightarrow> kstate option \<Rightarrow> bool" where
  "keeps_view s \<equiv> pred_option (\<lambda>s'. grant_view s' = grant_view s)"

lemma keeps_view_recalc: "grant_view s1 = grant_view s \<Longrightarrow> keeps_view s (homa_grant_recalc fuel now s1)"
  by (cases "homa_grant_recalc fuel now s1") (auto dest: recalc_view)

lemma keeps_viewD: "keeps_view s x \<Longrightarrow> x = Some s' \<Longrightarrow> grant_view s' = grant_view s"
  by simp

lemma check_rpc_view:
  assumes "homa_grant_check_rpc fuel now r s = Some s'"
  shows "grant_view s' = grant_view s"
proof -
  have remaining: "grant_view (upd_homa (\<lambda>h. h\<lparr>h_active_remaining := xs h\<rparr>) s) = grant_view s" for xs
    by (simp add: grant_views)
  have "keeps_view s (homa_grant_check_rpc fuel now r s)"
    unfolding homa_grant_check_rpc_def Let_def case_prod_beta
    by (cases "worst_active (ks_homa s)") (simp_all only: option.case if_distrib [of "keeps_view s"] option.pred_inject keeps_view_recalc grant_op_views remaining simp_thms if_cancel)
  then show ?thesis using assms by (rule keeps_viewD)
qed

lemma free_rpc_view:
  assumes "homa_grant_free_rpc fuel now r s = Some s'"
  shows "grant_view s' = grant_view s"
proof -
  have total: "grant_view (upd_homa (\<lambda>h. h\<lparr>h_total_incoming := xs h\<rparr>) s1) = grant_view s1" for xs s1
    by (simp add: grant_views)
  have "keeps_view s (homa_grant_free_rpc fuel now r s)"
    unfolding homa_grant_free_rpc_def Let_def option.pred_map comp_def if_distrib [of grant_view] total if_cancel
    by (simp only: if_distrib [of "keeps_view s"] option.pred_inject keeps_view_recalc grant_op_views simp_thms if_cancel)
  then show ?thesis using assms by (rule keeps_viewD)
qed

section \<open>Reading through the view\<close>

lemma same_view:
  assumes "grant_view s' = grant_view s"
  shows "ks_socks s' = ks_socks s" "ks_peertab s' = ks_peertab s" "ks_socktab s' = ks_socktab s"
    "ks_interests s' = ks_interests s" "ks_next_rpc s' = ks_next_rpc s" "ks_wakeups s' = ks_wakeups s"
    "rpc_view (ks_rpcs s' r) = rpc_view (ks_rpcs s r)" "peer_view (ks_peers s' p) = peer_view (ks_peers s p)"
    "homa_view (ks_homa s') = homa_view (ks_homa s)"
proof -
  note sel = arg_cong [OF assms, of ks_socks] arg_cong [OF assms, of ks_peertab] arg_cong [OF assms, of ks_socktab]
    arg_cong [OF assms, of ks_interests] arg_cong [OF assms, of ks_next_rpc] arg_cong [OF assms, of ks_wakeups]
    arg_cong [OF assms, of ks_homa]
  show "ks_socks s' = ks_socks s" "ks_peertab s' = ks_peertab s" "ks_socktab s' = ks_socktab s"
    "ks_interests s' = ks_interests s" "ks_next_rpc s' = ks_next_rpc s" "ks_wakeups s' = ks_wakeups s"
    "homa_view (ks_homa s') = homa_view (ks_homa s)"
    using sel by (simp_all only: grant_view_sel)
  show "rpc_view (ks_rpcs s' r) = rpc_view (ks_rpcs s r)" "peer_view (ks_peers s' p) = peer_view (ks_peers s p)"
    using arg_cong [OF assms, of "\<lambda>t. ks_rpcs t r"] arg_cong [OF assms, of "\<lambda>t. ks_peers t p"]
    by (simp_all add: grant_view_sel)
qed

lemma same_rpc_view:
  assumes "rpc_view a = rpc_view b"
  shows "rp_hsk a = rp_hsk b" "rp_state a = rp_state b" "rp_flags a = rp_flags b" "rp_peer a = rp_peer b"
    "rp_dport a = rp_dport b" "rp_id a = rp_id b" "rp_error a = rp_error b" "rp_msgout a = rp_msgout b"
    "rp_interest a = rp_interest b" "rp_magic a = rp_magic b"
    "mi_length (rp_msgin a) = mi_length (rp_msgin b)" "mi_packets (rp_msgin a) = mi_packets (rp_msgin b)"
    "mi_gaps (rp_msgin a) = mi_gaps (rp_msgin b)" "mi_recv_end (rp_msgin a) = mi_recv_end (rp_msgin b)"
    "mi_bytes_remaining (rp_msgin a) = mi_bytes_remaining (rp_msgin b)"
    "mi_num_bpages (rp_msgin a) = mi_num_bpages (rp_msgin b)"
    "mi_bpage_offsets (rp_msgin a) = mi_bpage_offsets (rp_msgin b)"
  using assms by (cases a; cases b; cases "rp_msgin a"; cases "rp_msgin b"; simp add: rpc_view_def msgin_view_def)+

end
