(* ===== verification/Homa_Outgoing.thy ===== *)
theory Homa_Outgoing
imports Homa_Peer Homa_Wire
begin

text \<open>
  The sender (\<open>homa_outgoing.c\<close>): cutting a message into packets, handing packets to the IP layer as far as
  grants and the estimate of the NIC queue allow, the list of throttled RPCs with the pacer, and retransmission.

  The bytes of user space are a list.  Copying them into a packet, and getting memory for a packet or for a
  segment header, may fail: the outcomes are parameters.  The mtu and the GSO limit belong to the route, which
  is outside.
\<close>

section \<open>Building packets\<close>

abbreviation sizeof_data_hdr :: int where "sizeof_data_hdr \<equiv> int (header_length (type_code DATA))"
abbreviation sizeof_seg_hdr :: int where "sizeof_seg_hdr \<equiv> 4"

definition homa_message_out_init :: "nat \<Rightarrow> rpc_ptr \<Rightarrow> int \<Rightarrow> kstate \<Rightarrow> kstate" where
  "homa_message_out_init now r len s =
     upd_msgout r (\<lambda>m. m\<lparr>mo_length := len, mo_num_skbs := 0, mo_copied_from_user := 0, mo_packets := [],
       mo_next_xmit := 0, mo_next_xmit_offset := 0, mo_active_xmits := 0,
       mo_unscheduled := (if h_unsched_bytes (ks_homa s) > len then len else h_unsched_bytes (ks_homa s)),
       mo_sched_priority := 0, mo_init_ns := now\<rparr>) s"

text \<open>
  The outcomes that the code does not determine, by the offset in the message at which they occur: whether there
  is memory for a packet and for a segment header, the error of copying data from user space, and what other
  threads do to the state while the RPC is unlocked.
\<close>

record fill_env =
  fe_skb_mem :: "int \<Rightarrow> bool"
  fe_hdr_mem :: "int \<Rightarrow> bool"
  fe_fault :: "int \<Rightarrow> errno option"
  fe_other :: "int \<Rightarrow> kstate \<Rightarrow> kstate"

definition seg_bytes :: "int \<Rightarrow> bytes" where
  "seg_bytes off = enc_seg_hdr \<lparr>sg_offset = word_of_int off\<rparr>"

text \<open>
  The loop of \<open>homa_fill_data_interleaved\<close>: the payload built so far and the bytes of user space not yet copied.
  None when the fuel is used up.
\<close>

primrec fill_interleaved ::
  "nat \<Rightarrow> fill_env \<Rightarrow> int \<Rightarrow> int \<Rightarrow> int \<Rightarrow> bytes \<Rightarrow> bytes \<Rightarrow> (errno + bytes \<times> bytes) option" where
  "fill_interleaved 0 e seg_length bytes_left offset payload iter = None"
| "fill_interleaved (Suc n) e seg_length bytes_left offset payload iter =
     (let seg_length = (if bytes_left < seg_length then bytes_left else seg_length) in
      case fe_fault e offset of
        Some err \<Rightarrow> Some (Inl err)
      | None \<Rightarrow>
          let payload = payload @ take (nat seg_length) iter;
              iter = drop (nat seg_length) iter;
              bytes_left = bytes_left - seg_length;
              offset = offset + seg_length
          in if bytes_left = 0 then Some (Inr (payload, iter))
             else if \<not> fe_hdr_mem e offset then Some (Inl ENOMEM)
             else fill_interleaved n e seg_length bytes_left offset (payload @ seg_bytes offset) iter)"

definition homa_fill_data_interleaved :: "nat \<Rightarrow> fill_env \<Rightarrow> out_skb \<Rightarrow> bytes \<Rightarrow> (errno + bytes \<times> bytes) option" where
  "homa_fill_data_interleaved fuel e skb iter =
     fill_interleaved fuel e (os_seg_length skb) (os_data_bytes skb) (os_offset skb) (os_payload skb) iter"

text \<open>
  The header of a new packet and its geometry, before the data is copied.  The gso fields of a packet with one
  segment stay 0.  An ack taken from the peer travels in the header.
\<close>

definition new_data_header :: "homa_rpc \<Rightarrow> homa_sock \<Rightarrow> homa_ack list \<Rightarrow> u16 \<Rightarrow> int \<Rightarrow> int \<Rightarrow> int \<Rightarrow> out_skb" where
  "new_data_header rpc hsk acks version offset len max_seg_data =
     (let segs = (len + max_seg_data - 1) div max_seg_data;
          interleaved = segs > 1 \<and> \<not> hs_is_tcp hsk in
      \<lparr>os_offset = offset, os_data_bytes = len, os_seg_length = max_seg_data,
       os_wire_bytes = len + segs * (sizeof_data_hdr + hs_ip_header_length hsk + int HOMA_ETH_OVERHEAD),
       os_gso_segs = (if segs > 1 then segs else 0),
       os_gso_size = (if segs > 1 then if interleaved then max_seg_data + sizeof_seg_hdr else max_seg_data else 0),
       os_incoming = mo_unscheduled (rp_msgout rpc),
       os_ack = (case acks of [] \<Rightarrow> None | a # _ \<Rightarrow> Some a),
       os_cutoff_version = version,
       os_seg_offset = (if interleaved then offset else -1), os_retransmit = False, os_payload = []\<rparr>)"

text \<open>A new packet and the rest of the user data.\<close>

definition homa_new_data_packet ::
  "nat \<Rightarrow> fill_env \<Rightarrow> rpc_ptr \<Rightarrow> bytes \<Rightarrow> int \<Rightarrow> int \<Rightarrow> int \<Rightarrow> kstate \<Rightarrow> ((errno + out_skb \<times> bytes) \<times> kstate) option" where
  "homa_new_data_packet fuel e r iter offset len max_seg_data s =
     (let rpc = ks_rpcs s r; hsk = ks_socks s (rp_hsk rpc);
          (acks, peer) = homa_peer_get_acks 1 (ks_peers s (rp_peer rpc));
          skb = new_data_header rpc hsk acks (pe_cutoff_version peer) offset len max_seg_data;
          s' = upd_peer (rp_peer rpc) (\<lambda>_. peer) s;
          filled = (if os_gso_segs skb > 1 \<and> \<not> hs_is_tcp hsk then homa_fill_data_interleaved fuel e skb iter
                    else Some (case fe_fault e offset of Some err \<Rightarrow> Inl err
                               | None \<Rightarrow> Inr (take (nat len) iter, drop (nat len) iter)))
      in if \<not> fe_skb_mem e offset then Some (Inl ENOMEM, s)
         else case filled of
             None \<Rightarrow> None
           | Some (Inl err) \<Rightarrow> Some (Inl err, s')
           | Some (Inr (payload, iter)) \<Rightarrow> Some (Inr (skb\<lparr>os_payload := payload\<rparr>, iter), s'))"

section \<open>The throttled list\<close>

abbreviation xmit_left :: "kstate \<Rightarrow> rpc_ptr \<Rightarrow> int" where
  "xmit_left s r \<equiv> mo_length (msgout s r) - mo_next_xmit_offset (msgout s r)"

definition homa_add_to_throttled :: "nat \<Rightarrow> rpc_ptr \<Rightarrow> kstate \<Rightarrow> kstate" where
  "homa_add_to_throttled now r s =
     (if r \<in> set (h_throttled_rpcs (ks_homa s)) then s
      else upd_homa (\<lambda>h. h\<lparr>h_throttle_add := now,
        h_throttled_rpcs := insert_before (\<lambda>candidate. xmit_left s candidate > xmit_left s r) r (h_throttled_rpcs h)\<rparr>) s)"

definition homa_remove_from_throttled :: "rpc_ptr \<Rightarrow> kstate \<Rightarrow> kstate" where
  "homa_remove_from_throttled r s = upd_homa (\<lambda>h. h\<lparr>h_throttled_rpcs := remove1 r (h_throttled_rpcs h)\<rparr>) s"

section \<open>Transmission\<close>

definition homa_outgoing_sysctl_changed :: "homa \<Rightarrow> homa" where
  "homa_outgoing_sysctl_changed h =
     h\<lparr>h_ns_per_mbyte := (8 * 1000 * 1000 * 1000 * 101 div 100) div h_link_mbps h mod 2 ^ 32\<rparr>"

text \<open>The flag is the return value; \<open>clock\<close> is the reading of \<open>sched_clock\<close>.\<close>

definition homa_check_nic_queue :: "nat \<Rightarrow> out_skb \<Rightarrow> bool \<Rightarrow> kstate \<Rightarrow> bool \<times> kstate" where
  "homa_check_nic_queue clock skb force s =
     (let h = ks_homa s;
          ns_for_packet = nat (h_ns_per_mbyte h * os_wire_bytes skb div 1000000);
          idle = h_link_idle_time h in
      if int clock + h_max_nic_queue_ns h < int idle \<and> \<not> force \<and> \<not> h_dont_throttle h then (False, s)
      else (True, upd_homa (\<lambda>h. h\<lparr>h_link_idle_time :=
              if idle < clock then clock + ns_for_packet else idle + ns_for_packet\<rparr>) s))"

text \<open>
  \<open>__homa_xmit_data\<close>: the packet with the peer's current cutoff version goes to the IP layer.  The code writes the version into
  the packet that it keeps, which is the one it sends; as every transmission writes it again, the version
  in the packet kept has no effect, and it stays as it is here.
\<close>

definition xmit_data_to :: "out_skb \<Rightarrow> rpc_ptr \<Rightarrow> int \<Rightarrow> kstate \<Rightarrow> kstate" where
  "xmit_data_to skb r priority s =
     (let rpc = ks_rpcs s r; peer = ks_peers s (rp_peer rpc) in
      s\<lparr>ks_xmits := ks_xmits s @ [\<lparr>xm_peer = rp_peer rpc, xm_sport = hs_port (ks_socks s (rp_hsk rpc)),
         xm_dport = rp_dport rpc, xm_sender_id = rp_id rpc, xm_priority = priority,
         xm_body = XData (skb\<lparr>os_cutoff_version := pe_cutoff_version peer\<rparr>), xm_sent = True\<rparr>]\<rparr>)"

text \<open>The priority of the next packet; None when \<open>homa_unsched_priority\<close> leaves its array.\<close>

definition xmit_priority :: "kstate \<Rightarrow> rpc_ptr \<Rightarrow> int option" where
  "xmit_priority s r =
     (let m = msgout s r in
      if mo_next_xmit_offset m < mo_unscheduled m
      then map_option int (homa_unsched_priority (ks_homa s) (ks_peers s (rp_peer (ks_rpcs s r))) (mo_length m))
      else Some (mo_sched_priority m))"

text \<open>The loop of \<open>homa_xmit_data\<close> with \<open>n\<close> packets behind \<open>next_xmit\<close>.\<close>

primrec xmit_loop :: "(nat \<Rightarrow> nat) \<Rightarrow> nat \<Rightarrow> bool \<Rightarrow> rpc_ptr \<Rightarrow> kstate \<Rightarrow> kstate option" where
  "xmit_loop clk 0 force r s = Some s"
| "xmit_loop clk (Suc n) force r s =
     (let m = msgout s r; skb = mo_packets m ! mo_next_xmit m in
      if mo_next_xmit_offset m \<ge> mo_granted m then Some s
      else
        let (go, s) = (if xmit_left s r \<ge> h_throttle_min_bytes (ks_homa s)
                       then homa_check_nic_queue (clk n) skb force s else (True, s))
        in if \<not> go then Some (homa_add_to_throttled (clk n) r s)
           else case xmit_priority s r of
             None \<Rightarrow> None
           | Some priority \<Rightarrow>
               let s = upd_msgout r (\<lambda>m. m\<lparr>mo_next_xmit := mo_next_xmit m + 1,
                         mo_next_xmit_offset := mo_next_xmit_offset m + os_data_bytes skb\<rparr>) s;
                   s = xmit_data_to skb r priority s
               in if rp_state (ks_rpcs s r) = RPC_DEAD then Some s else xmit_loop clk n False r s)"

definition homa_xmit_data :: "(nat \<Rightarrow> nat) \<Rightarrow> bool \<Rightarrow> rpc_ptr \<Rightarrow> kstate \<Rightarrow> kstate option" where
  "homa_xmit_data clk force r s =
     (let s = upd_msgout r (\<lambda>m. m\<lparr>mo_active_xmits := mo_active_xmits m + 1\<rparr>) s in
      map_option (upd_msgout r (\<lambda>m. m\<lparr>mo_active_xmits := mo_active_xmits m - 1\<rparr>))
        (xmit_loop clk (length (mo_packets (msgout s r)) - mo_next_xmit (msgout s r)) force r s))"

section \<open>Filling a message\<close>

text \<open>
  The loop of \<open>homa_message_out_fill\<close>.  None stands for executions without a defined result: fuel used up, or an
  error from \<open>homa_new_data_packet\<close>, which the code does not recognise (it tests for a null pointer) and follows
  as if it were a packet.
\<close>

primrec fill_loop ::
  "nat \<Rightarrow> fill_env \<Rightarrow> (nat \<Rightarrow> nat) \<Rightarrow> rpc_ptr \<Rightarrow> bool \<Rightarrow> int \<Rightarrow> int \<Rightarrow> bool \<Rightarrow> int \<Rightarrow> bytes \<Rightarrow> kstate \<Rightarrow>
   (errno option \<times> kstate) option" where
  "fill_loop 0 e clk r xmit max_seg_data max_gso_data overlap_xmit bytes_left iter s = None"
| "fill_loop (Suc n) e clk r xmit max_seg_data max_gso_data overlap_xmit bytes_left iter s =
     (if bytes_left \<le> 0 then Some (None, s)
      else
        let offset = mo_length (msgout s r) - bytes_left;
            s = fe_other e offset s;
            unscheduled = mo_unscheduled (msgout s r);
            skb_data_bytes = (if offset < unscheduled \<and> offset + max_gso_data > unscheduled
                              then unscheduled - offset else max_gso_data);
            skb_data_bytes = (if skb_data_bytes > bytes_left then bytes_left else skb_data_bytes)
        in case homa_new_data_packet n e r iter offset skb_data_bytes max_seg_data s of
             None \<Rightarrow> None
           | Some (Inl err, s) \<Rightarrow> None
           | Some (Inr (skb, iter), s) \<Rightarrow>
               if rp_state (ks_rpcs s r) = RPC_DEAD then Some (Some EINVAL, s)
               else
                 let bytes_left = bytes_left - skb_data_bytes;
                     s = upd_msgout r (\<lambda>m. m\<lparr>mo_packets := mo_packets m @ [skb], mo_num_skbs := mo_num_skbs m + 1,
                           mo_copied_from_user := mo_length m - bytes_left\<rparr>) s;
                     s = (if overlap_xmit \<and> r \<notin> set (h_throttled_rpcs (ks_homa s)) \<and> xmit \<and>
                             offset < mo_granted (msgout s r)
                          then homa_add_to_throttled (clk n) r s else s)
                 in fill_loop n e clk r xmit max_seg_data max_gso_data overlap_xmit bytes_left iter s)"

text \<open>How many segments fit into a GSO packet; the differences are computed in 64 unsigned bits.\<close>

definition segs_per_gso :: "homa_sock \<Rightarrow> int \<Rightarrow> int \<Rightarrow> int" where
  "segs_per_gso hsk gso_size max_seg_data =
     (let segs = (if hs_is_tcp hsk
           then (gso_size - hs_ip_header_length hsk - sizeof_data_hdr) mod 2 ^ 64 div max_seg_data
           else (gso_size - hs_ip_header_length hsk - sizeof_data_hdr + sizeof_seg_hdr) mod 2 ^ 64
                div (max_seg_data + sizeof_seg_hdr))
      in if segs = 0 then 1 else segs)"

text \<open>
  \<open>homa_message_out_fill\<close> for a route with the given mtu and GSO limit.  A route whose mtu leaves no room for
  data has no defined result (the code divides by \<open>max_seg_data\<close>).
\<close>

definition homa_message_out_fill ::
  "nat \<Rightarrow> fill_env \<Rightarrow> (nat \<Rightarrow> nat) \<Rightarrow> int \<Rightarrow> int \<Rightarrow> rpc_ptr \<Rightarrow> bytes \<Rightarrow> bool \<Rightarrow> kstate \<Rightarrow> (errno option \<times> kstate) option" where
  "homa_message_out_fill fuel e clk mtu gso_max_size r iter xmit s =
     (let hsk = ks_socks s (rp_hsk (ks_rpcs s r));
          s = homa_message_out_init (clk 0) r (int (length iter)) s;
          len = mo_length (msgout s r);
          done = upd_rpc r (\<lambda>rpc. rpc\<lparr>rp_flags := rp_flags rpc - {RPC_COPYING_FROM_USER}\<rparr>) in
      if len > HOMA_MAX_MESSAGE_LENGTH \<or> len = 0 then Some (Some EINVAL, done s)
      else
        let max_seg_data = mtu - hs_ip_header_length hsk - sizeof_data_hdr;
            gso_size = min gso_max_size (h_max_gso_size (ks_homa s));
            max_gso_data = wrap_s32 (segs_per_gso hsk gso_size max_seg_data * max_seg_data);
            overlap_xmit = len > 2 * max_gso_data;
            s = upd_msgout r (\<lambda>m. m\<lparr>mo_granted := mo_unscheduled m\<rparr>) s;
            s = upd_rpc r (\<lambda>rpc. rpc\<lparr>rp_flags := rp_flags rpc \<union> {RPC_COPYING_FROM_USER}\<rparr>) s
        in if max_seg_data \<le> 0 then None
           else case fill_loop fuel e clk r xmit max_seg_data max_gso_data overlap_xmit len iter s of
             None \<Rightarrow> None
           | Some (Some err, s) \<Rightarrow> Some (Some err, done s)
           | Some (None, s) \<Rightarrow>
               if \<not> overlap_xmit \<and> xmit then map_option (Pair None) (homa_xmit_data clk False r (done s))
               else Some (None, done s))"

section \<open>Retransmission\<close>

text \<open>
  The inner loop of \<open>homa_resend_data\<close> over the segments of one packet.  The flag is false after a jump to
  \<open>resend_done\<close>.  \<open>mem\<close> tells whether the segment at an offset can be allocated and copied.  None when the fuel is
  used up.
\<close>

definition resend_segment :: "nat \<Rightarrow> rpc_ptr \<Rightarrow> out_skb \<Rightarrow> int \<Rightarrow> int \<Rightarrow> int \<Rightarrow> int \<Rightarrow> kstate \<Rightarrow> kstate" where
  "resend_segment clock r skb offset seg_offset seg_length priority s =
     (let m = msgout s r; hsk = ks_socks s (rp_hsk (ks_rpcs s r));
          new_skb = skb\<lparr>os_seg_offset := offset, os_retransmit := True,
            os_incoming := (if offset + seg_length \<le> mo_granted m then mo_granted m
                            else if offset + seg_length > mo_length m then mo_length m else offset + seg_length),
            os_payload := take (nat seg_length) (drop (nat (seg_offset - sizeof_data_hdr)) (os_payload skb)),
            os_wire_bytes := hs_ip_header_length hsk + sizeof_data_hdr + seg_length + int HOMA_ETH_OVERHEAD,
            os_data_bytes := seg_length, os_seg_length := seg_length, os_offset := offset,
            os_gso_segs := 0, os_gso_size := 0\<rparr>;
          s = snd (homa_check_nic_queue clock new_skb True s)
      in xmit_data_to new_skb r priority s)"

primrec resend_segs ::
  "nat \<Rightarrow> (int \<Rightarrow> bool) \<Rightarrow> (int \<Rightarrow> nat) \<Rightarrow> rpc_ptr \<Rightarrow> out_skb \<Rightarrow> int \<Rightarrow> int \<Rightarrow> int \<Rightarrow> int \<Rightarrow> int \<Rightarrow> int \<Rightarrow> int \<Rightarrow> kstate \<Rightarrow>
   (bool \<times> kstate) option" where
  "resend_segs 0 mem clk r skb start end' priority data_left offset seg_offset seg_length s = None"
| "resend_segs (Suc n) mem clk r skb start end' priority data_left offset seg_offset seg_length s =
     (if data_left \<le> 0 then Some (True, s)
      else
        let seg_length = (if seg_length > data_left then data_left else seg_length);
            further = resend_segs n mem clk r skb start end' priority
              (data_left - seg_length) (offset + seg_length) (seg_offset + os_gso_size skb) seg_length
        in if end' \<le> offset then Some (False, s)
           else if offset + seg_length \<le> start then further s
           else if \<not> mem offset then Some (False, s)
           else further (resend_segment (clk offset) r skb offset seg_offset seg_length priority s))"

primrec resend_packets ::
  "nat \<Rightarrow> (int \<Rightarrow> bool) \<Rightarrow> (int \<Rightarrow> nat) \<Rightarrow> rpc_ptr \<Rightarrow> int \<Rightarrow> int \<Rightarrow> int \<Rightarrow> out_skb list \<Rightarrow> kstate \<Rightarrow> kstate option" where
  "resend_packets fuel mem clk r start end' priority [] s = Some s"
| "resend_packets fuel mem clk r start end' priority (skb # skbs) s =
     (if os_offset skb \<ge> end' then Some s
      else if start \<ge> os_offset skb + os_data_bytes skb then resend_packets fuel mem clk r start end' priority skbs s
      else
        let seg_length = (if os_gso_segs skb \<le> 1 then os_data_bytes skb else os_seg_length skb)
        in case resend_segs fuel mem clk r skb start end' priority
                  (os_data_bytes skb) (os_offset skb) sizeof_data_hdr seg_length s of
             None \<Rightarrow> None
           | Some (False, s) \<Rightarrow> Some s
           | Some (True, s) \<Rightarrow> resend_packets fuel mem clk r start end' priority skbs s)"

definition homa_resend_data ::
  "nat \<Rightarrow> (int \<Rightarrow> bool) \<Rightarrow> (int \<Rightarrow> nat) \<Rightarrow> rpc_ptr \<Rightarrow> int \<Rightarrow> int \<Rightarrow> int \<Rightarrow> kstate \<Rightarrow> kstate option" where
  "homa_resend_data fuel mem clk r start end' priority s =
     (if end' \<le> start then Some s
      else resend_packets fuel mem clk r start end' priority (mo_packets (msgout s r)) s)"

section \<open>The pacer\<close>

text \<open>The RPC that has waited longest, by the time its message was started.\<close>

primrec oldest_throttled :: "kstate \<Rightarrow> rpc_ptr list \<Rightarrow> rpc_ptr option \<Rightarrow> rpc_ptr option" where
  "oldest_throttled s [] best = best"
| "oldest_throttled s (r # rs) best =
     oldest_throttled s rs
       (if (case best of None \<Rightarrow> True | Some b \<Rightarrow> mo_init_ns (msgout s r) < mo_init_ns (msgout s b)) then Some r else best)"

text \<open>The choice of the next RPC: every now and then the oldest, otherwise the one with the fewest bytes left.\<close>

definition pacer_choose :: "kstate \<Rightarrow> rpc_ptr option \<times> kstate" where
  "pacer_choose s =
     (let h = ks_homa s; count = h_pacer_fifo_count h - h_pacer_fifo_fraction h;
          first = (case h_throttled_rpcs h of [] \<Rightarrow> None | r # _ \<Rightarrow> Some r) in
      if count \<le> 0 then (oldest_throttled s (h_throttled_rpcs h) None, upd_homa (\<lambda>h. h\<lparr>h_pacer_fifo_count := count + 1000\<rparr>) s)
      else (first, upd_homa (\<lambda>h. h\<lparr>h_pacer_fifo_count := count\<rparr>) s))"

text \<open>
  The loop of \<open>homa_pacer_xmit\<close> with \<open>n\<close> iterations left: \<open>now n\<close> is the reading of the clock after which the code
  goes on, \<open>lock n\<close> whether the RPC could be locked.  In the first iteration the code waits until the NIC queue is
  short enough.
\<close>

primrec pacer_loop :: "(nat \<Rightarrow> nat) \<Rightarrow> (nat \<Rightarrow> bool) \<Rightarrow> (nat \<Rightarrow> nat \<Rightarrow> nat) \<Rightarrow> bool \<Rightarrow> nat \<Rightarrow> kstate \<Rightarrow> kstate option" where
  "pacer_loop now lock clk first 0 s = Some s"
| "pacer_loop now lock clk first (Suc n) s =
     (if \<not> first \<and> int (now n) + h_max_nic_queue_ns (ks_homa s) < int (h_link_idle_time (ks_homa s)) then Some s
      else
        case pacer_choose s of
          (None, s) \<Rightarrow> Some s
        | (Some r, s) \<Rightarrow>
            if \<not> lock n then Some s
            else case homa_xmit_data (clk n) True r s of
              None \<Rightarrow> None
            | Some s \<Rightarrow>
                let m = msgout s r;
                    s = (if mo_next_xmit m \<ge> length (mo_packets m) \<or> mo_next_xmit_offset m \<ge> mo_granted m
                         then homa_remove_from_throttled r s else s)
                in pacer_loop now lock clk False n s)"

definition homa_pacer_xmit :: "(nat \<Rightarrow> nat) \<Rightarrow> (nat \<Rightarrow> bool) \<Rightarrow> (nat \<Rightarrow> nat \<Rightarrow> nat) \<Rightarrow> kstate \<Rightarrow> kstate option" where
  "homa_pacer_xmit now lock clk s = pacer_loop now lock clk True 5 s"

end
