(* ===== verification/Homa_Outgoing_Use.thy ===== *)
theory Homa_Outgoing_Use
imports Homa_Outgoing
begin

text \<open>
  What the sender puts on the wire: the segments of the packets of a message cover it exactly, packets leave in
  order and only as far as they are granted, and a retransmission covers the bytes asked for.
\<close>

section \<open>Segments\<close>

text \<open>Consecutive pieces of at most \<open>n\<close> bytes, the first one at offset \<open>off\<close>.\<close>

function pieces :: "int \<Rightarrow> nat \<Rightarrow> bytes \<Rightarrow> data_skb list" where
  "pieces off n D =
     (if D = [] \<or> n = 0 then []
      else \<lparr>sk_offset = off, sk_data = take n D, sk_retransmit = False\<rparr> # pieces (off + int n) n (drop n D))"
  by auto
termination by (relation "measure (\<lambda>(_, _, D). length D)") auto

declare pieces.simps [simp del]

function chunks :: "nat \<Rightarrow> 'a list \<Rightarrow> 'a list list" where
  "chunks n xs = (if xs = [] \<or> n = 0 then [] else take n xs # chunks n (drop n xs))"
  by auto
termination by (relation "measure (\<lambda>(_, xs). length xs)") auto

declare chunks.simps [simp del]

text \<open>
  What segmentation (by the NIC or the kernel) makes of a packet.  The bytes behind the replicated header are cut
  into chunks of \<open>gso_size\<close>.  Without a segment header in the chunks the offset follows from the sequence number.
\<close>

definition parse_chunk :: "bytes \<Rightarrow> data_skb" where
  "parse_chunk c = \<lparr>sk_offset = (case dec_seg_hdr c of None \<Rightarrow> -1 | Some (h, _) \<Rightarrow> sint (sg_offset h)),
                    sk_data = drop 4 c, sk_retransmit = False\<rparr>"

definition gso_segments :: "out_skb \<Rightarrow> data_skb list" where
  "gso_segments skb =
     (if os_gso_segs skb \<le> 1 then [\<lparr>sk_offset = os_offset skb, sk_data = os_payload skb, sk_retransmit = os_retransmit skb\<rparr>]
      else if os_seg_offset skb = -1 then pieces (os_offset skb) (nat (os_gso_size skb)) (os_payload skb)
      else map parse_chunk (chunks (nat (os_gso_size skb)) (seg_bytes (os_seg_offset skb) @ os_payload skb)))"

lemma pieces_Nil [simp]: "pieces off n [] = []"
  by (simp add: pieces.simps)

lemma pieces_Cons: "D \<noteq> [] \<Longrightarrow> 0 < n \<Longrightarrow> pieces off n D =
    \<lparr>sk_offset = off, sk_data = take n D, sk_retransmit = False\<rparr> # pieces (off + int n) n (drop n D)"
  by (subst pieces.simps) simp

lemma pieces_one:
  assumes "D \<noteq> []" and "length D \<le> n"
  shows "pieces off n D = [\<lparr>sk_offset = off, sk_data = D, sk_retransmit = False\<rparr>]"
proof -
  have "0 < n" using assms by (cases D) auto
  then show ?thesis using pieces_Cons [OF assms(1), of n off] assms(2) by simp
qed

text \<open>The stream of segment headers and data.\<close>

definition blocks :: "data_skb list \<Rightarrow> bytes list" where
  "blocks ps = map (\<lambda>p. seg_bytes (sk_offset p) @ sk_data p) ps"

lemma length_seg_bytes [simp]: "length (seg_bytes off) = 4"
  unfolding seg_bytes_def by (rule seg_hdr.length_enc) simp

lemma chunks_blocks:
  "0 < n \<Longrightarrow> chunks (n + 4) (concat (blocks (pieces off n D))) = blocks (pieces off n D)"
proof (induction off n D rule: pieces.induct)
  case (1 off n D)
  show ?case
  proof (cases "D = []")
    case True
    then show ?thesis by (simp add: blocks_def chunks.simps)
  next
    case ne: False
    let ?rest = "concat (blocks (pieces (off + int n) n (drop n D)))"
    have eq: "concat (blocks (pieces off n D)) = (seg_bytes off @ take n D) @ ?rest"
      using ne 1(2) by (simp add: pieces_Cons blocks_def)
    have "chunks (n + 4) ((seg_bytes off @ take n D) @ ?rest) = (seg_bytes off @ take n D) # chunks (n + 4) ?rest"
    proof (cases "length D \<le> n")
      case True
      then show ?thesis using 1(2) ne by (subst chunks.simps) (simp add: blocks_def chunks.simps)
    next
      case False
      then show ?thesis using 1(2) ne by (subst chunks.simps) simp
    qed
    then show ?thesis using ne 1 eq by (simp add: pieces_Cons blocks_def)
  qed
qed

lemma parse_block:
  assumes "0 \<le> off" and "off < 2 ^ 31"
  shows "parse_chunk (seg_bytes off @ d) = \<lparr>sk_offset = off, sk_data = d, sk_retransmit = False\<rparr>"
proof -
  have "sint (word_of_int off :: u32) = off"
    using assms wrap_s32_signed [of off] wrap_s32_id [of off] by simp
  moreover have "dec_seg_hdr (seg_bytes off @ d) = Some (\<lparr>sg_offset = word_of_int off\<rparr>, d)"
    unfolding seg_bytes_def by (rule seg_hdr.dec_enc_app) simp
  ultimately show ?thesis by (simp add: parse_chunk_def)
qed

lemma parse_blocks:
  assumes "0 \<le> off" and "off + int (length D) < 2 ^ 31" and "0 < n"
  shows "map parse_chunk (blocks (pieces off n D)) = pieces off n D"
  using assms
proof (induction off n D rule: pieces.induct)
  case (1 off n D)
  show ?case
  proof (cases "D = []")
    case False
    have "off < 2 ^ 31" using 1(3) by linarith
    then have p: "parse_chunk (seg_bytes off @ take n D) = \<lparr>sk_offset = off, sk_data = take n D, sk_retransmit = False\<rparr>"
      using 1(2) by (intro parse_block)
    have "map parse_chunk (blocks (pieces (off + int n) n (drop n D))) = pieces (off + int n) n (drop n D)"
    proof (cases "n < length D")
      case True
      then show ?thesis using 1 False by auto
    qed (simp add: blocks_def)
    then show ?thesis using False 1(4) p by (simp add: pieces_Cons [OF False] blocks_def)
  qed (simp add: blocks_def)
qed

definition no_faults :: "fill_env \<Rightarrow> bool" where
  "no_faults e \<longleftrightarrow> (\<forall>o'. fe_skb_mem e o' \<and> fe_hdr_mem e o' \<and> fe_fault e o' = None)"

lemma fill_interleaved_result:
  assumes "no_faults e" and "0 < L" and "0 < b" and "b \<le> int (length iter)" and "nat b \<le> n"
  shows "\<exists>tail. fill_interleaved n e L b off pay iter = Some (Inr (pay @ tail, drop (nat b) iter)) \<and>
    seg_bytes off @ tail = concat (blocks (pieces off (nat L) (take (nat b) iter)))"
  using assms
proof (induction n arbitrary: b off pay iter)
  case (Suc n)
  note ok = Suc.prems(1) [unfolded no_faults_def, rule_format]
  have D: "take (nat b) iter \<noteq> []" using Suc.prems(3,4) by auto
  show ?case
  proof (cases "b \<le> L")
    case True
    then have "pieces off (nat L) (take (nat b) iter) = [\<lparr>sk_offset = off, sk_data = take (nat b) iter, sk_retransmit = False\<rparr>]"
      using D by (intro pieces_one) auto
    then show ?thesis
      using True ok by (intro exI [of _ "take (nat b) iter"]) (auto simp: Let_def blocks_def)
  next
    case False
    let ?iter = "drop (nat L) iter"
    have c: "0 < b - L" "b - L \<le> int (length ?iter)" "nat (b - L) \<le> n"
      using Suc.prems False by (simp_all add: nat_le_iff)
    obtain tail where rec: "fill_interleaved n e L (b - L) (off + L) (pay @ take (nat L) iter @ seg_bytes (off + L)) ?iter =
        Some (Inr ((pay @ take (nat L) iter @ seg_bytes (off + L)) @ tail, drop (nat (b - L)) ?iter))"
      and tail: "seg_bytes (off + L) @ tail = concat (blocks (pieces (off + L) (nat L) (take (nat (b - L)) ?iter)))"
      using Suc.IH [OF Suc.prems(1,2) c] by blast
    have "fill_interleaved (Suc n) e L b off pay iter =
        Some (Inr (pay @ (take (nat L) iter @ seg_bytes (off + L) @ tail), drop (nat b) iter))"
      using rec False ok Suc.prems(2) by (simp add: Let_def nat_diff_distrib add.commute)
    moreover have "seg_bytes off @ (take (nat L) iter @ seg_bytes (off + L) @ tail) =
        concat (blocks (pieces off (nat L) (take (nat b) iter)))"
      using D False Suc.prems(2) tail
      by (simp add: pieces_Cons [OF D] blocks_def min_def take_drop nat_diff_distrib)
    ultimately show ?thesis by blast
  qed
qed simp

section \<open>Packets of a message\<close>

text \<open>What the sender relies on while a message is being sent.\<close>

definition out_core :: "rpc_ptr \<Rightarrow> kstate \<Rightarrow> int \<times> int \<times> out_skb list \<times> rpc_state \<times> peer_ptr \<times> (peer_ptr \<Rightarrow> int list) \<times> int" where
  "out_core r s = (mo_length (msgout s r), mo_unscheduled (msgout s r), mo_packets (msgout s r), rp_state (ks_rpcs s r),
     rp_peer (ks_rpcs s r), pe_unsched_cutoffs \<circ> ks_peers s, h_num_priorities (ks_homa s))"

lemma same_core:
  assumes "out_core r s' = out_core r s"
  shows "mo_length (msgout s' r) = mo_length (msgout s r)" "mo_unscheduled (msgout s' r) = mo_unscheduled (msgout s r)"
    "mo_packets (msgout s' r) = mo_packets (msgout s r)" "rp_state (ks_rpcs s' r) = rp_state (ks_rpcs s r)"
    "rp_peer (ks_rpcs s' r) = rp_peer (ks_rpcs s r)"
    "pe_unsched_cutoffs (ks_peers s' p) = pe_unsched_cutoffs (ks_peers s p)"
    "h_num_priorities (ks_homa s') = h_num_priorities (ks_homa s)"
  using assms by (simp_all add: out_core_def fun_eq_iff)

text \<open>The other threads leave the message and the priorities alone while the RPC is unlocked.\<close>

definition quiet :: "rpc_ptr \<Rightarrow> fill_env \<Rightarrow> bool" where
  "quiet r e \<longleftrightarrow> (\<forall>o' s. out_core r (fe_other e o' s) = out_core r s)"

lemma get_acks_peer: "homa_peer_get_acks n peer = (acks, peer') \<Longrightarrow> pe_unsched_cutoffs peer' = pe_unsched_cutoffs peer"
  by (auto simp: homa_peer_get_acks_def Let_def split: if_splits)

lemma more_than_one:
  assumes "0 < L"
  shows "(len + L - 1) div L > 1 \<longleftrightarrow> (len :: int) > L"
proof
  assume "len > L"
  then have "(2 * L) div L \<le> (len + L - 1) div L" using assms by (intro zdiv_mono1) simp_all
  then show "(len + L - 1) div L > 1" using assms by simp
next
  have "(2 * L - 1) div L = 1" using assms by (intro int_div_pos_eq [where r = "L - 1"]) simp_all
  moreover assume "(len + L - 1) div L > 1"
  ultimately show "len > L" using zdiv_mono1 [of "len + L - 1" "2 * L - 1" L] assms by linarith
qed

text \<open>The fields of a packet with several segments that tell where each segment is.\<close>

definition geometry :: "int \<Rightarrow> out_skb \<Rightarrow> bool" where
  "geometry L skb \<longleftrightarrow> os_gso_segs skb > 1 \<longrightarrow> os_seg_length skb = L \<and>
     os_gso_size skb = (if os_seg_offset skb = -1 then L else L + sizeof_seg_hdr)"

lemma new_data_packet_result:
  assumes "no_faults e" and "0 < L" and "0 < len" and "len \<le> int (length iter)" and "nat len \<le> fuel"
    and "0 \<le> offset" and "offset + len < 2 ^ 31"
  shows "\<exists>skb s'. homa_new_data_packet fuel e r iter offset len L s = Some (Inr (skb, drop (nat len) iter), s') \<and>
    os_offset skb = offset \<and> os_data_bytes skb = len \<and> geometry L skb \<and>
    gso_segments skb = pieces offset (nat L) (take (nat len) iter) \<and> out_core r s' = out_core r s"
proof -
  obtain acks peer where a: "homa_peer_get_acks (Suc 0) (ks_peers s (rp_peer (ks_rpcs s r))) = (acks, peer)" by fastforce
  let ?s = "upd_peer (rp_peer (ks_rpcs s r)) (\<lambda>_. peer) s"
  have core: "out_core r ?s = out_core r s"
    using get_acks_peer [OF a] by (simp add: out_core_def fun_eq_iff)
  let ?hsk = "ks_socks s (rp_hsk (ks_rpcs s r))" and ?D = "take (nat len) iter"
  define skb where "skb = new_data_header (ks_rpcs s r) ?hsk acks (pe_cutoff_version peer) offset len L"
  have D: "?D \<noteq> []" "length ?D = nat len" using assms(3,4) by auto
  note ok = assms(1) [unfolded no_faults_def, rule_format]
  have geom: "os_offset skb = offset" "os_data_bytes skb = len" "os_seg_length skb = L" "os_payload skb = []" "\<not> os_retransmit skb"
    "os_gso_segs skb > 1 \<longleftrightarrow> len > L" "len > L \<Longrightarrow> os_gso_size skb = (if hs_is_tcp ?hsk then L else L + 4)"
    "os_seg_offset skb = (if len > L \<and> \<not> hs_is_tcp ?hsk then offset else -1)"
    using more_than_one [OF assms(2), of len] by (simp_all add: skb_def new_data_header_def Let_def)
  have run: "homa_new_data_packet fuel e r iter offset len L s = Some (Inr (skb\<lparr>os_payload := payload\<rparr>, drop (nat len) iter), ?s)"
    if "(if len > L \<and> \<not> hs_is_tcp ?hsk then homa_fill_data_interleaved fuel e skb iter
         else Some (Inr (?D, drop (nat len) iter))) = Some (Inr (payload, drop (nat len) iter))" for payload
    unfolding homa_new_data_packet_def Let_def One_nat_def a prod.case skb_def [symmetric]
    using that ok geom(6) by (auto split: if_splits)
  show ?thesis
  proof (cases "len > L \<and> \<not> hs_is_tcp ?hsk")
    case True
    obtain tail where tail: "fill_interleaved fuel e L len offset [] iter = Some (Inr ([] @ tail, drop (nat len) iter))"
        "seg_bytes offset @ tail = concat (blocks (pieces offset (nat L) ?D))"
      using fill_interleaved_result [OF assms(1-5)] by blast
    have "map parse_chunk (chunks (nat (L + 4)) (seg_bytes offset @ tail)) = pieces offset (nat L) ?D"
      using chunks_blocks [of "nat L" offset ?D] parse_blocks [of offset ?D "nat L"] assms(2,6,7) D tail(2)
      by (simp add: nat_add_distrib)
    then show ?thesis
      using run [of tail] tail(1) core geom True assms(6)
      by (intro exI [of _ "skb\<lparr>os_payload := tail\<rparr>"] exI [of _ ?s])
        (simp add: homa_fill_data_interleaved_def gso_segments_def geometry_def)
  next
    case False
    then have "gso_segments (skb\<lparr>os_payload := ?D\<rparr>) = pieces offset (nat L) ?D"
      using geom D pieces_one [of ?D "nat L" offset] by (auto simp: gso_segments_def)
    moreover have "geometry L (skb\<lparr>os_payload := ?D\<rparr>)" using geom False by (simp add: geometry_def)
    ultimately show ?thesis
      using run [of ?D] core geom(1,2) False by (intro exI [of _ "skb\<lparr>os_payload := ?D\<rparr>"] exI [of _ ?s]) auto
  qed
qed

text \<open>A packet that carries its part of the message \<open>D\<close> in segments of at most \<open>L\<close> bytes and does not reach across
  the end \<open>u\<close> of the unscheduled bytes; and packets that follow each other without gap.\<close>

definition packet_of :: "bytes \<Rightarrow> int \<Rightarrow> int \<Rightarrow> out_skb \<Rightarrow> bool" where
  "packet_of D L u skb \<longleftrightarrow> 0 \<le> os_offset skb \<and> 0 < os_data_bytes skb \<and> os_offset skb + os_data_bytes skb \<le> int (length D) \<and>
     gso_segments skb = pieces (os_offset skb) (nat L) (take (nat (os_data_bytes skb)) (drop (nat (os_offset skb)) D)) \<and>
     geometry L skb \<and>
     \<not> (os_offset skb < u \<and> u < os_offset skb + os_data_bytes skb)"

fun tiles :: "int \<Rightarrow> out_skb list \<Rightarrow> int \<Rightarrow> bool" where
  "tiles a [] b \<longleftrightarrow> a = b"
| "tiles a (p # ps) b \<longleftrightarrow> os_offset p = a \<and> tiles (a + os_data_bytes p) ps b"

lemma tiles_append: "tiles a (ps @ qs) b \<longleftrightarrow> (\<exists>c. tiles a ps c \<and> tiles c qs b)"
  by (induction ps arbitrary: a) auto

definition message_cut :: "bytes \<Rightarrow> int \<Rightarrow> int \<Rightarrow> int \<Rightarrow> out_skb list \<Rightarrow> bool" where
  "message_cut D L u b ps \<longleftrightarrow> tiles 0 ps b \<and> (\<forall>p \<in> set ps. packet_of D L u p)"

definition out_ok :: "bytes \<Rightarrow> int \<Rightarrow> int \<Rightarrow> int \<Rightarrow> rpc_ptr \<Rightarrow> kstate \<Rightarrow> bool" where
  "out_ok D L u b r s \<longleftrightarrow> mo_length (msgout s r) = int (length D) \<and> mo_unscheduled (msgout s r) = u \<and>
     rp_state (ks_rpcs s r) \<noteq> RPC_DEAD \<and> message_cut D L u (int (length D) - b) (mo_packets (msgout s r))"

text \<open>The part of the state that decides about priorities.\<close>

definition prio_core :: "rpc_ptr \<Rightarrow> kstate \<Rightarrow> peer_ptr \<times> (peer_ptr \<Rightarrow> int list) \<times> int" where
  "prio_core r s = (rp_peer (ks_rpcs s r), pe_unsched_cutoffs \<circ> ks_peers s, h_num_priorities (ks_homa s))"

lemma core_prio: "out_core r s' = out_core r s \<Longrightarrow> prio_core r s' = prio_core r s"
  by (simp add: out_core_def prio_core_def)

lemma add_to_throttled_sel [simp]:
  "ks_rpcs (homa_add_to_throttled now r s) = ks_rpcs s" "ks_peers (homa_add_to_throttled now r s) = ks_peers s"
  "ks_socks (homa_add_to_throttled now r s) = ks_socks s" "ks_xmits (homa_add_to_throttled now r s) = ks_xmits s"
  "h_num_priorities (ks_homa (homa_add_to_throttled now r s)) = h_num_priorities (ks_homa s)"
  "r \<in> set (h_throttled_rpcs (ks_homa (homa_add_to_throttled now r s)))"
  by (simp_all add: homa_add_to_throttled_def)

lemma fill_loop_result:
  assumes "no_faults e" and "quiet r e" and "0 < L" and "0 < G" and "int (length D) < 2 ^ 31"
    and "0 \<le> b" and "b \<le> int (length D)" and "nat b < n" and "out_ok D L u b r s"
  shows "\<exists>s'. fill_loop n e clk r xmit L G overlap b (drop (nat (int (length D) - b)) D) s = Some (None, s') \<and>
    out_ok D L u 0 r s' \<and> prio_core r s' = prio_core r s"
  using assms(6-9)
proof (induction n arbitrary: b s)
  case (Suc n)
  show ?case
  proof (cases "b = 0")
    case True
    then show ?thesis using Suc.prems(4) by simp
  next
    case False
    let ?off = "int (length D) - b"
    let ?iter = "drop (nat ?off) D"
    define s1 where "s1 = fe_other e ?off s"
    have c1: "out_core r s1 = out_core r s" using assms(2) by (simp add: quiet_def s1_def)
    define len where "len = min (if ?off < u \<and> ?off + G > u then u - ?off else G) b"
    have len: "0 < len" "len \<le> int (length ?iter)" "nat len \<le> n" "0 \<le> ?off" "?off + len < 2 ^ 31"
      using Suc.prems(1-3) False assms(4,5) by (auto simp: len_def)
    obtain skb s2 where new: "homa_new_data_packet n e r ?iter ?off len L s1 = Some (Inr (skb, drop (nat len) ?iter), s2)"
      and skb: "os_offset skb = ?off" "os_data_bytes skb = len" "geometry L skb" "gso_segments skb = pieces ?off (nat L) (take (nat len) ?iter)"
      and c2: "out_core r s2 = out_core r s1"
      using new_data_packet_result [OF assms(1,3) len] by blast
    define s3 where "s3 = upd_msgout r (\<lambda>m. m\<lparr>mo_packets := mo_packets m @ [skb], mo_num_skbs := mo_num_skbs m + 1,
                           mo_copied_from_user := mo_length m - (b - len)\<rparr>) s2"
    define s4 where "s4 = (if overlap \<and> r \<notin> set (h_throttled_rpcs (ks_homa s3)) \<and> xmit \<and> ?off < mo_granted (msgout s3 r)
                          then homa_add_to_throttled (clk n) r s3 else s3)"
    note same = same_core [OF c1] same_core [OF c2]
    have ok: "mo_length (msgout s r) = int (length D)" "mo_unscheduled (msgout s r) = u" "rp_state (ks_rpcs s r) \<noteq> RPC_DEAD"
      "message_cut D L u ?off (mo_packets (msgout s r))" using Suc.prems(4) by (simp_all add: out_ok_def)
    have it: "drop (nat len) ?iter = drop (nat (int (length D) - (b - len))) D"
      using len by (simp add: nat_add_distrib [symmetric] algebra_simps)
    have lenif: "(if (if ?off < u \<and> ?off + G > u then u - ?off else G) > b then b
        else if ?off < u \<and> ?off + G > u then u - ?off else G) = len" by (auto simp: len_def min_def)
    have alive: "rp_state (ks_rpcs s2 r) \<noteq> RPC_DEAD" "mo_unscheduled (msgout s1 r) = u" using same ok by simp_all
    have step: "fill_loop (Suc n) e clk r xmit L G overlap b ?iter s =
        fill_loop n e clk r xmit L G overlap (b - len) (drop (nat (int (length D) - (b - len))) D) s4"
      unfolding fill_loop.simps Let_def ok(1) s1_def [symmetric] alive(2) lenif new
      using alive(1) False Suc.prems(1) by (simp add: s3_def [symmetric] s4_def it [symmetric])
    have "len \<le> b" "\<not> (?off < u \<and> u < ?off + len)" by (auto simp: len_def)
    then have pk: "packet_of D L u skb" using skb len by (simp add: packet_of_def)
    have s4: "ks_rpcs s4 = ks_rpcs s3" "ks_peers s4 = ks_peers s2" "h_num_priorities (ks_homa s4) = h_num_priorities (ks_homa s2)"
      by (simp_all add: s4_def s3_def)
    have "message_cut D L u (?off + len) (mo_packets (msgout s4 r))"
      using ok(4) pk same skb(1,2) by (simp add: s4 s3_def message_cut_def tiles_append)
    then have ok4: "out_ok D L u (b - len) r s4"
      using ok same by (simp add: out_ok_def s4 s3_def algebra_simps)
    have "prio_core r s4 = prio_core r s2" by (simp add: prio_core_def s4 s3_def)
    then have pr: "prio_core r s4 = prio_core r s" using core_prio [OF c1] core_prio [OF c2] by simp
    have "0 \<le> b - len" "b - len \<le> int (length D)" "nat (b - len) < n"
      using \<open>len \<le> b\<close> Suc.prems(2,3) len(1) False by (simp_all add: nat_less_iff)
    from Suc.IH [OF this ok4] show ?thesis using step pr by auto
  qed
qed simp

section \<open>The segments of a message\<close>

abbreviation seg_end :: "data_skb \<Rightarrow> int" where
  "seg_end p \<equiv> sk_offset p + homa_data_len p"

text \<open>Segments of \<open>D\<close> (which starts at offset \<open>off\<close>) in order, without gap, from \<open>a\<close> to \<open>b\<close>, of at most \<open>n\<close> bytes each.\<close>

definition in_order :: "int \<Rightarrow> bytes \<Rightarrow> nat \<Rightarrow> int \<Rightarrow> int \<Rightarrow> data_skb list \<Rightarrow> bool" where
  "in_order off D n a b ps \<longleftrightarrow>
     (\<forall>p \<in> set ps. a \<le> sk_offset p \<and> 0 < homa_data_len p \<and> homa_data_len p \<le> int n \<and> seg_end p \<le> b \<and>
        sk_data p = take (length (sk_data p)) (drop (nat (sk_offset p - off)) D)) \<and>
     sorted_wrt (\<lambda>p q. seg_end p \<le> sk_offset q) ps \<and> \<Union> (skb_range ` set ps) = {a ..< b}"

lemma in_order_append:
  assumes "in_order off D n a b ps" and "in_order off D n b c qs" and "a \<le> b" and "b \<le> c"
  shows "in_order off D n a c (ps @ qs)"
proof -
  have un: "{a ..< b} \<union> {b ..< c} = {a ..< c}" using assms(3,4) by (simp add: ivl_disj_un)
  note P = assms(1) [unfolded in_order_def] and Q = assms(2) [unfolded in_order_def]
  show ?thesis
    unfolding in_order_def
  proof (intro conjI ballI)
    fix p assume "p \<in> set (ps @ qs)"
    then consider "p \<in> set ps" | "p \<in> set qs" by auto
    then show "a \<le> sk_offset p" "0 < homa_data_len p" "homa_data_len p \<le> int n" "seg_end p \<le> c"
      "sk_data p = take (length (sk_data p)) (drop (nat (sk_offset p - off)) D)"
      by (cases; use P Q assms(3,4) in force)+
  next
    have "seg_end p \<le> sk_offset q" if "p \<in> set ps" "q \<in> set qs" for p q using P Q that by (meson order_trans)
    then show "sorted_wrt (\<lambda>p q. seg_end p \<le> sk_offset q) (ps @ qs)" using P Q by (simp add: sorted_wrt_append)
  next
    show "\<Union> (skb_range ` set (ps @ qs)) = {a ..< c}" using P Q un by (simp add: Un_commute)
  qed
qed

lemma in_order_one:
  assumes "d \<noteq> []" and "length d \<le> n" and "d = take (length d) (drop (nat (a - off)) D)"
  shows "in_order off D n a (a + int (length d)) [\<lparr>sk_offset = a, sk_data = d, sk_retransmit = rt\<rparr>]"
  using assms by (simp add: in_order_def homa_data_len_def skb_range_def)

lemma pieces_in_order:
  assumes "0 < n" and "off \<le> a" and "d = take (length d) (drop (nat (a - off)) D)"
  shows "in_order off D n a (a + int (length d)) (pieces a n d)"
  using assms
proof (induction a n d rule: pieces.induct)
  case (1 a n d)
  show ?case
  proof (cases "length d \<le> n")
    case True
    then show ?thesis
    proof (cases "d = []")
      case False
      then show ?thesis using pieces_one [OF False True] in_order_one [OF False True 1(4)] by simp
    qed (simp add: in_order_def)
  next
    case False
    let ?h = "take n d" and ?t = "drop n d"
    have d: "d \<noteq> []" using False by auto
    have eq: "?h = take (length ?h) (drop (nat (a - off)) D)" "?t = take (length ?t) (drop (nat (a + int n - off)) D)"
    proof -
      have "?h = take n (take (length d) (drop (nat (a - off)) D))" using 1(4) by simp
      then show "?h = take (length ?h) (drop (nat (a - off)) D)" using False by (simp add: min_def)
      have idx: "nat (a + int n - off) = n + nat (a - off)" using 1(3) by arith
      have "?t = drop n (take (length d) (drop (nat (a - off)) D))" using 1(4) by simp
      also have "\<dots> = take (length d - n) (drop (n + nat (a - off)) D)" by (simp add: drop_take)
      finally show "?t = take (length ?t) (drop (nat (a + int n - off)) D)" unfolding idx length_drop .
    qed
    have "in_order off D n (a + int n) (a + int n + int (length ?t)) (pieces (a + int n) n ?t)"
      using 1(1) [OF _ 1(2) _ eq(2)] d 1(2,3) by simp
    moreover have "in_order off D n a (a + int n) [\<lparr>sk_offset = a, sk_data = ?h, sk_retransmit = False\<rparr>]"
    proof -
      have h: "?h \<noteq> []" "length ?h = n" using d 1(2) False by simp_all
      from in_order_one [OF h(1) _ eq(1), of n False] show ?thesis unfolding h(2) by simp
    qed
    ultimately have "in_order off D n a (a + int n + int (length ?t))
       ([\<lparr>sk_offset = a, sk_data = ?h, sk_retransmit = False\<rparr>] @ pieces (a + int n) n ?t)"
      by (intro in_order_append) (assumption | linarith)+
    then show ?thesis using pieces_Cons [OF d 1(2), of a] False by simp
  qed
qed

lemma take_own_length: "take n xs = take (length (take n xs)) xs"
  by (cases "n \<le> length xs") simp_all

lemma tiles_le: "tiles a ps b \<Longrightarrow> \<forall>p \<in> set ps. 0 < os_data_bytes p \<Longrightarrow> a \<le> b"
  by (induction ps arbitrary: a) (auto, fastforce)

lemma cut_in_order:
  assumes "tiles a ps b" and "\<forall>p \<in> set ps. packet_of D L u p" and "0 < L"
  shows "in_order 0 D (nat L) a b (concat (map gso_segments ps))"
  using assms(1,2)
proof (induction ps arbitrary: a)
  case Nil
  then show ?case by (simp add: in_order_def)
next
  case (Cons p ps)
  have p: "packet_of D L u p" "os_offset p = a" "0 < os_data_bytes p" "0 \<le> a"
    using Cons.prems by (auto simp: packet_of_def)
  let ?d = "take (nat (os_data_bytes p)) (drop (nat a) D)"
  have len: "int (length ?d) = os_data_bytes p" using p by (auto simp: packet_of_def)
  have "?d = take (length ?d) (drop (nat (a - 0)) D)" unfolding diff_zero by (rule take_own_length)
  then have "in_order 0 D (nat L) a (a + int (length ?d)) (pieces a (nat L) ?d)"
    using assms(3) p(4) by (intro pieces_in_order) simp_all
  then have "in_order 0 D (nat L) a (a + os_data_bytes p) (gso_segments p)"
    using p(1,2) len by (simp add: packet_of_def)
  moreover have "in_order 0 D (nat L) (a + os_data_bytes p) b (concat (map gso_segments ps))"
    using Cons by simp
  moreover have "a + os_data_bytes p \<le> b"
    using tiles_le [of "a + os_data_bytes p" ps b] Cons.prems by (auto simp: packet_of_def)
  ultimately show ?case using p(3) by (simp add: in_order_append)
qed

lemma in_order_segments:
  assumes "in_order 0 D n 0 (int (length D)) ps"
  shows "segments_of (int (length D)) (set ps)"
proof -
  have "skb_range p \<inter> skb_range q = {} \<or> skb_range p = skb_range q" if pq: "p \<in> set ps" "q \<in> set ps" for p q
  proof -
    obtain i j where ij: "i < length ps" "j < length ps" "p = ps ! i" "q = ps ! j"
      using pq by (auto simp: in_set_conv_nth)
    consider "i < j" | "i = j" | "j < i" by linarith
    then show ?thesis
    proof cases
      case 1
      then have "seg_end p \<le> sk_offset q" using assms ij by (auto simp: in_order_def sorted_wrt_iff_nth_less)
      then show ?thesis by (auto simp: skb_range_def)
    next
      case 3
      then have "seg_end q \<le> sk_offset p" using assms ij by (auto simp: in_order_def sorted_wrt_iff_nth_less)
      then show ?thesis by (auto simp: skb_range_def)
    qed (use ij in simp)
  qed
  then show ?thesis using assms unfolding segments_of_def in_order_def by blast
qed

section \<open>Transmission\<close>

definition data_entry :: "kstate \<Rightarrow> rpc_ptr \<Rightarrow> out_skb \<Rightarrow> int \<Rightarrow> xmit" where
  "data_entry s r skb priority =
     (let rpc = ks_rpcs s r in
      \<lparr>xm_peer = rp_peer rpc, xm_sport = hs_port (ks_socks s (rp_hsk rpc)), xm_dport = rp_dport rpc,
       xm_sender_id = rp_id rpc, xm_priority = priority,
       xm_body = XData (skb\<lparr>os_cutoff_version := pe_cutoff_version (ks_peers s (rp_peer rpc))\<rparr>), xm_sent = True\<rparr>)"

lemma xmit_data_to_eq: "xmit_data_to skb r priority s = s\<lparr>ks_xmits := ks_xmits s @ [data_entry s r skb priority]\<rparr>"
  by (simp add: xmit_data_to_def data_entry_def Let_def)

lemma check_nic_queue_sel:
  assumes "homa_check_nic_queue clock skb force s = (go, s')"
  shows "ks_rpcs s' = ks_rpcs s" "ks_peers s' = ks_peers s" "ks_socks s' = ks_socks s" "ks_xmits s' = ks_xmits s"
    "h_num_priorities (ks_homa s') = h_num_priorities (ks_homa s)"
    "h_throttled_rpcs (ks_homa s') = h_throttled_rpcs (ks_homa s)" "force \<Longrightarrow> go"
  using assms by (auto simp: homa_check_nic_queue_def Let_def split: if_splits)

definition unsched_ok :: "rpc_ptr \<Rightarrow> kstate \<Rightarrow> bool" where
  "unsched_ok r s \<longleftrightarrow>
     homa_unsched_priority (ks_homa s) (ks_peers s (rp_peer (ks_rpcs s r))) (mo_length (msgout s r)) \<noteq> None"

lemma unsched_ok_core: "out_core r s' = out_core r s \<Longrightarrow> unsched_ok r s' = unsched_ok r s"
  using same_core [of r s' s] by (simp add: unsched_ok_def homa_unsched_priority_def)

text \<open>What is left of the first \<open>k\<close> packets behind \<open>next_xmit\<close>, and the bytes in them.\<close>

abbreviation next_packets :: "kstate \<Rightarrow> rpc_ptr \<Rightarrow> nat \<Rightarrow> out_skb list" where
  "next_packets s r k \<equiv> take k (drop (mo_next_xmit (msgout s r)) (mo_packets (msgout s r)))"

definition data_sum :: "out_skb list \<Rightarrow> int" where
  "data_sum ps = sum_list (map os_data_bytes ps)"

definition sent_packets :: "rpc_ptr \<Rightarrow> kstate \<Rightarrow> nat \<Rightarrow> kstate \<Rightarrow> bool" where
  "sent_packets r s k s' \<longleftrightarrow>
     mo_next_xmit (msgout s' r) = mo_next_xmit (msgout s r) + k \<and>
     mo_next_xmit_offset (msgout s' r) = mo_next_xmit_offset (msgout s r) + data_sum (next_packets s r k) \<and>
     mo_granted (msgout s' r) = mo_granted (msgout s r) \<and>
     (\<exists>prios. length prios = k \<and> ks_xmits s' = ks_xmits s @ map2 (data_entry s r) (next_packets s r k) prios) \<and>
     (\<forall>i < k. mo_next_xmit_offset (msgout s r) + data_sum (next_packets s r i) < mo_granted (msgout s r))"

lemma sent_none:
  assumes "msgout s' r = msgout s r" and "ks_xmits s' = ks_xmits s"
  shows "sent_packets r s 0 s'"
  using assms by (simp add: sent_packets_def data_sum_def)

lemma sent_more:
  assumes "sent_packets r s1 k s'" and "mo_next_xmit (msgout s r) < length (mo_packets (msgout s r))"
    and "mo_next_xmit_offset (msgout s r) < mo_granted (msgout s r)"
    and "msgout s1 r = (msgout s r)\<lparr>mo_next_xmit := mo_next_xmit (msgout s r) + 1,
       mo_next_xmit_offset := mo_next_xmit_offset (msgout s r) + os_data_bytes (mo_packets (msgout s r) ! mo_next_xmit (msgout s r))\<rparr>"
    and "ks_xmits s1 = ks_xmits s @ [data_entry s r (mo_packets (msgout s r) ! mo_next_xmit (msgout s r)) p]"
    and "data_entry s1 r = data_entry s r"
  shows "sent_packets r s (Suc k) s'"
proof -
  let ?n = "mo_next_xmit (msgout s r)" and ?ps = "mo_packets (msgout s r)"
  have ps: "drop ?n ?ps = ?ps ! ?n # drop (Suc ?n) ?ps" using assms(2) by (simp add: Cons_nth_drop_Suc)
  have nxt: "next_packets s r (Suc j) = ?ps ! ?n # next_packets s1 r j" for j using assms(4) by (simp add: ps)
  obtain prios where pr: "length prios = k" "ks_xmits s' = ks_xmits s1 @ map2 (data_entry s1 r) (next_packets s1 r k) prios"
    using assms(1) by (auto simp: sent_packets_def)
  have "ks_xmits s' = ks_xmits s @ map2 (data_entry s r) (next_packets s r (Suc k)) (p # prios)"
    unfolding nxt using pr(2) assms(5,6) by simp
  then have "\<exists>prios. length prios = Suc k \<and> ks_xmits s' = ks_xmits s @ map2 (data_entry s r) (next_packets s r (Suc k)) prios"
    using pr(1) by (intro exI [of _ "p # prios"]) simp
  moreover have "mo_next_xmit_offset (msgout s r) + data_sum (next_packets s r i) < mo_granted (msgout s r)" if "i < Suc k" for i
  proof (cases i)
    case (Suc j)
    then show ?thesis using assms(1,4) that unfolding Suc nxt by (simp add: sent_packets_def data_sum_def add.assoc)
  qed (use assms(3) in \<open>simp add: data_sum_def\<close>)
  ultimately show ?thesis
    using assms(1,4) unfolding sent_packets_def nxt by (simp add: data_sum_def)
qed

definition xmit_stops :: "rpc_ptr \<Rightarrow> kstate \<Rightarrow> bool" where
  "xmit_stops r s \<longleftrightarrow> mo_next_xmit_offset (msgout s r) \<ge> mo_granted (msgout s r) \<or>
     r \<in> set (h_throttled_rpcs (ks_homa s)) \<or> rp_state (ks_rpcs s r) = RPC_DEAD"

lemma xmit_loop_result:
  assumes "unsched_ok r s" and "n = length (mo_packets (msgout s r)) - mo_next_xmit (msgout s r)"
  shows "\<exists>s' k. xmit_loop clk n force r s = Some s' \<and> k \<le> n \<and> sent_packets r s k s' \<and> out_core r s' = out_core r s \<and>
    (k = n \<or> xmit_stops r s') \<and>
    (force \<and> 0 < n \<and> mo_next_xmit_offset (msgout s r) < mo_granted (msgout s r) \<longrightarrow> 0 < k)"
  using assms
proof (induction n arbitrary: s force)
  case 0
  then show ?case by (auto intro!: exI [of _ 0] sent_none)
next
  case (Suc n)
  let ?m = "msgout s r"
  let ?skb = "mo_packets ?m ! mo_next_xmit ?m"
  show ?case
  proof (cases "mo_next_xmit_offset ?m \<ge> mo_granted ?m")
    case True
    then show ?thesis by (intro exI [of _ s] exI [of _ 0]) (simp add: sent_none xmit_stops_def)
  next
    case granted: False
    obtain go s1 where nic: "(if xmit_left s r \<ge> h_throttle_min_bytes (ks_homa s)
        then homa_check_nic_queue (clk n) ?skb force s else (True, s)) = (go, s1)" by fastforce
    have s1: "ks_rpcs s1 = ks_rpcs s" "ks_peers s1 = ks_peers s" "ks_socks s1 = ks_socks s" "ks_xmits s1 = ks_xmits s"
      "h_num_priorities (ks_homa s1) = h_num_priorities (ks_homa s)" "force \<Longrightarrow> go"
      using nic check_nic_queue_sel [of "clk n" ?skb force s go s1] by (auto split: if_splits)
    have core1: "out_core r s1 = out_core r s" by (simp add: out_core_def s1)
    show ?thesis
    proof (cases go)
      case False
      let ?s = "homa_add_to_throttled (clk n) r s1"
      have "xmit_loop clk (Suc n) force r s = Some ?s"
        unfolding xmit_loop.simps Let_def nic using granted False by simp
      moreover have "out_core r ?s = out_core r s" using core1 by (simp add: out_core_def)
      moreover have "sent_packets r s 0 ?s" by (rule sent_none) (simp_all add: s1)
      moreover have "xmit_stops r ?s" by (simp add: xmit_stops_def)
      ultimately show ?thesis using False s1(6) by blast
    next
      case True
      have "xmit_priority s1 r \<noteq> None"
        using Suc.prems(1) unsched_ok_core [OF core1] by (simp add: xmit_priority_def unsched_ok_def Let_def)
      then obtain p where p: "xmit_priority s1 r = Some p" by blast
      define s2 where "s2 = upd_msgout r (\<lambda>m. m\<lparr>mo_next_xmit := mo_next_xmit m + 1,
                         mo_next_xmit_offset := mo_next_xmit_offset m + os_data_bytes ?skb\<rparr>) s1"
      define s3 where "s3 = xmit_data_to ?skb r p s2"
      have de: "data_entry s2 r = data_entry s r" "data_entry s3 r = data_entry s r"
        by (simp_all add: data_entry_def s3_def s2_def xmit_data_to_eq s1 fun_eq_iff Let_def)
      have core3: "out_core r s3 = out_core r s" by (simp add: out_core_def s3_def s2_def xmit_data_to_eq s1)
      have m3: "msgout s3 r = ?m\<lparr>mo_next_xmit := mo_next_xmit ?m + 1, mo_next_xmit_offset := mo_next_xmit_offset ?m + os_data_bytes ?skb\<rparr>"
        "ks_xmits s3 = ks_xmits s @ [data_entry s r ?skb p]"
        using de(1) by (simp_all add: s3_def s2_def xmit_data_to_eq s1)
      have idx: "mo_next_xmit ?m < length (mo_packets ?m)" using Suc.prems(2) by linarith
      have lt: "mo_next_xmit_offset ?m < mo_granted ?m" using granted by simp
      have step: "xmit_loop clk (Suc n) force r s =
          (if rp_state (ks_rpcs s3 r) = RPC_DEAD then Some s3 else xmit_loop clk n False r s3)"
        unfolding xmit_loop.simps Let_def nic prod.case p option.case s2_def [symmetric] s3_def [symmetric]
        using granted True by simp
      show ?thesis
      proof (cases "rp_state (ks_rpcs s3 r) = RPC_DEAD")
        case True
        have "sent_packets r s3 0 s3" by (rule sent_none) simp_all
        from sent_more [OF this idx lt m3 de(2)] have "sent_packets r s (Suc 0) s3" .
        then show ?thesis using step True core3 by (intro exI [of _ s3] exI [of _ "Suc 0"]) (simp add: xmit_stops_def)
      next
        case False
        have "unsched_ok r s3" "n = length (mo_packets (msgout s3 r)) - mo_next_xmit (msgout s3 r)"
          using Suc.prems unsched_ok_core [OF core3] m3(1) by simp_all
        from Suc.IH [OF this, of False] obtain s' k where rec: "xmit_loop clk n False r s3 = Some s'" "k \<le> n"
          "sent_packets r s3 k s'" "out_core r s' = out_core r s3" "k = n \<or> xmit_stops r s'" by blast
        have "sent_packets r s (Suc k) s'" by (rule sent_more [OF rec(3) idx lt m3 de(2)])
        then show ?thesis using step False rec core3 by (intro exI [of _ s'] exI [of _ "Suc k"]) auto
      qed
    qed
  qed
qed

lemma sent_packets_active:
  assumes "sent_packets r (upd_msgout r (\<lambda>m. m\<lparr>mo_active_xmits := f m\<rparr>) s) k s1"
  shows "sent_packets r s k (upd_msgout r (\<lambda>m. m\<lparr>mo_active_xmits := g m\<rparr>) s1)"
proof -
  have "data_entry (upd_msgout r (\<lambda>m. m\<lparr>mo_active_xmits := f m\<rparr>) s) r = data_entry s r"
    by (simp add: data_entry_def fun_eq_iff Let_def)
  then show ?thesis using assms by (simp add: sent_packets_def)
qed

lemma xmit_data_result:
  assumes "unsched_ok r s"
  shows "\<exists>s' k. homa_xmit_data clk force r s = Some s' \<and> k \<le> length (mo_packets (msgout s r)) - mo_next_xmit (msgout s r) \<and>
    sent_packets r s k s' \<and> out_core r s' = out_core r s \<and>
    (k = length (mo_packets (msgout s r)) - mo_next_xmit (msgout s r) \<or> xmit_stops r s') \<and>
    (force \<and> mo_next_xmit (msgout s r) < length (mo_packets (msgout s r)) \<and>
       mo_next_xmit_offset (msgout s r) < mo_granted (msgout s r) \<longrightarrow> 0 < k)"
proof -
  let ?s0 = "upd_msgout r (\<lambda>m. m\<lparr>mo_active_xmits := mo_active_xmits m + 1\<rparr>) s"
  have core: "out_core r (upd_msgout r (\<lambda>m. m\<lparr>mo_active_xmits := f m\<rparr>) s1) = out_core r s1" for f s1
    by (simp add: out_core_def)
  have stops: "xmit_stops r (upd_msgout r (\<lambda>m. m\<lparr>mo_active_xmits := f m\<rparr>) s1) = xmit_stops r s1" for f s1
    by (simp add: xmit_stops_def)
  have "unsched_ok r ?s0" using assms by (rule unsched_ok_core [OF core, THEN iffD2])
  from xmit_loop_result [OF this refl, of clk force] obtain s1 k where
    "xmit_loop clk (length (mo_packets (msgout ?s0 r)) - mo_next_xmit (msgout ?s0 r)) force r ?s0 = Some s1"
    "k \<le> length (mo_packets (msgout s r)) - mo_next_xmit (msgout s r)" "sent_packets r ?s0 k s1"
    "out_core r s1 = out_core r ?s0" "k = length (mo_packets (msgout s r)) - mo_next_xmit (msgout s r) \<or> xmit_stops r s1"
    "force \<and> 0 < length (mo_packets (msgout s r)) - mo_next_xmit (msgout s r) \<and>
       mo_next_xmit_offset (msgout s r) < mo_granted (msgout s r) \<longrightarrow> 0 < k" by auto
  then show ?thesis
    using sent_packets_active [of r "\<lambda>m. mo_active_xmits m + 1" s k s1 "\<lambda>m. mo_active_xmits m - 1"]
    by (intro exI [of _ "upd_msgout r (\<lambda>m. m\<lparr>mo_active_xmits := mo_active_xmits m - 1\<rparr>) s1"] exI [of _ k])
      (simp add: homa_xmit_data_def core [of "\<lambda>m. mo_active_xmits m + 1"] core [of "\<lambda>m. mo_active_xmits m - 1"]
        stops [of "\<lambda>m. mo_active_xmits m - 1"])
qed

lemma message_out_fill_result:
  assumes "D \<noteq> []" and "int (length D) \<le> HOMA_MAX_MESSAGE_LENGTH" and "no_faults e" and "quiet r e"
    and "rp_state (ks_rpcs s r) \<noteq> RPC_DEAD"
    and "homa_unsched_priority (ks_homa s) (ks_peers s (rp_peer (ks_rpcs s r))) (int (length D)) \<noteq> None"
    and "L = mtu - hs_ip_header_length (ks_socks s (rp_hsk (ks_rpcs s r))) - sizeof_data_hdr" and "0 < L"
    and "0 < wrap_s32 (segs_per_gso (ks_socks s (rp_hsk (ks_rpcs s r))) (min gso (h_max_gso_size (ks_homa s))) L * L)"
    and "length D < fuel"
  shows "\<exists>s'. homa_message_out_fill fuel e clk mtu gso r D xmit s = Some (None, s') \<and>
    message_cut D L (min (h_unsched_bytes (ks_homa s)) (int (length D))) (int (length D)) (mo_packets (msgout s' r))"
proof -
  let ?len = "int (length D)" and ?u = "min (h_unsched_bytes (ks_homa s)) (int (length D))"
  let ?hsk = "ks_socks s (rp_hsk (ks_rpcs s r))"
  define G where "G = wrap_s32 (segs_per_gso ?hsk (min gso (h_max_gso_size (ks_homa s))) L * L)"
  define s0 where "s0 = homa_message_out_init (clk 0) r ?len s"
  define s1 where "s1 = upd_rpc r (\<lambda>rpc. rpc\<lparr>rp_flags := rp_flags rpc \<union> {RPC_COPYING_FROM_USER}\<rparr>)
      (upd_msgout r (\<lambda>m. m\<lparr>mo_granted := mo_unscheduled m\<rparr>) s0)"
  define fin where "fin = upd_rpc r (\<lambda>rpc. rpc\<lparr>rp_flags := rp_flags rpc - {RPC_COPYING_FROM_USER}\<rparr>)"
  have s0: "mo_length (msgout s0 r) = ?len" "ks_homa s0 = ks_homa s" by (simp_all add: s0_def homa_message_out_init_def)
  have ok1: "out_ok D L ?u ?len r s1"
    using assms(5) by (simp add: out_ok_def s1_def s0_def homa_message_out_init_def message_cut_def min_def)
  have "?len < 2 ^ 31" using assms(2) by (simp add: HOMA_MAX_MESSAGE_LENGTH_def)
  from fill_loop_result [OF assms(3,4,8) _ this _ _ _ ok1, of G fuel clk xmit "?len > 2 * G"]
  obtain s2 where fill: "fill_loop fuel e clk r xmit L G (?len > 2 * G) ?len D s1 = Some (None, s2)"
    and ok2: "out_ok D L ?u 0 r s2" and pr: "prio_core r s2 = prio_core r s1"
    using assms(9,10) by (auto simp: G_def)
  have d: "out_core r (fin s2) = out_core r s2" by (simp add: fin_def out_core_def)
  have cut: "message_cut D L ?u ?len (mo_packets (msgout (fin s2) r))" "mo_length (msgout (fin s2) r) = ?len"
    using ok2 same_core [OF d] by (simp_all add: out_ok_def)
  have run: "homa_message_out_fill fuel e clk mtu gso r D xmit s =
      (if \<not> (?len > 2 * G) \<and> xmit then map_option (Pair None) (homa_xmit_data clk False r (fin s2)) else Some (None, fin s2))"
    unfolding homa_message_out_fill_def Let_def s0_def [symmetric] s0 assms(7) [symmetric] G_def [symmetric] s1_def [symmetric]
      fin_def [symmetric] fill
    using assms(1,2,8) by simp
  have "prio_core r (fin s2) = prio_core r s" using pr core_prio [OF d]
    by (simp add: prio_core_def s1_def s0_def homa_message_out_init_def)
  then have "unsched_ok r (fin s2)"
    using assms(6) cut(2) by (simp add: unsched_ok_def prio_core_def homa_unsched_priority_def fun_eq_iff)
  from xmit_data_result [OF this, of clk False] obtain s3 where
    "homa_xmit_data clk False r (fin s2) = Some s3" "out_core r s3 = out_core r (fin s2)" by blast
  then show ?thesis using run cut(1) same_core(3) [of r s3 "fin s2"] by (cases "\<not> (?len > 2 * G) \<and> xmit") auto
qed

section \<open>Retransmission\<close>

lemma pieces_length: "0 < n \<Longrightarrow> i < length (pieces off n D) \<longleftrightarrow> i * n < length D"
proof (induction off n D arbitrary: i rule: pieces.induct)
  case (1 off n D)
  show ?case
  proof (cases "D = []")
    case False
    then show ?thesis using 1 by (cases i) (simp_all add: pieces_Cons less_diff_conv add.commute)
  qed simp
qed

lemma pieces_nth:
  "0 < n \<Longrightarrow> i * n < length D \<Longrightarrow>
   pieces off n D ! i = \<lparr>sk_offset = off + int (i * n), sk_data = take n (drop (i * n) D), sk_retransmit = False\<rparr>"
proof (induction off n D arbitrary: i rule: pieces.induct)
  case (1 off n D)
  have "D \<noteq> []" using 1(3) by auto
  then show ?case
    using 1 by (cases i) (simp_all add: pieces_Cons less_diff_conv add.commute algebra_simps)
qed

lemma chunks_nth: "0 < n \<Longrightarrow> i < length (chunks n xs) \<Longrightarrow> chunks n xs ! i = take n (drop (i * n) xs)"
proof (induction n xs arbitrary: i rule: chunks.induct)
  case (1 n xs)
  have ne: "xs \<noteq> []" using 1(3) by (auto simp: chunks.simps)
  then have "chunks n xs = take n xs # chunks n (drop n xs)" using 1(2) by (subst chunks.simps) simp
  then show ?case using 1 ne by (cases i) (simp_all add: add.commute)
qed

lemma drop_header: "length h = m \<Longrightarrow> drop m (take (n + m) (drop k (h @ p))) = take n (drop k p)"
proof -
  assume h: "length h = m"
  have "drop m (drop k (h @ p)) = drop k (drop m (h @ p))" by (simp only: drop_drop add.commute)
  then show ?thesis using h by (simp only: drop_take) simp
qed

text \<open>Where the bytes of a segment are in the packet.\<close>

definition aligned :: "nat \<Rightarrow> nat \<Rightarrow> bytes \<Rightarrow> bytes \<Rightarrow> bool" where
  "aligned n step payload d \<longleftrightarrow> (\<forall>i. i * n < length d \<longrightarrow> take n (drop (i * step) payload) = take n (drop (i * n) d))"

lemma packet_aligned:
  assumes "packet_of D L u skb" and "0 < L" and "d = take (nat (os_data_bytes skb)) (drop (nat (os_offset skb)) D)"
  shows "os_gso_segs skb > 1 \<Longrightarrow> aligned (nat L) (nat (os_gso_size skb)) (os_payload skb) d"
    and "os_gso_segs skb \<le> 1 \<Longrightarrow> os_payload skb = d \<and> length d \<le> nat L"
proof -
  have segs: "gso_segments skb = pieces (os_offset skb) (nat L) d" and geo: "geometry L skb" and len: "length d = nat (os_data_bytes skb)" "d \<noteq> []"
    using assms(1) by (auto simp: packet_of_def assms(3))
  have n: "0 < nat L" using assms(2) by simp
  {
    assume "os_gso_segs skb \<le> 1"
    then have one: "pieces (os_offset skb) (nat L) d = [\<lparr>sk_offset = os_offset skb, sk_data = os_payload skb, sk_retransmit = os_retransmit skb\<rparr>]"
      using segs by (simp add: gso_segments_def)
    then have "\<not> 1 * nat L < length d" using pieces_length [OF n, of 1 "os_offset skb" d] by simp
    then show "os_payload skb = d \<and> length d \<le> nat L" using one pieces_one [OF len(2), of "nat L"] by simp
  next
    assume many: "os_gso_segs skb > 1"
    show "aligned (nat L) (nat (os_gso_size skb)) (os_payload skb) d"
      unfolding aligned_def
    proof (intro allI impI)
      fix i assume i: "i * nat L < length d"
      note nth = pieces_nth [OF n i, of "os_offset skb"] and lt = pieces_length [OF n, of i "os_offset skb" d]
      show "take (nat L) (drop (i * nat (os_gso_size skb)) (os_payload skb)) = take (nat L) (drop (i * nat L) d)"
      proof (cases "os_seg_offset skb = -1")
        case True
        then have eq: "pieces (os_offset skb) (nat L) (os_payload skb) = pieces (os_offset skb) (nat L) d" "os_gso_size skb = L"
          using segs geo many by (simp_all add: gso_segments_def geometry_def)
        then have "i * nat L < length (os_payload skb)" using lt i pieces_length [OF n, of i "os_offset skb" "os_payload skb"] by simp
        then show ?thesis using nth pieces_nth [OF n, of i "os_payload skb" "os_offset skb"] eq by simp
      next
        case False
        then have eq: "map parse_chunk (chunks (nat L + 4) (seg_bytes (os_seg_offset skb) @ os_payload skb)) = pieces (os_offset skb) (nat L) d"
            "nat (os_gso_size skb) = nat L + 4"
          using segs geo many assms(2) by (simp_all add: gso_segments_def geometry_def nat_add_distrib)
        then have l: "i < length (chunks (nat L + 4) (seg_bytes (os_seg_offset skb) @ os_payload skb))"
          using lt i by (metis length_map)
        then have "sk_data (pieces (os_offset skb) (nat L) d ! i) =
            drop 4 (take (nat L + 4) (drop (i * (nat L + 4)) (seg_bytes (os_seg_offset skb) @ os_payload skb)))"
          unfolding eq(1) [symmetric] by (simp add: parse_chunk_def chunks_nth)
        also have "\<dots> = take (nat L) (drop (i * (nat L + 4)) (os_payload skb))" by (rule drop_header) simp
        finally show ?thesis using nth eq(2) by simp
      qed
    qed
  }
qed

lemma aligned_step:
  assumes "aligned n step payload d" and "n < length d"
  shows "aligned n step (drop step payload) (drop n d)"
  unfolding aligned_def
proof (intro allI impI)
  fix i assume "i * n < length (drop n d)"
  then have "Suc i * n < length d" using assms(2) by simp
  with assms(1) have "take n (drop (Suc i * step) payload) = take n (drop (Suc i * n) d)" unfolding aligned_def by blast
  then show "take n (drop (i * step) (drop step payload)) = take n (drop (i * n) (drop n d))"
    by (simp add: add.commute)
qed

text \<open>The segments that a retransmission of the bytes from \<open>start\<close> to \<open>end'\<close> has to send.\<close>

definition asked :: "int \<Rightarrow> int \<Rightarrow> data_skb list \<Rightarrow> data_skb list" where
  "asked start end' ps = map (\<lambda>p. p\<lparr>sk_retransmit := True\<rparr>) (filter (\<lambda>p. start < seg_end p \<and> sk_offset p < end') ps)"

lemma asked_simps [simp]:
  "asked start end' [] = []" "asked start end' (ps @ qs) = asked start end' ps @ asked start end' qs"
  by (simp_all add: asked_def)

lemma asked_none: "\<forall>p \<in> set ps. end' \<le> sk_offset p \<Longrightarrow> asked start end' ps = []"
  by (auto simp: asked_def filter_empty_conv)

lemma asked_outside:
  assumes "in_order off D n a b ps" and "end' \<le> a \<or> b \<le> start"
  shows "asked start end' ps = []"
proof -
  have "a \<le> sk_offset p \<and> seg_end p \<le> b" if "p \<in> set ps" for p using assms(1) that unfolding in_order_def by blast
  then show ?thesis using assms(2) by (force simp: asked_def filter_empty_conv)
qed

lemma pieces_offset: "p \<in> set (pieces off n D) \<Longrightarrow> off \<le> sk_offset p"
proof (induction off n D rule: pieces.induct)
  case (1 off n D)
  then show ?case by (cases "D = [] \<or> n = 0") (auto simp: pieces.simps [of off n D])
qed

text \<open>A retransmission changes the log and the estimate of the NIC queue only.\<close>

definition resends :: "rpc_ptr \<Rightarrow> int \<Rightarrow> data_skb list \<Rightarrow> kstate \<Rightarrow> kstate \<Rightarrow> bool" where
  "resends r prio ps s s' \<longleftrightarrow> ks_rpcs s' = ks_rpcs s \<and> ks_peers s' = ks_peers s \<and> ks_socks s' = ks_socks s \<and>
     (\<exists>qs. ks_xmits s' = ks_xmits s @ map (\<lambda>q. data_entry s r q prio) qs \<and> concat (map gso_segments qs) = ps)"

lemma resends_none: "resends r prio [] s s"
  by (simp add: resends_def)

lemma resends_trans:
  assumes "resends r prio ps s s1" and "resends r prio qs s1 s2"
  shows "resends r prio (ps @ qs) s s2"
proof -
  obtain p where p: "ks_xmits s1 = ks_xmits s @ map (\<lambda>q. data_entry s r q prio) p" "concat (map gso_segments p) = ps"
    using assms(1) by (auto simp: resends_def)
  obtain q where q: "ks_xmits s2 = ks_xmits s1 @ map (\<lambda>q. data_entry s1 r q prio) q" "concat (map gso_segments q) = qs"
    using assms(2) by (auto simp: resends_def)
  have "data_entry s1 r = data_entry s r" using assms(1) by (simp add: resends_def data_entry_def fun_eq_iff Let_def)
  then show ?thesis
    using assms p q unfolding resends_def by (intro conjI exI [of _ "p @ q"]) simp_all
qed

lemma resend_segment_sends:
  assumes "seg_offset = sizeof_data_hdr + int k"
  shows "resends r prio [\<lparr>sk_offset = offset, sk_data = take (nat len) (drop k (os_payload skb)), sk_retransmit = True\<rparr>] s
    (resend_segment clock r skb offset seg_offset len prio s)"
proof -
  define q where "q = skb\<lparr>os_seg_offset := offset, os_retransmit := True,
      os_incoming := (if offset + len \<le> mo_granted (msgout s r) then mo_granted (msgout s r)
                      else if offset + len > mo_length (msgout s r) then mo_length (msgout s r) else offset + len),
      os_payload := take (nat len) (drop k (os_payload skb)),
      os_wire_bytes := hs_ip_header_length (ks_socks s (rp_hsk (ks_rpcs s r))) + sizeof_data_hdr + len + int HOMA_ETH_OVERHEAD,
      os_data_bytes := len, os_seg_length := len, os_offset := offset, os_gso_segs := 0, os_gso_size := 0\<rparr>"
  obtain go s1 where nic: "homa_check_nic_queue clock q True s = (go, s1)" by fastforce
  note sel = check_nic_queue_sel [OF nic]
  have k: "nat (seg_offset - sizeof_data_hdr) = k" using assms by simp
  have eq: "resend_segment clock r skb offset seg_offset len prio s = xmit_data_to q r prio s1"
    unfolding resend_segment_def Let_def k q_def [symmetric] nic by simp
  have "data_entry s1 r = data_entry s r" by (simp add: data_entry_def fun_eq_iff Let_def sel)
  then show ?thesis
    unfolding resends_def eq xmit_data_to_eq using sel
    by (intro conjI exI [of _ "[q]"]) (simp_all add: gso_segments_def q_def)
qed

lemma resend_segs_result:
  assumes "\<forall>off. mem off" and "0 < n" and "aligned n (nat (os_gso_size skb)) (drop k (os_payload skb)) d"
    and "seg_length = int n" and "seg_offset = sizeof_data_hdr + int k" and "0 \<le> os_gso_size skb \<or> length d \<le> n" and "length d < fuel"
  shows "\<exists>ok s'. resend_segs fuel mem clk r skb start end' prio (int (length d)) offset seg_offset seg_length s = Some (ok, s') \<and>
    resends r prio (asked start end' (pieces offset n d)) s s' \<and> (\<not> ok \<longrightarrow> end' < offset + int (length d))"
  using assms(3-7)
proof (induction fuel arbitrary: d k offset seg_offset seg_length s)
  case (Suc fuel)
  show ?case
  proof (cases "d = []")
    case True
    then show ?thesis using resends_none by (intro exI [of _ True] exI [of _ s]) simp
  next
    case ne: False
    define len where "len = min (int n) (int (length d))"
    have len: "(if seg_length > int (length d) then int (length d) else seg_length) = len" "0 < len" "nat len = min n (length d)"
      using ne assms(2) Suc.prems(2) by (auto simp: len_def)
    define p where "p = \<lparr>sk_offset = offset, sk_data = take n d, sk_retransmit = False\<rparr>"
    have ps: "pieces offset n d = p # pieces (offset + int n) n (drop n d)"
      using ne assms(2) by (simp add: pieces_Cons p_def)
    have p: "sk_offset p = offset" "seg_end p = offset + len" by (simp_all add: p_def homa_data_len_def len_def)
    have "take n (drop (0 * nat (os_gso_size skb)) (drop k (os_payload skb))) = take n (drop (0 * n) d)"
      using Suc.prems(1) ne unfolding aligned_def by (metis length_greater_0_conv mult_0)
    then have dat: "take (nat len) (drop k (os_payload skb)) = take n d"
      by (simp add: len(3)) (metis min.commute take_take take_all_iff min_def order_refl)
    let ?rest = "resend_segs fuel mem clk r skb start end' prio (int (length d) - len) (offset + len) (seg_offset + os_gso_size skb) len"
    have rest: "\<exists>ok s'. ?rest s1 = Some (ok, s') \<and>
        resends r prio (asked start end' (pieces (offset + int n) n (drop n d))) s1 s' \<and> (\<not> ok \<longrightarrow> end' < offset + int (length d))" for s1
    proof (cases "n < length d")
      case True
      then have g: "0 \<le> os_gso_size skb" "len = int n" using Suc.prems(4) by (simp_all add: len_def)
      have al: "aligned n (nat (os_gso_size skb)) (drop (k + nat (os_gso_size skb)) (os_payload skb)) (drop n d)"
        using aligned_step [OF Suc.prems(1) True] by (simp add: add.commute)
      have so: "seg_offset + os_gso_size skb = sizeof_data_hdr + int (k + nat (os_gso_size skb))" using g Suc.prems(3) by simp
      have "length (drop n d) < fuel" using Suc.prems(5) True assms(2) by simp
      from Suc.IH [OF al g(2) so _ this, of "offset + int n" s1] g show ?thesis using True by (simp add: of_nat_diff)
    next
      case False
      then show ?thesis
        using Suc.prems(5) ne resends_none by (intro exI [of _ True] exI [of _ s1]) (cases fuel; simp add: len_def)
    qed
    show ?thesis
    proof (cases "end' \<le> offset")
      case True
      then have "asked start end' (pieces offset n d) = []" using pieces_offset [of _ offset n d] by (intro asked_none) fastforce
      moreover have "0 < length d" using ne by simp
      then have "end' < offset + int (length d)" using True by linarith
      ultimately show ?thesis using True ne resends_none by (intro exI [of _ False] exI [of _ s]) (simp add: Let_def)
    next
      case e: False
      show ?thesis
      proof (cases "offset + len \<le> start")
        case True
        have "asked start end' (pieces offset n d) = asked start end' (pieces (offset + int n) n (drop n d))"
          using True p by (simp add: ps asked_def)
        then show ?thesis using rest [of s] ne e True by (simp add: Let_def len)
      next
        case False
        let ?s = "resend_segment (clk offset) r skb offset seg_offset len prio s"
        have one: "resends r prio [p\<lparr>sk_retransmit := True\<rparr>] s ?s"
          using resend_segment_sends [OF Suc.prems(3), of r prio offset len skb s "clk offset"] dat by (simp add: p_def)
        have "asked start end' (pieces offset n d) =
            [p\<lparr>sk_retransmit := True\<rparr>] @ asked start end' (pieces (offset + int n) n (drop n d))"
          using False e p by (simp add: ps asked_def)
        moreover obtain ok s' where "?rest ?s = Some (ok, s')"
            and two: "resends r prio (asked start end' (pieces (offset + int n) n (drop n d))) ?s s'" and "\<not> ok \<longrightarrow> end' < offset + int (length d)"
          using rest [of ?s] by blast
        moreover have "resend_segs (Suc fuel) mem clk r skb start end' prio (int (length d)) offset seg_offset seg_length s = ?rest ?s"
          using ne e False assms(1) by (simp add: Let_def len)
        ultimately show ?thesis using resends_trans [OF one two] by (simp only: option.inject prod.inject simp_thms) blast
      qed
    qed
  qed
qed simp

lemma resend_packets_result:
  assumes "\<forall>off. mem off" and "0 < L" and "length D < fuel" and "tiles a ps b" and "\<forall>p \<in> set ps. packet_of D L u p"
  shows "\<exists>s'. resend_packets fuel mem clk r start end' prio ps s = Some s' \<and>
    resends r prio (asked start end' (concat (map gso_segments ps))) s s'"
  using assms(4,5)
proof (induction ps arbitrary: a s)
  case Nil
  then show ?case using resends_none by simp
next
  case (Cons p ps)
  have p: "packet_of D L u p" "os_offset p = a" "tiles (a + os_data_bytes p) ps b" "0 < os_data_bytes p" "\<forall>p \<in> set ps. packet_of D L u p"
    using Cons.prems by (simp_all add: packet_of_def)
  define d where "d = take (nat (os_data_bytes p)) (drop (nat (os_offset p)) D)"
  have d: "int (length d) = os_data_bytes p" "length d < fuel" "gso_segments p = pieces a (nat L) d"
    using p(1,2) assms(3) by (auto simp: packet_of_def d_def)
  have rest: "in_order 0 D (nat L) (a + os_data_bytes p) b (concat (map gso_segments ps))"
    by (rule cut_in_order [OF p(3,5) assms(2)])
  have whole: "in_order 0 D (nat L) a b (concat (map gso_segments (p # ps)))" by (rule cut_in_order [OF Cons.prems assms(2)])
  have behind: "asked start end' (concat (map gso_segments ps)) = []" if "end' \<le> a + os_data_bytes p"
    using asked_outside [OF rest] that by simp
  show ?case
  proof (cases "os_offset p \<ge> end'")
    case True
    then have "asked start end' (concat (map gso_segments (p # ps))) = []"
      using asked_outside [OF whole] p(2) by simp
    then show ?thesis using True resends_none by simp
  next
    case before: False
    show ?thesis
    proof (cases "start \<ge> os_offset p + os_data_bytes p")
      case True
      have "in_order 0 D (nat L) a (a + os_data_bytes p) (concat (map gso_segments [p]))"
        using p(1,2) by (intro cut_in_order [OF _ _ assms(2), of _ _ _ _ u]) simp_all
      then have "asked start end' (gso_segments p) = []" using asked_outside [of 0 D "nat L"] True p(2) by simp
      then show ?thesis using True before Cons.IH [OF p(3,5), of s] by simp
    next
      case False
      define l where "l = (if os_gso_segs p \<le> 1 then os_data_bytes p else os_seg_length p)"
      obtain n where n: "0 < n" "l = int n" "aligned n (nat (os_gso_size p)) (drop 0 (os_payload p)) d"
          "0 \<le> os_gso_size p \<or> length d \<le> n" "gso_segments p = pieces a n d"
      proof (cases "os_gso_segs p \<le> 1")
        case True
        then have one: "os_payload p = d" "length d \<le> nat L" using packet_aligned(2) [OF p(1) assms(2) d_def] by simp_all
        have pos: "0 < length d" using d(1) p(4) by linarith
        then have "pieces a (nat L) d = pieces a (length d) d" using one(2) by (subst (1 2) pieces_one) auto
        then show ?thesis using that [of "length d"] one d(1,3) pos True by (auto simp: l_def aligned_def)
      next
        case False
        then have "os_seg_length p = L" "0 \<le> os_gso_size p" using p(1) assms(2) by (auto simp: packet_of_def geometry_def)
        then show ?thesis using that [of "nat L"] False assms(2) packet_aligned(1) [OF p(1) assms(2) d_def] d(3) by (simp add: l_def)
      qed
      obtain ok s1 where segs: "resend_segs fuel mem clk r p start end' prio (os_data_bytes p) (os_offset p) sizeof_data_hdr l s = Some (ok, s1)"
        "resends r prio (asked start end' (gso_segments p)) s s1" "ok \<or> end' < a + os_data_bytes p"
        using resend_segs_result [OF assms(1) n(1,3,2) _ n(4) d(2), of sizeof_data_hdr clk r start end' prio a s] d(1) p(2) n(5) by auto
      show ?thesis
      proof (cases ok)
        case True
        obtain s2 where "resend_packets fuel mem clk r start end' prio ps s1 = Some s2"
            "resends r prio (asked start end' (concat (map gso_segments ps))) s1 s2" using Cons.IH [OF p(3,5), of s1] by blast
        then show ?thesis
          using segs before False True resends_trans [OF segs(2)] by (simp add: Let_def l_def [symmetric])
      next
        case notok: False
        then show ?thesis using segs before False behind by (simp add: Let_def l_def [symmetric])
      qed
    qed
  qed
qed

section \<open>The throttled list and the pacer\<close>

definition fewer_left :: "kstate \<Rightarrow> rpc_ptr \<Rightarrow> rpc_ptr \<Rightarrow> bool" where
  "fewer_left s a b \<longleftrightarrow> xmit_left s a < xmit_left s b"

interpretation throttle_rank: rank_order "fewer_left s" for s
  unfolding fewer_left_def by (rule rank_order_key)

abbreviation throttled :: "kstate \<Rightarrow> rpc_ptr list" where
  "throttled s \<equiv> h_throttled_rpcs (ks_homa s)"

lemma add_to_throttled_ranked:
  assumes "ranked (fewer_left s) (throttled s)"
  shows "ranked (fewer_left s) (throttled (homa_add_to_throttled now r s))"
proof -
  have "fewer_left s r = (\<lambda>c. xmit_left s c > xmit_left s r)" by (simp add: fewer_left_def fun_eq_iff)
  then show ?thesis using assms throttle_rank.insert_ranked [OF assms, of r] by (simp add: homa_add_to_throttled_def)
qed

lemma oldest_throttled_least:
  assumes "oldest_throttled s rs best = Some r"
  shows "r \<in> set rs \<or> best = Some r" and "x \<in> set rs \<or> best = Some x \<Longrightarrow> mo_init_ns (msgout s r) \<le> mo_init_ns (msgout s x)"
proof -
  have "(r \<in> set rs \<or> best = Some r) \<and> (\<forall>x. x \<in> set rs \<or> best = Some x \<longrightarrow> mo_init_ns (msgout s r) \<le> mo_init_ns (msgout s x))"
    using assms
  proof (induction rs arbitrary: best)
    case (Cons a rs)
    show ?case
    proof (cases best)
      case None
      then show ?thesis using Cons.IH [of "Some a"] Cons.prems by auto
    next
      case (Some b)
      show ?thesis
      proof (cases "mo_init_ns (msgout s a) < mo_init_ns (msgout s b)")
        case True
        then have "oldest_throttled s rs (Some a) = Some r" using Cons.prems Some by simp
        from Cons.IH [OF this] show ?thesis using True Some by fastforce
      next
        case False
        then have "oldest_throttled s rs (Some b) = Some r" using Cons.prems Some by simp
        from Cons.IH [OF this] show ?thesis using False Some by fastforce
      qed
    qed
  qed simp
  then show "r \<in> set rs \<or> best = Some r" "x \<in> set rs \<or> best = Some x \<Longrightarrow> mo_init_ns (msgout s r) \<le> mo_init_ns (msgout s x)"
    by blast+
qed

lemma oldest_throttled_some: "best \<noteq> None \<or> rs \<noteq> [] \<Longrightarrow> oldest_throttled s rs best \<noteq> None"
  by (induction rs arbitrary: best) (auto split: option.splits)

text \<open>What the pacer picks: with a FIFO share, the RPC whose message is oldest, otherwise the one with the fewest bytes left.\<close>

lemma pacer_choose_best:
  assumes "pacer_choose s = (choice, s')" and "ranked (fewer_left s) (throttled s)"
  shows "choice = None \<longleftrightarrow> throttled s = []" and "throttled s' = throttled s" "ks_rpcs s' = ks_rpcs s"
    and "choice = Some r \<Longrightarrow> r \<in> set (throttled s) \<and>
      (if h_pacer_fifo_count (ks_homa s) \<le> h_pacer_fifo_fraction (ks_homa s)
       then \<forall>x \<in> set (throttled s). mo_init_ns (msgout s r) \<le> mo_init_ns (msgout s x)
       else \<forall>x \<in> set (throttled s). xmit_left s r \<le> xmit_left s x)"
proof -
  show "choice = None \<longleftrightarrow> throttled s = []"
    using assms(1) oldest_throttled_some [of None "throttled s" s]
    by (cases "throttled s") (auto simp: pacer_choose_def Let_def split: if_splits simp del: oldest_throttled.simps(2) not_None_eq)
  show "throttled s' = throttled s" "ks_rpcs s' = ks_rpcs s"
    using assms(1) by (auto simp: pacer_choose_def Let_def split: if_splits)
  assume r: "choice = Some r"
  show "r \<in> set (throttled s) \<and>
      (if h_pacer_fifo_count (ks_homa s) \<le> h_pacer_fifo_fraction (ks_homa s)
       then \<forall>x \<in> set (throttled s). mo_init_ns (msgout s r) \<le> mo_init_ns (msgout s x)
       else \<forall>x \<in> set (throttled s). xmit_left s r \<le> xmit_left s x)"
  proof (cases "h_pacer_fifo_count (ks_homa s) \<le> h_pacer_fifo_fraction (ks_homa s)")
    case True
    then have "oldest_throttled s (throttled s) None = Some r" using assms(1) r by (simp add: pacer_choose_def Let_def)
    from oldest_throttled_least [OF this] show ?thesis using True by auto
  next
    case False
    then obtain rs where rs: "throttled s = r # rs"
      using assms(1) r by (auto simp: pacer_choose_def Let_def split: list.splits)
    have "xmit_left s r \<le> xmit_left s x" if "x \<in> set (throttled s)" for x
      using throttle_rank.ranked_hd_best [OF assms(2) that] rs by (simp add: fewer_left_def)
    then show ?thesis using False rs by simp
  qed
qed

section \<open>Properties of the sender\<close>

text \<open>
  C5: For a message of legal length \<open>homa_message_out_fill\<close> succeeds (when no allocation and no copy fails and the
  route leaves room for data) and the RPC then holds packets that follow each other from byte 0 to the end of the message;
  none of them mixes unscheduled and scheduled bytes; what segmentation makes of them are non-empty segments of at most
  \<open>max_seg_data\<close> bytes, in order, each with exactly the bytes of user space at its offset, and together they cover
  the message.
\<close>

theorem homa_message_out_fill_covers:
  assumes "D \<noteq> []" and "int (length D) \<le> HOMA_MAX_MESSAGE_LENGTH" and "no_faults e" and "quiet r e"
    and "rp_state (ks_rpcs s r) \<noteq> RPC_DEAD"
    and "homa_unsched_priority (ks_homa s) (ks_peers s (rp_peer (ks_rpcs s r))) (int (length D)) \<noteq> None"
    and "L = mtu - hs_ip_header_length (ks_socks s (rp_hsk (ks_rpcs s r))) - sizeof_data_hdr" and "0 < L"
    and "0 < wrap_s32 (segs_per_gso (ks_socks s (rp_hsk (ks_rpcs s r))) (min gso (h_max_gso_size (ks_homa s))) L * L)"
    and "length D < fuel"
  shows "\<exists>s'. homa_message_out_fill fuel e clk mtu gso r D xmit s = Some (None, s') \<and>
    tiles 0 (mo_packets (msgout s' r)) (int (length D)) \<and>
    (\<forall>skb \<in> set (mo_packets (msgout s' r)). 0 < os_data_bytes skb \<and>
       \<not> (os_offset skb < h_unsched_bytes (ks_homa s) \<and> h_unsched_bytes (ks_homa s) < os_offset skb + os_data_bytes skb)) \<and>
    in_order 0 D (nat L) 0 (int (length D)) (concat (map gso_segments (mo_packets (msgout s' r))))"
proof -
  obtain s' where s': "homa_message_out_fill fuel e clk mtu gso r D xmit s = Some (None, s')"
    "message_cut D L (min (h_unsched_bytes (ks_homa s)) (int (length D))) (int (length D)) (mo_packets (msgout s' r))"
    using message_out_fill_result [OF assms] by blast
  have "0 < os_data_bytes skb \<and>
       \<not> (os_offset skb < h_unsched_bytes (ks_homa s) \<and> h_unsched_bytes (ks_homa s) < os_offset skb + os_data_bytes skb)"
    if "skb \<in> set (mo_packets (msgout s' r))" for skb
  proof -
    have "packet_of D L (min (h_unsched_bytes (ks_homa s)) (int (length D))) skb" using s'(2) that by (simp add: message_cut_def)
    then show ?thesis by (auto simp: packet_of_def)
  qed
  moreover have "in_order 0 D (nat L) 0 (int (length D)) (concat (map gso_segments (mo_packets (msgout s' r))))"
    using s'(2) cut_in_order assms(8) by (auto simp: message_cut_def)
  ultimately show ?thesis using s' by (auto simp: message_cut_def)
qed

definition out_example :: kstate where
  "out_example = kstate_zero\<lparr>ks_homa := homa_zero\<lparr>h_num_priorities := 8, h_unsched_bytes := 5, h_max_gso_size := 100\<rparr>,
     ks_peers := (\<lambda>_. peer_zero\<lparr>pe_unsched_cutoffs := [100, 0, 0, 0, 0, 0, 0, 0]\<rparr>)\<rparr>"

definition out_env :: fill_env where
  "out_env = \<lparr>fe_skb_mem = (\<lambda>_. True), fe_hdr_mem = (\<lambda>_. True), fe_fault = (\<lambda>_. None), fe_other = (\<lambda>_ s. s)\<rparr>"

lemma out_example_sends:
  fixes D :: bytes defines "D \<equiv> [1, 2, 3, 4, 5, 6, 7, 8, 9]"
  shows "D \<noteq> []" "int (length D) \<le> HOMA_MAX_MESSAGE_LENGTH" "no_faults out_env" "quiet 7 out_env"
    "rp_state (ks_rpcs out_example 7) \<noteq> RPC_DEAD"
    "homa_unsched_priority (ks_homa out_example) (ks_peers out_example (rp_peer (ks_rpcs out_example 7))) (int (length D)) \<noteq> None"
    "4 = 60 - hs_ip_header_length (ks_socks out_example (rp_hsk (ks_rpcs out_example 7))) - sizeof_data_hdr" "(0 :: int) < 4"
    "0 < wrap_s32 (segs_per_gso (ks_socks out_example (rp_hsk (ks_rpcs out_example 7))) (min 1000 (h_max_gso_size (ks_homa out_example))) 4 * 4)"
    "length D < 20"
proof -
  have out: "hs_ip_header_length (ks_socks out_example k) = 0" "\<not> hs_is_tcp (ks_socks out_example k)"
    "h_max_gso_size (ks_homa out_example) = 100" for k
    by (simp_all add: out_example_def zero_defs)
  have "wrap_s32 (segs_per_gso (ks_socks out_example k) 100 4 * 4) = 24" for k
    using wrap_s32_id [of 24] out by (simp add: segs_per_gso_def)
  then show "0 < wrap_s32 (segs_per_gso (ks_socks out_example (rp_hsk (ks_rpcs out_example 7))) (min 1000 (h_max_gso_size (ks_homa out_example))) 4 * 4)"
    by (simp add: out)
  show "4 = 60 - hs_ip_header_length (ks_socks out_example (rp_hsk (ks_rpcs out_example 7))) - sizeof_data_hdr" by (simp add: out)
  show "homa_unsched_priority (ks_homa out_example) (ks_peers out_example (rp_peer (ks_rpcs out_example 7))) (int (length D)) \<noteq> None"
    by (simp add: eval_nat_numeral out_example_def zero_defs homa_unsched_priority_def D_def)
qed (simp_all add: out_example_def zero_defs out_env_def no_faults_def quiet_def HOMA_MAX_MESSAGE_LENGTH_def D_def)

theorem homa_message_out_fill_covers_witness:
  "\<exists>s'. homa_message_out_fill 20 out_env (\<lambda>_. 3) 60 1000 7 [1, 2, 3, 4, 5, 6, 7, 8, 9] True out_example = Some (None, s') \<and>
    in_order 0 [1, 2, 3, 4, 5, 6, 7, 8, 9] 4 0 9 (concat (map gso_segments (mo_packets (msgout s' 7))))"
  using homa_message_out_fill_covers [OF out_example_sends, of "\<lambda>_. 3" True] by auto

lemma out_example_fills:
  assumes "homa_message_out_fill 20 out_env (\<lambda>_. 3) 60 1000 7 [1, 2, 3, 4, 5, 6, 7, 8, 9] True out_example = Some (None, s')"
  shows "in_order 0 [1, 2, 3, 4, 5, 6, 7, 8, 9] 4 0 9 (concat (map gso_segments (mo_packets (msgout s' 7))))"
proof -
  from message_out_fill_result [OF out_example_sends, of "\<lambda>_. 3" True] assms
  have cut: "message_cut [1, 2, 3, 4, 5, 6, 7, 8, 9] 4 (min (h_unsched_bytes (ks_homa out_example)) 9) 9 (mo_packets (msgout s' 7))" by auto
  have "in_order 0 [1, 2, 3, 4, 5, 6, 7, 8, 9] (nat 4) 0 9 (concat (map gso_segments (mo_packets (msgout s' 7))))"
    by (rule cut_in_order [where L = 4]) (use cut in \<open>auto simp: message_cut_def\<close>)
  then show ?thesis by simp
qed

text \<open>
  C8: \<open>homa_xmit_data\<close> hands over a run of packets from \<open>next_xmit\<close> on, in the order of the message and each exactly once;
  every one of them starts at an offset that is granted; the position advances by what was sent.  It stops only when no packet
  is left, when the next byte is not granted, when the RPC has been put on the throttled list, or when it is dead;
  and with \<open>force\<close> it sends a packet if any granted one is left.
\<close>

theorem homa_xmit_data_in_order:
  assumes "homa_unsched_priority (ks_homa s) (ks_peers s (rp_peer (ks_rpcs s r))) (mo_length (msgout s r)) \<noteq> None"
    and "n = length (mo_packets (msgout s r)) - mo_next_xmit (msgout s r)"
  shows "\<exists>s' k prios. homa_xmit_data clk force r s = Some s' \<and> k \<le> n \<and> length prios = k \<and>
    ks_xmits s' = ks_xmits s @ map2 (data_entry s r) (next_packets s r k) prios \<and>
    (\<forall>i < k. mo_next_xmit_offset (msgout s r) + data_sum (next_packets s r i) < mo_granted (msgout s r)) \<and>
    mo_next_xmit (msgout s' r) = mo_next_xmit (msgout s r) + k \<and>
    mo_next_xmit_offset (msgout s' r) = mo_next_xmit_offset (msgout s r) + data_sum (next_packets s r k) \<and>
    (k = n \<or> mo_next_xmit_offset (msgout s' r) \<ge> mo_granted (msgout s r) \<or>
       r \<in> set (h_throttled_rpcs (ks_homa s')) \<or> rp_state (ks_rpcs s' r) = RPC_DEAD) \<and>
    (force \<and> 0 < n \<and> mo_next_xmit_offset (msgout s r) < mo_granted (msgout s r) \<longrightarrow> 0 < k)"
proof -
  obtain s' k where s': "homa_xmit_data clk force r s = Some s'" "k \<le> n" "sent_packets r s k s'"
    "k = n \<or> xmit_stops r s'"
    "force \<and> mo_next_xmit (msgout s r) < length (mo_packets (msgout s r)) \<and> mo_next_xmit_offset (msgout s r) < mo_granted (msgout s r) \<longrightarrow> 0 < k"
    using xmit_data_result [of r s clk force] assms by (auto simp: unsched_ok_def)
  then obtain prios where "length prios = k" "ks_xmits s' = ks_xmits s @ map2 (data_entry s r) (next_packets s r k) prios"
    by (auto simp: sent_packets_def)
  then show ?thesis
    using s' assms(2) by (intro exI [of _ s'] exI [of _ k] exI [of _ prios]) (auto simp: sent_packets_def xmit_stops_def)
qed

definition xmit_example :: kstate where
  "xmit_example = out_example\<lparr>ks_rpcs := (\<lambda>_. rpc_zero)(7 := rpc_zero\<lparr>rp_msgout := message_out_zero\<lparr>
     mo_length := 9, mo_granted := 5,
     mo_packets := [new_data_header rpc_zero sock_zero [] 0 0 5 4, new_data_header rpc_zero sock_zero [] 0 5 4 4]\<rparr>\<rparr>)\<rparr>"

theorem homa_xmit_data_in_order_witness:
  "\<exists>s' k prios. homa_xmit_data (\<lambda>_. 3) True 7 xmit_example = Some s' \<and> 0 < k \<and> k \<le> 2 \<and> length prios = k \<and>
    ks_xmits s' = map2 (data_entry xmit_example 7) (take k (mo_packets (msgout xmit_example 7))) prios"
proof -
  have "unsched_loop [100, 0, 0, 0, 0, 0, 0, 0] 9 8 \<noteq> None" by (simp add: eval_nat_numeral)
  then obtain s' k prios where "homa_xmit_data (\<lambda>_. 3) True 7 xmit_example = Some s'" "k \<le> 2" "length prios = k"
      "ks_xmits s' = map2 (data_entry xmit_example 7) (take k (mo_packets (msgout xmit_example 7))) prios" "0 < k"
    using homa_xmit_data_in_order [of xmit_example 7 2 "\<lambda>_. 3" True]
    by (auto simp: xmit_example_def out_example_def zero_defs homa_unsched_priority_def)
  then show ?thesis by blast
qed

text \<open>
  C17: \<open>homa_resend_data\<close> sends again exactly the segments of the message that overlap the bytes asked for, in order, each with the
  bytes and the offset it had and marked as a retransmission (when no allocation fails); nothing else of the RPCs, sockets and peers
  changes.
\<close>

theorem homa_resend_data_resends:
  assumes "tiles 0 (mo_packets (msgout s r)) b" and "\<forall>skb \<in> set (mo_packets (msgout s r)). packet_of D L u skb" and "0 < L"
    and "\<forall>off. mem off" and "length D < fuel" and "start < end'"
  shows "\<exists>s' skbs. homa_resend_data fuel mem clk r start end' prio s = Some s' \<and>
    ks_xmits s' = ks_xmits s @ map (\<lambda>skb. data_entry s r skb prio) skbs \<and>
    concat (map gso_segments skbs) = asked start end' (concat (map gso_segments (mo_packets (msgout s r)))) \<and>
    ks_rpcs s' = ks_rpcs s \<and> ks_peers s' = ks_peers s \<and> ks_socks s' = ks_socks s"
  using resend_packets_result [OF assms(4,3,5,1,2), of clk r start end' prio s] assms(6)
  by (auto simp: homa_resend_data_def resends_def)

definition resend_example :: kstate where
  "resend_example = out_example\<lparr>ks_rpcs := (\<lambda>_. rpc_zero)(7 := rpc_zero\<lparr>rp_msgout := message_out_zero\<lparr>mo_length := 9, mo_granted := 9,
     mo_packets := [(new_data_header rpc_zero sock_zero [] 0 0 4 4)\<lparr>os_payload := [1, 2, 3, 4]\<rparr>,
       (new_data_header rpc_zero sock_zero [] 0 4 4 4)\<lparr>os_payload := [5, 6, 7, 8]\<rparr>,
       (new_data_header rpc_zero sock_zero [] 0 8 1 4)\<lparr>os_payload := [9]\<rparr>]\<rparr>\<rparr>)\<rparr>"

theorem homa_resend_data_resends_witness:
  "\<exists>s' skbs. homa_resend_data 10 (\<lambda>_. True) (\<lambda>_. 3) 7 3 5 2 resend_example = Some s' \<and>
    ks_xmits s' = map (\<lambda>skb. data_entry resend_example 7 skb 2) skbs \<and>
    concat (map gso_segments skbs) = [\<lparr>sk_offset = 0, sk_data = [1, 2, 3, 4], sk_retransmit = True\<rparr>,
      \<lparr>sk_offset = 4, sk_data = [5, 6, 7, 8], sk_retransmit = True\<rparr>]"
proof -
  let ?D = "[1, 2, 3, 4, 5, 6, 7, 8, 9] :: bytes"
  have ps: "mo_packets (msgout resend_example 7) = [(new_data_header rpc_zero sock_zero [] 0 0 4 4)\<lparr>os_payload := [1, 2, 3, 4]\<rparr>,
       (new_data_header rpc_zero sock_zero [] 0 4 4 4)\<lparr>os_payload := [5, 6, 7, 8]\<rparr>,
       (new_data_header rpc_zero sock_zero [] 0 8 1 4)\<lparr>os_payload := [9]\<rparr>]" "ks_xmits resend_example = []"
    by (simp_all add: resend_example_def out_example_def kstate_zero_def)
  have pk: "\<forall>skb \<in> set (mo_packets (msgout resend_example 7)). packet_of ?D 4 0 skb"
    by (simp add: ps packet_of_def new_data_header_def gso_segments_def geometry_def pieces_one sock_zero_def)
  have "tiles 0 (mo_packets (msgout resend_example 7)) 9" by (simp add: ps new_data_header_def)
  from homa_resend_data_resends [OF this pk, of "\<lambda>_. True" 10 3 5 "\<lambda>_. 3" 2] show ?thesis
    by (simp add: ps asked_def new_data_header_def gso_segments_def homa_data_len_def) blast
qed


end
