(* ===== verification/Homa_Handoff.thy ===== *)
theory Homa_Handoff
imports Homa_Sock Homa_Table Homa_Wire
begin

text \<open>
  Handing ready RPCs to threads: \<open>struct homa_interest\<close> of \<open>homa_impl.h\<close>, \<open>homa_choose_interest\<close>,
  \<open>homa_rpc_handoff\<close> and \<open>homa_register_interests\<close> of \<open>homa_incoming.c\<close>, and \<open>homa_find_client_rpc\<close> of
  \<open>homa_rpc.c\<close>, which the latter uses.

  An interest lives on the stack of the thread that waits.  A link field with the value \<open>LIST_POISON1\<close> is
  non-membership in the list of the socket.  The notification of \<open>poll\<close> (\<open>sk_data_ready\<close>) goes to the socket
  layer and is left out.
\<close>

section \<open>Operations\<close>

abbreviation "req_ints s k \<equiv> hs_request_interests (ks_socks s k)"
abbreviation "resp_ints s k \<equiv> hs_response_interests (ks_socks s k)"
abbreviation "ready_reqs s k \<equiv> hs_ready_requests (ks_socks s k)"
abbreviation "ready_resps s k \<equiv> hs_ready_responses (ks_socks s k)"
abbreviation "interest s i \<equiv> ks_interests s i"

definition homa_interest_init :: "nat \<Rightarrow> nat \<Rightarrow> homa_interest" where
  "homa_interest_init thread core =
     \<lparr>in_thread = thread, in_ready_rpc = None, in_locked = False, in_core = core, in_reg_rpc = None\<rparr>"

text \<open>
  \<open>active\<close> is the time at which a core last did transport work, \<open>busy_time\<close> the time before which that counts
  as idle.
\<close>

primrec choose_from :: "(nat \<Rightarrow> nat) \<Rightarrow> nat \<Rightarrow> kstate \<Rightarrow> interest_ptr option \<Rightarrow> interest_ptr list \<Rightarrow> interest_ptr option" where
  "choose_from active busy_time s backup [] = backup"
| "choose_from active busy_time s backup (i # is) =
     (if active (in_core (interest s i)) < busy_time then Some i
      else choose_from active busy_time s (if backup = None then Some i else backup) is)"

definition homa_choose_interest :: "(nat \<Rightarrow> nat) \<Rightarrow> nat \<Rightarrow> kstate \<Rightarrow> interest_ptr list \<Rightarrow> interest_ptr option" where
  "homa_choose_interest active busy_time s head = choose_from active busy_time s None head"

text \<open>The code at the label \<open>thread_waiting\<close>.\<close>

definition thread_waiting :: "interest_ptr \<Rightarrow> rpc_ptr \<Rightarrow> kstate \<Rightarrow> kstate" where
  "thread_waiting i r s =
     (let k = rp_hsk (ks_rpcs s r);
          s = upd_rpc r (\<lambda>rpc. rpc\<lparr>rp_flags := rp_flags rpc \<union> {RPC_HANDING_OFF}\<rparr>) s;
          s = upd_interest i (\<lambda>n. n\<lparr>in_locked := False, in_ready_rpc := Some r\<rparr>) s;
          s = (case in_reg_rpc (interest s i) of
                 None \<Rightarrow> s
               | Some q \<Rightarrow> upd_interest i (\<lambda>n. n\<lparr>in_reg_rpc := None\<rparr>) (upd_rpc q (\<lambda>rpc. rpc\<lparr>rp_interest := None\<rparr>) s));
          s = upd_sock k (\<lambda>h. h\<lparr>hs_request_interests := remove1 i (hs_request_interests h),
                 hs_response_interests := remove1 i (hs_response_interests h)\<rparr>) s
      in s\<lparr>ks_wakeups := ks_wakeups s @ [in_thread (interest s i)]\<rparr>)"

text \<open>
  An RPC that \<open>homa_rpc_free\<close> has taken off a queue keeps link fields that do not look empty; here it looks as if
  it were in no queue.  The difference shows for dead RPCs only.
\<close>

definition homa_rpc_handoff :: "(nat \<Rightarrow> nat) \<Rightarrow> nat \<Rightarrow> rpc_ptr \<Rightarrow> kstate \<Rightarrow> kstate" where
  "homa_rpc_handoff active busy_time r s =
     (let rpc = ks_rpcs s r; k = rp_hsk rpc; client = homa_is_client (rp_id rpc) in
      if RPC_HANDING_OFF \<in> rp_flags rpc \<or> r \<in> set (ready_reqs s k) \<or> r \<in> set (ready_resps s k) then s
      else case rp_interest rpc of
        Some i \<Rightarrow> thread_waiting i r s
      | None \<Rightarrow>
          (case homa_choose_interest active busy_time s (if client then resp_ints s k else req_ints s k) of
             Some i \<Rightarrow> thread_waiting i r s
           | None \<Rightarrow>
               if client then upd_sock k (\<lambda>h. h\<lparr>hs_ready_responses := hs_ready_responses h @ [r]\<rparr>) s
               else upd_sock k (\<lambda>h. h\<lparr>hs_ready_requests := hs_ready_requests h @ [r]\<rparr>) s))"

definition homa_find_client_rpc :: "kstate \<Rightarrow> sock_ptr \<Rightarrow> u64 \<Rightarrow> rpc_ptr option" where
  "homa_find_client_rpc s k rid =
     chain_find homa_client_rpc_bucket (\<lambda>r. rp_id (ks_rpcs s r)) (hs_client_rpc_buckets (ks_socks s k)) rid"

definition HOMA_RECVMSG_REQUEST :: u32 where "HOMA_RECVMSG_REQUEST = 1"
definition HOMA_RECVMSG_RESPONSE :: u32 where "HOMA_RECVMSG_RESPONSE = 2"
definition HOMA_RECVMSG_NONBLOCKING :: u32 where "HOMA_RECVMSG_NONBLOCKING = 4"

text \<open>The code at the label \<open>claim_rpc\<close>; the caller then holds the lock of the RPC.\<close>

definition claim_rpc :: "interest_ptr \<Rightarrow> sock_ptr \<Rightarrow> rpc_ptr \<Rightarrow> kstate \<Rightarrow> kstate" where
  "claim_rpc i k r s =
     (let s = upd_sock k (\<lambda>h. h\<lparr>hs_ready_requests := remove1 r (hs_ready_requests h),
                hs_ready_responses := remove1 r (hs_ready_responses h)\<rparr>) s;
          s = upd_rpc r (\<lambda>rpc. rpc\<lparr>rp_flags := rp_flags rpc \<union> {RPC_HANDING_OFF}\<rparr>) s;
          s = (if in_locked (interest s i) then s
               else upd_interest i (\<lambda>n. n\<lparr>in_locked := True\<rparr>)
                      (upd_rpc r (\<lambda>rpc. rpc\<lparr>rp_flags := rp_flags rpc - {APP_NEEDS_LOCK}\<rparr>) s));
          s = upd_rpc r (\<lambda>rpc. rpc\<lparr>rp_flags := rp_flags rpc - {RPC_HANDING_OFF}\<rparr>) s
      in upd_interest i (\<lambda>n. n\<lparr>in_ready_rpc := Some r\<rparr>) s)"

text \<open>
  The three parts of \<open>homa_register_interests\<close> once the socket is locked: the specific RPC, ready responses, ready
  requests.  Each goes to \<open>claim_rpc\<close> or on to the next.
\<close>

definition register_request :: "interest_ptr \<Rightarrow> sock_ptr \<Rightarrow> u32 \<Rightarrow> kstate \<Rightarrow> kstate" where
  "register_request i k flags s =
     (if flags AND HOMA_RECVMSG_REQUEST = 0 then s
      else case ready_reqs s k of
        r # _ \<Rightarrow> claim_rpc i k r (upd_sock k (\<lambda>h. h\<lparr>hs_response_interests := remove1 i (hs_response_interests h)\<rparr>) s)
      | [] \<Rightarrow> upd_sock k (\<lambda>h. h\<lparr>hs_request_interests := i # hs_request_interests h\<rparr>) s)"

definition register_response :: "interest_ptr \<Rightarrow> sock_ptr \<Rightarrow> u32 \<Rightarrow> kstate \<Rightarrow> kstate" where
  "register_response i k flags s =
     (let s = upd_interest i (\<lambda>n. n\<lparr>in_locked := False\<rparr>) s in
      if flags AND HOMA_RECVMSG_RESPONSE = 0 then register_request i k flags s
      else case ready_resps s k of
        r # _ \<Rightarrow> claim_rpc i k r s
      | [] \<Rightarrow> register_request i k flags (upd_sock k (\<lambda>h. h\<lparr>hs_response_interests := i # hs_response_interests h\<rparr>) s))"

definition register_id :: "interest_ptr \<Rightarrow> sock_ptr \<Rightarrow> rpc_ptr \<Rightarrow> u32 \<Rightarrow> kstate \<Rightarrow> kstate" where
  "register_id i k r flags s =
     (if RPC_PKTS_READY \<in> rp_flags (ks_rpcs s r) \<or> rp_error (ks_rpcs s r) \<noteq> None then claim_rpc i k r s
      else register_response i k flags
        (upd_interest i (\<lambda>n. n\<lparr>in_reg_rpc := Some r\<rparr>) (upd_rpc r (\<lambda>rpc. rpc\<lparr>rp_interest := Some i\<rparr>) s)))"

definition homa_register_interests ::
  "nat \<Rightarrow> nat \<Rightarrow> interest_ptr \<Rightarrow> sock_ptr \<Rightarrow> u32 \<Rightarrow> u64 \<Rightarrow> kstate \<Rightarrow> errno option \<times> kstate" where
  "homa_register_interests thread core i k flags rid s =
     (let s = upd_interest i (\<lambda>_. (homa_interest_init thread core)\<lparr>in_locked := True\<rparr>) s;
          rpc = homa_find_client_rpc s k rid
      in if rid \<noteq> 0 \<and> (\<not> homa_is_client rid \<or> rpc = None) then (Some EINVAL, s)
         else if rid \<noteq> 0 \<and> rp_interest (ks_rpcs s (the rpc)) \<notin> {None, Some i} then (Some EINVAL, s)
         else if hs_shutdown (ks_socks s k) then (Some ESHUTDOWN, s)
         else if rid \<noteq> 0 then (None, register_id i k (the rpc) flags s)
         else (None, register_response i k flags s))"

text \<open>The clean-up of \<open>homa_wait_for_message\<close> at the label \<open>found_rpc\<close>.\<close>

definition drop_interests :: "interest_ptr \<Rightarrow> sock_ptr \<Rightarrow> kstate \<Rightarrow> kstate" where
  "drop_interests i k s =
     (let s = (case in_reg_rpc (interest s i) of None \<Rightarrow> s | Some q \<Rightarrow> upd_rpc q (\<lambda>rpc. rpc\<lparr>rp_interest := None\<rparr>) s) in
      upd_sock k (\<lambda>h. h\<lparr>hs_request_interests := remove1 i (hs_request_interests h),
        hs_response_interests := remove1 i (hs_response_interests h)\<rparr>) s)"

section \<open>The choice of a thread\<close>

text \<open>The first thread on an idle core, otherwise the first thread.\<close>

lemma choose_interest_result:
  "homa_choose_interest active busy_time s is =
     (case find (\<lambda>i. active (in_core (interest s i)) < busy_time) is of
        Some i \<Rightarrow> Some i | None \<Rightarrow> if is = [] then None else Some (hd is))"
proof -
  have "choose_from active busy_time s b xs =
     (case find (\<lambda>i. active (in_core (interest s i)) < busy_time) xs of
        Some i \<Rightarrow> Some i | None \<Rightarrow> case b of Some c \<Rightarrow> Some c | None \<Rightarrow> if xs = [] then None else Some (hd xs))" for b xs
    by (induction xs arbitrary: b) (auto split: option.splits)
  then show ?thesis by (simp add: homa_choose_interest_def split: option.split)
qed

lemma choose_interest_None: "homa_choose_interest active busy_time s is = None \<longleftrightarrow> is = []"
proof -
  have "choose_from active busy_time s b xs = None \<longleftrightarrow> b = None \<and> xs = []" for b xs
    by (induction xs arbitrary: b) auto
  then show ?thesis by (simp add: homa_choose_interest_def)
qed

lemma choose_interest_Some: "homa_choose_interest active busy_time s is = Some i \<Longrightarrow> i \<in> set is"
proof -
  have "choose_from active busy_time s b xs = Some i \<Longrightarrow> b = Some i \<or> i \<in> set xs" for b xs
    by (induction xs arbitrary: b) (auto split: if_splits)
  then show "homa_choose_interest active busy_time s is = Some i \<Longrightarrow> i \<in> set is"
    by (fastforce simp: homa_choose_interest_def)
qed

section \<open>The invariant of the queues\<close>

text \<open>
  An interest that is registered anywhere holds no RPC yet; the links between interests and RPCs agree; a ready RPC is
  in the queue of its kind, once, and in nobody's hands; and no RPC is queued while a thread waits for its kind.
\<close>

definition interest_links :: "kstate \<Rightarrow> bool" where
  "interest_links s \<longleftrightarrow> (\<forall>i r. in_reg_rpc (interest s i) = Some r \<longleftrightarrow> rp_interest (ks_rpcs s r) = Some i)"

definition ready_ok :: "kstate \<Rightarrow> sock_ptr \<Rightarrow> bool \<Rightarrow> rpc_ptr list \<Rightarrow> bool" where
  "ready_ok s k client rs \<longleftrightarrow> distinct rs \<and> (\<forall>r \<in> set rs. rp_hsk (ks_rpcs s r) = k \<and>
     homa_is_client (rp_id (ks_rpcs s r)) = client \<and> RPC_HANDING_OFF \<notin> rp_flags (ks_rpcs s r))"

definition registered :: "kstate \<Rightarrow> sock_ptr \<Rightarrow> interest_ptr \<Rightarrow> bool" where
  "registered s k i \<longleftrightarrow> i \<in> set (req_ints s k) \<or> i \<in> set (resp_ints s k) \<or> in_reg_rpc (interest s i) \<noteq> None"

definition handoff_inv :: "sock_ptr \<Rightarrow> kstate \<Rightarrow> bool" where
  "handoff_inv k s \<longleftrightarrow> interest_links s \<and> distinct (req_ints s k) \<and> distinct (resp_ints s k) \<and>
     (\<forall>i. registered s k i \<longrightarrow> in_ready_rpc (interest s i) = None) \<and>
     ready_ok s k False (ready_reqs s k) \<and> ready_ok s k True (ready_resps s k) \<and>
     (ready_reqs s k = [] \<or> req_ints s k = []) \<and> (ready_resps s k = [] \<or> resp_ints s k = [])"

lemma thread_waiting_sel:
  fixes i r s defines "s' \<equiv> thread_waiting i r s"
  shows "in_ready_rpc (interest s' j) = (if j = i then Some r else in_ready_rpc (interest s j))"
    and "in_reg_rpc (interest s' j) = (if j = i then None else in_reg_rpc (interest s j))"
    and "in_thread (interest s' j) = in_thread (interest s j)"
    and "j \<noteq> i \<Longrightarrow> interest s' j = interest s j"
    and "rp_interest (ks_rpcs s' x) = (if in_reg_rpc (interest s i) = Some x then None else rp_interest (ks_rpcs s x))"
    and "rp_flags (ks_rpcs s' x) = (if x = r then rp_flags (ks_rpcs s x) \<union> {RPC_HANDING_OFF} else rp_flags (ks_rpcs s x))"
    and "rp_hsk (ks_rpcs s' x) = rp_hsk (ks_rpcs s x)" and "rp_id (ks_rpcs s' x) = rp_id (ks_rpcs s x)"
    and "rp_hsk (ks_rpcs s r) = k \<Longrightarrow> ks_socks s' k = (ks_socks s k)\<lparr>hs_request_interests := remove1 i (req_ints s k),
       hs_response_interests := remove1 i (resp_ints s k)\<rparr>"
    and "rp_hsk (ks_rpcs s r) \<noteq> k \<Longrightarrow> ks_socks s' k = ks_socks s k"
    and "ks_wakeups s' = ks_wakeups s @ [in_thread (interest s i)]"
  unfolding s'_def thread_waiting_def Let_def by (simp_all split: option.splits)

lemma thread_waiting_inv:
  assumes "handoff_inv k s" and "rp_hsk (ks_rpcs s r) = k" and "r \<notin> set (ready_reqs s k)" and "r \<notin> set (ready_resps s k)"
  shows "handoff_inv k (thread_waiting i r s)" and "\<not> registered (thread_waiting i r s) k i"
proof -
  let ?s = "thread_waiting i r s"
  note sel = thread_waiting_sel [where i = i and r = r and s = s] and inv = assms(1) [unfolded handoff_inv_def]
  have links: "interest_links ?s"
    using inv unfolding interest_links_def sel by (metis option.distinct(1) option.inject)
  have reg: "registered ?s k j \<longleftrightarrow> registered s k j \<and> j \<noteq> i" for j
    using inv by (auto simp: registered_def sel(2) sel(9) [OF assms(2)])
  then show "\<not> registered ?s k i" by simp
  have "ready_ok ?s k c rs \<longleftrightarrow> ready_ok s k c rs" if "r \<notin> set rs" for c rs
    using that by (auto simp: ready_ok_def sel)
  then show "handoff_inv k ?s"
    using inv links reg assms(3,4) by (auto simp: handoff_inv_def sel(1) sel(9) [OF assms(2)])
qed

text \<open>Nobody waits: the RPC is queued.\<close>

lemma queue_inv:
  assumes "handoff_inv k s" and "rp_hsk (ks_rpcs s r) = k" and "RPC_HANDING_OFF \<notin> rp_flags (ks_rpcs s r)"
    and "r \<notin> set (ready_reqs s k)" and "r \<notin> set (ready_resps s k)"
  shows "homa_is_client (rp_id (ks_rpcs s r)) \<Longrightarrow> resp_ints s k = [] \<Longrightarrow>
      handoff_inv k (upd_sock k (\<lambda>h. h\<lparr>hs_ready_responses := hs_ready_responses h @ [r]\<rparr>) s)"
    and "\<not> homa_is_client (rp_id (ks_rpcs s r)) \<Longrightarrow> req_ints s k = [] \<Longrightarrow>
      handoff_inv k (upd_sock k (\<lambda>h. h\<lparr>hs_ready_requests := hs_ready_requests h @ [r]\<rparr>) s)"
  using assms by (simp_all add: handoff_inv_def interest_links_def ready_ok_def registered_def)

text \<open>
  RPC \<open>r\<close> has gone to interest \<open>i\<close>, the one that is registered for \<open>r\<close>, or else one that waits for any RPC of its kind.
\<close>

definition delivered :: "sock_ptr \<Rightarrow> rpc_ptr \<Rightarrow> kstate \<Rightarrow> interest_ptr \<Rightarrow> kstate \<Rightarrow> bool" where
  "delivered k r s i s' \<longleftrightarrow>
     (case rp_interest (ks_rpcs s r) of
        Some j \<Rightarrow> i = j
      | None \<Rightarrow> i \<in> set (if homa_is_client (rp_id (ks_rpcs s r)) then resp_ints s k else req_ints s k)) \<and>
     registered s k i \<and> \<not> registered s' k i \<and> in_ready_rpc (interest s' i) = Some r \<and>
     RPC_HANDING_OFF \<in> rp_flags (ks_rpcs s' r) \<and> ks_wakeups s' = ks_wakeups s @ [in_thread (interest s i)] \<and>
     (\<forall>j. j \<noteq> i \<longrightarrow> interest s' j = interest s j) \<and> ready_reqs s' k = ready_reqs s k \<and> ready_resps s' k = ready_resps s k"

definition queued :: "sock_ptr \<Rightarrow> rpc_ptr \<Rightarrow> kstate \<Rightarrow> kstate \<Rightarrow> bool" where
  "queued k r s s' \<longleftrightarrow> rp_interest (ks_rpcs s r) = None \<and> ks_interests s' = ks_interests s \<and> ks_wakeups s' = ks_wakeups s \<and>
     (if homa_is_client (rp_id (ks_rpcs s r))
      then resp_ints s k = [] \<and> ready_resps s' k = ready_resps s k @ [r] \<and> ready_reqs s' k = ready_reqs s k
      else req_ints s k = [] \<and> ready_reqs s' k = ready_reqs s k @ [r] \<and> ready_resps s' k = ready_resps s k)"

lemma handoff_result:
  assumes inv: "handoff_inv k s" and k: "rp_hsk (ks_rpcs s r) = k"
    and new: "RPC_HANDING_OFF \<notin> rp_flags (ks_rpcs s r)" "r \<notin> set (ready_reqs s k)" "r \<notin> set (ready_resps s k)"
  shows "handoff_inv k (homa_rpc_handoff active busy_time r s) \<and>
    ((\<exists>i. delivered k r s i (homa_rpc_handoff active busy_time r s)) \<or> queued k r s (homa_rpc_handoff active busy_time r s))"
proof -
  let ?s = "homa_rpc_handoff active busy_time r s" and ?c = "homa_is_client (rp_id (ks_rpcs s r))"
  let ?ints = "if ?c then resp_ints s k else req_ints s k"
  have deliv: "handoff_inv k (thread_waiting i r s) \<and> delivered k r s i (thread_waiting i r s)" if "registered s k i"
    "case rp_interest (ks_rpcs s r) of Some j \<Rightarrow> i = j | None \<Rightarrow> i \<in> set ?ints" for i
    using thread_waiting_inv [OF inv k new(2,3), of i] that
    by (simp add: delivered_def thread_waiting_sel thread_waiting_sel(9) [OF k])
  show ?thesis
  proof (cases "rp_interest (ks_rpcs s r)")
    case (Some i)
    then have "registered s k i" using inv by (auto simp: handoff_inv_def interest_links_def registered_def)
    then show ?thesis using deliv new k Some by (auto simp: homa_rpc_handoff_def Let_def)
  next
    case None
    show ?thesis
    proof (cases "homa_choose_interest active busy_time s ?ints")
      case (Some i)
      then have i: "i \<in> set ?ints" by (rule choose_interest_Some)
      then have "registered s k i" by (auto simp: registered_def split: if_splits)
      moreover have "?s = thread_waiting i r s" unfolding homa_rpc_handoff_def Let_def k using new None Some by simp
      ultimately show ?thesis using deliv [of i] i None by auto
    next
      case none: None
      then have empty: "?ints = []" by (simp only: choose_interest_None)
      have "?s = (if ?c then upd_sock k (\<lambda>h. h\<lparr>hs_ready_responses := hs_ready_responses h @ [r]\<rparr>) s
          else upd_sock k (\<lambda>h. h\<lparr>hs_ready_requests := hs_ready_requests h @ [r]\<rparr>) s)"
        unfolding homa_rpc_handoff_def Let_def k using new None none by simp
      then show ?thesis
        using queue_inv [OF inv k new] empty None by (cases ?c) (simp_all add: queued_def)
    qed
  qed
qed

section \<open>Registering interests\<close>

abbreviation wants_request :: "u32 \<Rightarrow> bool" where "wants_request flags \<equiv> flags AND HOMA_RECVMSG_REQUEST \<noteq> 0"
abbreviation wants_response :: "u32 \<Rightarrow> bool" where "wants_response flags \<equiv> flags AND HOMA_RECVMSG_RESPONSE \<noteq> 0"

lemma claim_rpc_sel:
  fixes i k r s defines "s' \<equiv> claim_rpc i k r s"
  shows "in_ready_rpc (interest s' j) = (if j = i then Some r else in_ready_rpc (interest s j))"
    and "in_reg_rpc (interest s' j) = in_reg_rpc (interest s j)"
    and "rp_interest (ks_rpcs s' x) = rp_interest (ks_rpcs s x)"
    and "RPC_HANDING_OFF \<in> rp_flags (ks_rpcs s' x) \<longleftrightarrow> x \<noteq> r \<and> RPC_HANDING_OFF \<in> rp_flags (ks_rpcs s x)"
    and "rp_hsk (ks_rpcs s' x) = rp_hsk (ks_rpcs s x)" and "rp_id (ks_rpcs s' x) = rp_id (ks_rpcs s x)"
    and "ks_socks s' k = (ks_socks s k)\<lparr>hs_ready_requests := remove1 r (ready_reqs s k),
       hs_ready_responses := remove1 r (ready_resps s k)\<rparr>"
  unfolding s'_def claim_rpc_def Let_def by simp_all

lemma claim_rpc_inv:
  assumes "handoff_inv k s" and "\<not> registered s k i"
  shows "handoff_inv k (claim_rpc i k r s)"
proof -
  have "ready_ok (claim_rpc i k r s) k c (remove1 r rs)" if "ready_ok s k c rs" for c rs
    using that by (auto simp: ready_ok_def claim_rpc_sel)
  then show ?thesis
    using assms by (auto simp: handoff_inv_def interest_links_def registered_def claim_rpc_sel)
qed

text \<open>The thread takes an RPC and waits no longer; or it waits, and nothing of what it waits for is ready.\<close>

definition claimed :: "sock_ptr \<Rightarrow> interest_ptr \<Rightarrow> rpc_ptr \<Rightarrow> kstate \<Rightarrow> kstate \<Rightarrow> bool" where
  "claimed k i r s s' \<longleftrightarrow> in_ready_rpc (interest s' i) = Some r \<and> RPC_HANDING_OFF \<notin> rp_flags (ks_rpcs s' r) \<and>
     ready_reqs s' k = remove1 r (ready_reqs s k) \<and> ready_resps s' k = remove1 r (ready_resps s k) \<and>
     req_ints s' k = req_ints s k \<and> resp_ints s' k = resp_ints s k"

definition waits :: "sock_ptr \<Rightarrow> interest_ptr \<Rightarrow> u32 \<Rightarrow> kstate \<Rightarrow> kstate \<Rightarrow> bool" where
  "waits k i flags s s' \<longleftrightarrow> in_ready_rpc (interest s' i) = None \<and> ready_reqs s' k = ready_reqs s k \<and> ready_resps s' k = ready_resps s k \<and>
     (if wants_request flags then ready_reqs s k = [] \<and> req_ints s' k = i # req_ints s k else req_ints s' k = req_ints s k) \<and>
     (if wants_response flags then ready_resps s k = [] \<and> resp_ints s' k = i # resp_ints s k else resp_ints s' k = resp_ints s k)"

text \<open>The thread takes the first ready response, else the first ready request, of what it asks for; else it waits.\<close>

definition takes_any :: "sock_ptr \<Rightarrow> interest_ptr \<Rightarrow> u32 \<Rightarrow> kstate \<Rightarrow> kstate \<Rightarrow> bool" where
  "takes_any k i flags s s' \<longleftrightarrow>
     (if wants_response flags \<and> ready_resps s k \<noteq> [] then claimed k i (hd (ready_resps s k)) s s'
      else if wants_request flags \<and> ready_reqs s k \<noteq> [] then claimed k i (hd (ready_reqs s k)) s s'
      else waits k i flags s s')"

definition fresh_interest :: "sock_ptr \<Rightarrow> interest_ptr \<Rightarrow> kstate \<Rightarrow> bool" where
  "fresh_interest k i s \<longleftrightarrow> i \<notin> set (req_ints s k) \<and> i \<notin> set (resp_ints s k) \<and> in_ready_rpc (interest s i) = None"

lemma register_response_result:
  fixes i k flags s defines "s' \<equiv> register_response i k flags s"
  assumes inv: "handoff_inv k s" and i: "fresh_interest k i s"
  shows "in_reg_rpc (interest s' i) = in_reg_rpc (interest s i)" and "rp_interest (ks_rpcs s' x) = rp_interest (ks_rpcs s x)"
    and "takes_any k i flags s s'"
    and "in_reg_rpc (interest s i) = None \<or> in_ready_rpc (interest s' i) = None \<Longrightarrow> handoff_inv k s'"
proof -
  define s0 where "s0 = upd_interest i (\<lambda>n. n\<lparr>in_locked := False\<rparr>) s"
  have s0: "ks_socks s0 = ks_socks s" "ks_rpcs s0 = ks_rpcs s" "in_ready_rpc (interest s0 j) = in_ready_rpc (interest s j)"
    "in_reg_rpc (interest s0 j) = in_reg_rpc (interest s j)" for j by (simp_all add: s0_def)
  have inv0: "handoff_inv k s0"
    using inv by (simp add: handoff_inv_def interest_links_def ready_ok_def registered_def s0)
  have cl: "claimed k i r s (claim_rpc i k r s0)" for r by (simp add: claimed_def claim_rpc_sel s0)
  have clinv: "handoff_inv k (claim_rpc i k r s0)" if "in_reg_rpc (interest s i) = None" for r
    using claim_rpc_inv [OF inv0, of i r] that i by (simp add: registered_def fresh_interest_def s0)
  show "in_reg_rpc (interest s' i) = in_reg_rpc (interest s i)" "rp_interest (ks_rpcs s' x) = rp_interest (ks_rpcs s x)"
    unfolding s'_def register_response_def register_request_def Let_def by (auto simp: claim_rpc_sel split: list.split)
  have "takes_any k i flags s s' \<and> (in_reg_rpc (interest s i) = None \<or> in_ready_rpc (interest s' i) = None \<longrightarrow> handoff_inv k s')"
  proof (cases "wants_response flags \<and> ready_resps s k \<noteq> []")
    case True
    then obtain r rs where r: "ready_resps s k = r # rs" by (cases "ready_resps s k") auto
    then have "s' = claim_rpc i k r s0" using True s0 by (simp add: s'_def register_response_def s0_def [symmetric])
    then show ?thesis using cl [of r] clinv [of r] r True by (simp add: takes_any_def claim_rpc_sel)
  next
    case no_resp: False
    define s1 where "s1 = (if wants_response flags then upd_sock k (\<lambda>h. h\<lparr>hs_response_interests := i # hs_response_interests h\<rparr>) s0 else s0)"
    have s': "s' = register_request i k flags s1"
      using no_resp s0 by (auto simp: s'_def register_response_def s0_def [symmetric] s1_def)
    show ?thesis
    proof (cases "wants_request flags \<and> ready_reqs s k \<noteq> []")
      case True
      then obtain r rs where r: "ready_reqs s k = r # rs" by (cases "ready_reqs s k") auto
      define s2 where "s2 = upd_sock k (\<lambda>h. h\<lparr>hs_response_interests := remove1 i (hs_response_interests h)\<rparr>) s1"
      have "ks_socks s2 = ks_socks s0" "ks_rpcs s2 = ks_rpcs s0" "ks_interests s2 = ks_interests s0"
        using i s0 by (simp_all add: s2_def s1_def fresh_interest_def remove1_idem fun_upd_idem)
      then have "claimed k i r s (claim_rpc i k r s2)" "handoff_inv k s2" "\<not> registered s2 k i \<longleftrightarrow> \<not> registered s0 k i"
        using inv0 by (simp_all add: claimed_def claim_rpc_sel s0 handoff_inv_def interest_links_def ready_ok_def registered_def)
      moreover have "s' = claim_rpc i k r s2" using True r s0 by (simp add: s' register_request_def s1_def s2_def)
      moreover have "\<not> registered s0 k i" if "in_reg_rpc (interest s i) = None"
        using that i by (simp add: registered_def fresh_interest_def s0)
      ultimately have "claimed k i r s s'" "in_reg_rpc (interest s i) = None \<longrightarrow> handoff_inv k s'"
        using claim_rpc_inv [of k s2 i r] by simp_all
      then show ?thesis using True no_resp r by (auto simp: takes_any_def claimed_def)
    next
      case no_req: False
      have s'': "s' = (if wants_request flags then upd_sock k (\<lambda>h. h\<lparr>hs_request_interests := i # hs_request_interests h\<rparr>) s1 else s1)"
        using no_req s0 by (auto simp: s' register_request_def s1_def)
      have "waits k i flags s s'" using no_req no_resp i s0 by (auto simp: waits_def s'' s1_def fresh_interest_def)
      moreover have "handoff_inv k s'"
        using inv no_req no_resp i s0
        by (auto simp: handoff_inv_def interest_links_def ready_ok_def registered_def s'' s1_def fresh_interest_def)
      ultimately show ?thesis using no_req no_resp by (auto simp: takes_any_def)
    qed
  qed
  then show "takes_any k i flags s s'"
    and "in_reg_rpc (interest s i) = None \<or> in_ready_rpc (interest s' i) = None \<Longrightarrow> handoff_inv k s'" by blast+
qed

section \<open>Properties\<close>

text \<open>
  C10: Handing off: an RPC that is neither queued nor being handed off goes to exactly one registered thread, the one that waits for this
  RPC or else one that waits for its kind, which is woken and registered nowhere afterwards, or it is appended to the queue of its kind, and then no thread waits for it.  Otherwise nothing
  happens.  The invariant of the queues is kept: no thread gets two RPCs, no RPC is queued twice or queued while a thread waits
  for its kind.
\<close>

theorem homa_rpc_handoff_delivers:
  assumes "handoff_inv k s" and "rp_hsk (ks_rpcs s r) = k"
  shows "handoff_inv k (homa_rpc_handoff active busy_time r s) \<and>
    (if RPC_HANDING_OFF \<in> rp_flags (ks_rpcs s r) \<or> r \<in> set (ready_reqs s k) \<or> r \<in> set (ready_resps s k)
     then homa_rpc_handoff active busy_time r s = s
     else (\<exists>i. delivered k r s i (homa_rpc_handoff active busy_time r s)) \<or>
          queued k r s (homa_rpc_handoff active busy_time r s))"
proof (cases "RPC_HANDING_OFF \<in> rp_flags (ks_rpcs s r) \<or> r \<in> set (ready_reqs s k) \<or> r \<in> set (ready_resps s k)")
  case True
  then show ?thesis using assms by (simp add: homa_rpc_handoff_def)
next
  case False
  then show ?thesis using handoff_result [OF assms] by auto
qed

text \<open>Threads 21 and 22 wait for responses on socket 1, the first on a busy core; RPC 8 is a response.\<close>

definition handoff_example :: kstate where
  "handoff_example = kstate_zero\<lparr>
     ks_socks := (\<lambda>_. sock_zero)(1 := sock_zero\<lparr>hs_response_interests := [3, 4],
       hs_client_rpc_buckets := (\<lambda>_. [])(4 := [8])\<rparr>),
     ks_rpcs := (\<lambda>_. rpc_zero)(8 := rpc_zero\<lparr>rp_hsk := 1, rp_id := 8\<rparr>, 9 := rpc_zero\<lparr>rp_hsk := 1, rp_id := 10\<rparr>),
     ks_interests := (\<lambda>_. interest_zero)(3 := homa_interest_init 21 0, 4 := homa_interest_init 22 1)\<rparr>"

lemma handoff_example_inv: "handoff_inv 1 handoff_example"
  by (auto simp: handoff_inv_def interest_links_def ready_ok_def registered_def handoff_example_def zero_defs homa_interest_init_def)

theorem homa_rpc_handoff_delivers_witness:
  "handoff_inv 1 (homa_rpc_handoff (\<lambda>c. if c = 0 then 9 else 2) 5 8 handoff_example) \<and>
   delivered 1 8 handoff_example 4 (homa_rpc_handoff (\<lambda>c. if c = 0 then 9 else 2) 5 8 handoff_example)"
proof -
  let ?s = "homa_rpc_handoff (\<lambda>c. if c = 0 then 9 else 2) 5 8 handoff_example"
  have r: "rp_hsk (ks_rpcs handoff_example 8) = 1" "RPC_HANDING_OFF \<notin> rp_flags (ks_rpcs handoff_example 8)"
    "ready_reqs handoff_example 1 = []" "ready_resps handoff_example 1 = []"
    "resp_ints handoff_example 1 = [3, 4]" "homa_is_client (rp_id (ks_rpcs handoff_example 8))"
    by (simp_all add: handoff_example_def zero_defs is_client_even)
  then obtain i where i: "handoff_inv 1 ?s" "delivered 1 8 handoff_example i ?s"
    using homa_rpc_handoff_delivers [OF handoff_example_inv r(1), of "\<lambda>c. if c = 0 then 9 else 2" 5] by (auto simp: queued_def)
  have ints: "in_core (interest handoff_example 3) = 0" "in_core (interest handoff_example 4) = 1" "rp_interest (ks_rpcs handoff_example 8) = None"
    "in_thread (interest handoff_example 4) = 22" "ks_wakeups handoff_example = []"
    by (simp_all add: handoff_example_def zero_defs homa_interest_init_def)
  then have "homa_choose_interest (\<lambda>c. if c = 0 then 9 else 2) 5 handoff_example [3, 4] = Some 4" by (simp add: homa_choose_interest_def)
  then have "?s = thread_waiting 4 8 handoff_example" unfolding homa_rpc_handoff_def Let_def r using r ints by simp
  then have "in_thread (interest handoff_example i) = 22" using i(2) ints by (simp add: delivered_def thread_waiting_sel)
  then have "i = 4" by (auto simp: handoff_example_def zero_defs homa_interest_init_def split: if_splits)
  then show ?thesis using i by simp
qed

text \<open>
  C22: \<open>homa_register_interests\<close> (with an interest that is not in use) fails with \<open>EINVAL\<close> exactly if it is asked for an RPC that is
  not an existing client RPC or that another thread waits for, and otherwise with \<open>ESHUTDOWN\<close> exactly if the socket is shut
  down.  An RPC that is asked for is claimed exactly if it has packets to be copied or an error; otherwise it is linked with
  the interest, both ways.  If it is not claimed, the thread takes the first ready RPC of a kind that it asked for off its queue, responses
  first; if there is none, it is in the lists for everything it asked for.  The invariant of the queues is kept, unless
  the thread has taken another RPC while it is registered for a specific one.
\<close>

theorem homa_register_interests_result:
  assumes "handoff_inv k s" and "\<not> registered s k i" and "homa_register_interests thread core i k flags rid s = (err, s')"
  shows "err = (if rid \<noteq> 0 \<and> (\<not> homa_is_client rid \<or> homa_find_client_rpc s k rid = None \<or>
                   rp_interest (ks_rpcs s (the (homa_find_client_rpc s k rid))) \<noteq> None) then Some EINVAL
                else if hs_shutdown (ks_socks s k) then Some ESHUTDOWN else None) \<and>
    (err = None \<and> rid = 0 \<longrightarrow> in_reg_rpc (interest s' i) = None \<and> takes_any k i flags s s') \<and>
    (err = None \<and> rid \<noteq> 0 \<longrightarrow> (let r = the (homa_find_client_rpc s k rid) in
       if RPC_PKTS_READY \<in> rp_flags (ks_rpcs s r) \<or> rp_error (ks_rpcs s r) \<noteq> None
       then claimed k i r s s' \<and> in_reg_rpc (interest s' i) = None \<and> rp_interest (ks_rpcs s' r) = None
       else in_reg_rpc (interest s' i) = Some r \<and> rp_interest (ks_rpcs s' r) = Some i \<and> takes_any k i flags s s')) \<and>
    (in_reg_rpc (interest s' i) = None \<or> in_ready_rpc (interest s' i) = None \<longrightarrow> handoff_inv k s') \<and>
    (err \<noteq> None \<longrightarrow> ks_socks s' = ks_socks s \<and> ks_rpcs s' = ks_rpcs s)"
proof -
  define s0 where "s0 = upd_interest i (\<lambda>_. (homa_interest_init thread core)\<lparr>in_locked := True\<rparr>) s"
  have s0: "ks_socks s0 = ks_socks s" "ks_rpcs s0 = ks_rpcs s" "homa_find_client_rpc s0 = homa_find_client_rpc s"
    "in_ready_rpc (interest s0 i) = None" "in_reg_rpc (interest s0 i) = None"
    by (simp_all add: s0_def homa_interest_init_def homa_find_client_rpc_def fun_eq_iff)
  have none: "rp_interest (ks_rpcs s r) \<noteq> Some i" for r
    using assms(1,2) by (auto simp: handoff_inv_def interest_links_def registered_def)
  have inv0: "handoff_inv k s0"
    using assms(1,2) unfolding handoff_inv_def interest_links_def ready_ok_def registered_def s0_def
    by (simp add: homa_interest_init_def)
  have fr: "fresh_interest k i s0" using assms(2) by (simp add: fresh_interest_def registered_def s0)
  have nreg: "\<not> registered s0 k i" using assms(2) by (simp add: registered_def s0)
  have same: "takes_any k i flags s0 = takes_any k i flags s"
    by (simp add: takes_any_def waits_def claimed_def fun_eq_iff s0)
  note eq = assms(3) [unfolded homa_register_interests_def Let_def s0_def [symmetric] s0]
  let ?bad = "\<not> homa_is_client rid \<or> homa_find_client_rpc s k rid = None \<or>
      rp_interest (ks_rpcs s (the (homa_find_client_rpc s k rid))) \<noteq> None"
  consider (bad) "err = (if rid \<noteq> 0 \<and> ?bad then Some EINVAL else Some ESHUTDOWN)" "s' = s0"
      "rid \<noteq> 0 \<and> ?bad \<or> hs_shutdown (ks_socks s k)" |
    (any) "rid = 0" "err = None" "s' = register_response i k flags s0" "\<not> hs_shutdown (ks_socks s k)" |
    (one) r where "rid \<noteq> 0" "homa_is_client rid" "homa_find_client_rpc s k rid = Some r" "rp_interest (ks_rpcs s r) = None"
      "err = None" "s' = register_id i k r flags s0" "\<not> hs_shutdown (ks_socks s k)"
    using eq none by (auto split: if_splits)
  then show ?thesis
  proof cases
    case bad
    then show ?thesis using inv0 by (simp add: s0 split: if_splits)
  next
    case any
    from register_response_result [OF inv0 fr, of flags] show ?thesis
      unfolding any(3) [symmetric] same s0 using any by simp
  next
    case one
    show ?thesis
    proof (cases "RPC_PKTS_READY \<in> rp_flags (ks_rpcs s r) \<or> rp_error (ks_rpcs s r) \<noteq> None")
      case True
      then have "s' = claim_rpc i k r s0" using one(6) by (auto simp: register_id_def s0)
      moreover have "claimed k i r s (claim_rpc i k r s0)" by (simp add: claimed_def claim_rpc_sel s0)
      ultimately show ?thesis using one True claim_rpc_inv [OF inv0 nreg, of r] by (simp add: claim_rpc_sel s0)
    next
      case False
      define s1 where "s1 = upd_interest i (\<lambda>n. n\<lparr>in_reg_rpc := Some r\<rparr>) (upd_rpc r (\<lambda>rpc. rpc\<lparr>rp_interest := Some i\<rparr>) s0)"
      have s': "s' = register_response i k flags s1" using False one(6) by (simp add: register_id_def s1_def s0)
      have inv1: "handoff_inv k s1"
        using inv0 nreg s0(4) one(4) none
        by (auto simp: handoff_inv_def interest_links_def ready_ok_def registered_def s1_def s0 split: if_splits)
      have fr1: "fresh_interest k i s1" using fr by (simp add: fresh_interest_def s1_def)
      have same1: "takes_any k i flags s1 = takes_any k i flags s"
        by (simp add: takes_any_def waits_def claimed_def fun_eq_iff s0 s1_def)
      have reg: "in_reg_rpc (interest s1 i) = Some r" "rp_interest (ks_rpcs s1 r) = Some i" by (simp_all add: s1_def)
      note res = register_response_result [OF inv1 fr1, of flags, folded s', unfolded same1 reg]
      then show ?thesis using res(2) [of r] one False by (simp add: reg)
    qed
  qed
qed

theorem homa_register_interests_result_witness:
  "\<exists>s'. homa_register_interests 23 2 5 1 3 8 handoff_example = (None, s') \<and> waits 1 5 3 handoff_example s' \<and>
     rp_interest (ks_rpcs s' 8) = Some 5 \<and> handoff_inv 1 s'"
proof -
  obtain err s' where reg: "homa_register_interests 23 2 5 1 3 8 handoff_example = (err, s')" by fastforce
  have ex: "\<not> hs_shutdown (ks_socks handoff_example 1)" "ready_reqs handoff_example 1 = []" "ready_resps handoff_example 1 = []"
    "homa_find_client_rpc handoff_example 1 8 = Some 8" "rp_interest (ks_rpcs handoff_example 8) = None"
    "rp_flags (ks_rpcs handoff_example 8) = {}" "rp_error (ks_rpcs handoff_example 8) = None" "\<not> registered handoff_example 1 5"
    "homa_is_client 8"
    by (simp_all add: handoff_example_def zero_defs homa_find_client_rpc_def chain_find_def homa_client_rpc_bucket_def
        registered_def is_client_even drop_bit_eq_div)
  note res = homa_register_interests_result [OF handoff_example_inv ex(8) reg]
  have err: "err = None" using conjunct1 [OF res] by (simp add: ex del: One_nat_def)
  then have "rp_interest (ks_rpcs s' 8) = Some 5" "waits 1 5 3 handoff_example s'"
    using res [THEN conjunct2, THEN conjunct2, THEN conjunct1] by (simp_all add: ex takes_any_def del: One_nat_def)
  moreover from this(2) have "handoff_inv 1 s'"
    using res [THEN conjunct2, THEN conjunct2, THEN conjunct2, THEN conjunct1] by (simp add: waits_def del: One_nat_def)
  ultimately show ?thesis using reg err by blast
qed

text \<open>
  C33: A thread that waits for a specific response and for any response can lose one: \<open>homa_register_interests\<close> takes the first
  ready response \<open>y\<close> off its queue for the thread while the thread stays registered for \<open>x\<close>.  When \<open>x\<close> is handed off before
  the thread has cleaned up, it replaces \<open>y\<close> in the thread's hands; \<open>y\<close> is then in no queue and in nobody's
  hands.
\<close>

theorem homa_register_interests_loses:
  assumes inv: "handoff_inv k s" and i: "\<not> registered s k i" and live: "\<not> hs_shutdown (ks_socks s k)"
    and x: "rid \<noteq> 0" "homa_is_client rid" "homa_find_client_rpc s k rid = Some x" "rp_hsk (ks_rpcs s x) = k"
      "rp_interest (ks_rpcs s x) = None" "rp_flags (ks_rpcs s x) = {}" "rp_error (ks_rpcs s x) = None" "x \<notin> set (ready_reqs s k)"
    and y: "wants_response flags" "ready_resps s k = y # ys" "x \<notin> set (y # ys)" "\<forall>j. in_ready_rpc (interest s j) \<noteq> Some y"
  shows "let s1 = snd (homa_register_interests thread core i k flags rid s);
             s2 = homa_rpc_handoff active busy_time x s1
         in in_ready_rpc (interest s1 i) = Some y \<and> in_ready_rpc (interest s2 i) = Some x \<and>
            y \<notin> set (ready_reqs s2 k) \<and> y \<notin> set (ready_resps s2 k) \<and> RPC_HANDING_OFF \<notin> rp_flags (ks_rpcs s2 y) \<and>
            (\<forall>j. in_ready_rpc (interest s2 j) \<noteq> Some y)"
proof -
  define s0 where "s0 = upd_interest i (\<lambda>_. (homa_interest_init thread core)\<lparr>in_locked := True\<rparr>) s"
  define s0' where "s0' = upd_interest i (\<lambda>n. n\<lparr>in_locked := False\<rparr>)
      (upd_interest i (\<lambda>n. n\<lparr>in_reg_rpc := Some x\<rparr>) (upd_rpc x (\<lambda>rpc. rpc\<lparr>rp_interest := Some i\<rparr>) s0))"
  have "homa_find_client_rpc s0 k rid = Some x" using x(3) by (simp add: s0_def homa_find_client_rpc_def)
  then have s1: "snd (homa_register_interests thread core i k flags rid s) = claim_rpc i k y s0'"
    unfolding homa_register_interests_def Let_def s0_def [symmetric] using x y live
    by (simp add: register_id_def register_response_def s0'_def) (simp add: s0_def)
  have base: "ks_socks s0' = ks_socks s" "in_reg_rpc (interest s0' i) = Some x" "rp_interest (ks_rpcs s0' x) = Some i"
    "rp_flags (ks_rpcs s0' r) = rp_flags (ks_rpcs s r)" "rp_hsk (ks_rpcs s0' r) = rp_hsk (ks_rpcs s r)" for r
    by (simp_all add: s0'_def s0_def)
  have oth: "in_ready_rpc (interest s0' j) \<noteq> Some y" for j using y(4) by (simp add: s0'_def s0_def homa_interest_init_def)
  have q: "distinct (y # ys)" "y \<notin> set (ready_reqs s k)"
    using inv y(2) by (auto simp: handoff_inv_def ready_ok_def)
  let ?s1 = "claim_rpc i k y s0'"
  have "RPC_HANDING_OFF \<notin> rp_flags (ks_rpcs ?s1 x)" "x \<notin> set (ready_reqs ?s1 k)" "x \<notin> set (ready_resps ?s1 k)"
    using x y(2,3) by (simp_all add: claim_rpc_sel base remove1_idem [OF q(2)])
  then have s2: "homa_rpc_handoff active busy_time x ?s1 = thread_waiting i x ?s1"
    by (simp add: homa_rpc_handoff_def Let_def claim_rpc_sel base x)
  have hsk: "rp_hsk (ks_rpcs ?s1 x) = k" by (simp add: claim_rpc_sel base x)
  have "x \<noteq> y" using y(3) by auto
  then show ?thesis
    unfolding s1 Let_def s2 using q y(2) oth
    by (simp add: thread_waiting_sel thread_waiting_sel(9) [OF hsk] claim_rpc_sel base remove1_idem)
qed

definition loss_example :: kstate where
  "loss_example = kstate_zero\<lparr>
     ks_socks := (\<lambda>_. sock_zero)(1 := sock_zero\<lparr>hs_ready_responses := [9], hs_client_rpc_buckets := (\<lambda>_. [])(4 := [8], 5 := [9])\<rparr>),
     ks_rpcs := (\<lambda>_. rpc_zero)(8 := rpc_zero\<lparr>rp_hsk := 1, rp_id := 8\<rparr>, 9 := rpc_zero\<lparr>rp_hsk := 1, rp_id := 10\<rparr>)\<rparr>"

theorem homa_register_interests_loses_witness:
  "let s1 = snd (homa_register_interests 23 2 5 1 2 8 loss_example); s2 = homa_rpc_handoff (\<lambda>_. 0) 5 8 s1
   in in_ready_rpc (interest s1 5) = Some 9 \<and> in_ready_rpc (interest s2 5) = Some 8 \<and> (\<forall>j. in_ready_rpc (interest s2 j) \<noteq> Some 9)"
proof -
  have inv: "handoff_inv 1 loss_example"
    by (auto simp: handoff_inv_def interest_links_def ready_ok_def registered_def loss_example_def zero_defs is_client_even)
  have x: "\<not> registered loss_example 1 5" "\<not> hs_shutdown (ks_socks loss_example 1)" "(8 :: u64) \<noteq> 0" "homa_is_client 8"
    "homa_find_client_rpc loss_example 1 8 = Some 8" "rp_hsk (ks_rpcs loss_example 8) = 1" "rp_interest (ks_rpcs loss_example 8) = None"
    "rp_flags (ks_rpcs loss_example 8) = {}" "rp_error (ks_rpcs loss_example 8) = None" "8 \<notin> set (ready_reqs loss_example 1)"
    "wants_response 2" "ready_resps loss_example 1 = [9]" "8 \<notin> set [9 :: rpc_ptr]" "\<forall>j. in_ready_rpc (interest loss_example j) \<noteq> Some 9"
    by (simp_all add: loss_example_def zero_defs homa_find_client_rpc_def chain_find_def homa_client_rpc_bucket_def registered_def
        is_client_even drop_bit_eq_div HOMA_RECVMSG_RESPONSE_def)
  from homa_register_interests_loses [OF inv x, of 23 2 "\<lambda>_. 0" 5] show ?thesis by (auto simp: Let_def)
qed

end
