(* ===== verification/Homa_Buffers.thy ===== *)
theory Homa_Buffers
imports Homa_Pool_Use Homa_Grant_Frame
begin

text \<open>
  Buffer space for RPCs: \<open>homa_pool_allocate\<close>, \<open>set_bpages_needed\<close> and
  \<open>homa_pool_check_waiting\<close> of \<open>homa_pool.c\<close> on the whole state, with the queue
  \<open>hsk->waiting_for_bufs\<close> of RPCs for which no space was found, and
  \<open>homa_message_in_init\<close> of \<open>homa_incoming.c\<close>.
\<close>

section \<open>Operations\<close>

abbreviation waiting :: "kstate \<Rightarrow> sock_ptr \<Rightarrow> rpc_ptr list" where
  "waiting s k \<equiv> hs_waiting_for_bufs (ks_socks s k)"

abbreviation upd_pool :: "sock_ptr \<Rightarrow> (homa_pool \<Rightarrow> homa_pool) \<Rightarrow> kstate \<Rightarrow> kstate" where
  "upd_pool k f \<equiv> upd_sock k (\<lambda>h. h\<lparr>hs_buffer_pool := map_option f (hs_buffer_pool h)\<rparr>)"

abbreviation upd_waiting :: "sock_ptr \<Rightarrow> (rpc_ptr list \<Rightarrow> rpc_ptr list) \<Rightarrow> kstate \<Rightarrow> kstate" where
  "upd_waiting k f \<equiv> upd_sock k (\<lambda>h. h\<lparr>hs_waiting_for_bufs := f (hs_waiting_for_bufs h)\<rparr>)"

definition pages_needed :: "int \<Rightarrow> int" where
  "pages_needed len = (len + HOMA_BPAGE_SIZE - 1) div HOMA_BPAGE_SIZE"

definition set_bpages_needed :: "sock_ptr \<Rightarrow> kstate \<Rightarrow> kstate" where
  "set_bpages_needed k s =
     upd_pool k (\<lambda>pool. pool\<lparr>pl_bpages_needed := pages_needed (mi_length (msgin s (hd (waiting s k))))\<rparr>) s"

text \<open>The code at the label \<open>out_of_space\<close> of \<open>homa_pool_allocate\<close>.\<close>

definition wait_for_space :: "sock_ptr \<Rightarrow> rpc_ptr \<Rightarrow> kstate \<Rightarrow> kstate" where
  "wait_for_space k r s =
     set_bpages_needed k
       (upd_waiting k (insert_before (\<lambda>other. mi_length (msgin s other) > mi_length (msgin s r)) r) s)"

text \<open>
  The first component of the result is the error code.  None stands for executions without a defined
  result (see \<open>allocate_space\<close>), among them those of a socket whose pool is gone.
\<close>

definition homa_pool_allocate ::
  "nat \<Rightarrow> (nat \<Rightarrow> nat) \<Rightarrow> nat \<Rightarrow> rpc_ptr \<Rightarrow> kstate \<Rightarrow> (errno option \<times> kstate) option" where
  "homa_pool_allocate fuel clk core r s =
     (let k = rp_hsk (ks_rpcs s r) in
      case hs_buffer_pool (ks_socks s k) of
        None \<Rightarrow> None
      | Some pool \<Rightarrow>
          if pl_region pool = 0 then Some (Some ENOMEM, s)
          else
            (case allocate_space fuel clk (h_bpage_lease_usecs (ks_homa s)) core pool (msgin s r) of
               None \<Rightarrow> None
             | Some (pool', m, ok) \<Rightarrow>
                 let s = upd_pool k (\<lambda>_. pool') (upd_msgin r (\<lambda>_. m) s)
                 in Some (None, if ok then s else wait_for_space k r s)))"

text \<open>What a call of \<open>homa_pool_check_waiting\<close> finds in its \<open>n\<close>-th last iteration: the clock readings, the
  current core and the time for the grant code; and the fuel of the loops it calls.\<close>

record wait_env =
  we_clk :: "nat \<Rightarrow> nat \<Rightarrow> nat"
  we_core :: "nat \<Rightarrow> nat"
  we_now :: "nat \<Rightarrow> nat"
  we_fuel :: nat
  we_grant_fuel :: nat

text \<open>One iteration for the RPC at the head of the queue.\<close>

definition retry_first :: "wait_env \<Rightarrow> nat \<Rightarrow> sock_ptr \<Rightarrow> kstate \<Rightarrow> kstate option" where
  "retry_first e n k s =
     (let r = hd (waiting s k);
          s = upd_waiting k tl s;
          s = (if waiting s k = [] then upd_pool k (\<lambda>pool. pool\<lparr>pl_bpages_needed := INT_MAX\<rparr>) s
               else set_bpages_needed k s)
      in case homa_pool_allocate (we_fuel e) (we_clk e n) (we_core e n) r s of
           None \<Rightarrow> None
         | Some (_, s) \<Rightarrow>
             if mi_num_bpages (msgin s r) > 0 then
               homa_grant_check_rpc (we_grant_fuel e) (we_now e n) r (upd_msgin r (\<lambda>m. m\<lparr>mi_resend_all := True\<rparr>) s)
             else Some s)"

fun check_waiting :: "wait_env \<Rightarrow> nat \<Rightarrow> sock_ptr \<Rightarrow> kstate \<Rightarrow> kstate option" where
  "check_waiting e 0 k s = None"
| "check_waiting e (Suc n) k s =
     (case hs_buffer_pool (ks_socks s k) of
        None \<Rightarrow> None
      | Some pool \<Rightarrow>
          if pl_free_bpages pool < pl_bpages_needed pool then Some s
          else if waiting s k = [] then Some (upd_pool k (\<lambda>pool. pool\<lparr>pl_bpages_needed := INT_MAX\<rparr>) s)
          else (case retry_first e n k s of None \<Rightarrow> None | Some s \<Rightarrow> check_waiting e n k s))"

definition homa_pool_check_waiting :: "wait_env \<Rightarrow> nat \<Rightarrow> sock_ptr \<Rightarrow> kstate \<Rightarrow> kstate option" where
  "homa_pool_check_waiting e n k s =
     (case hs_buffer_pool (ks_socks s k) of
        None \<Rightarrow> None
      | Some pool \<Rightarrow> if pl_region pool = 0 then Some s else check_waiting e n k s)"

definition homa_message_in_init ::
  "nat \<Rightarrow> (nat \<Rightarrow> nat) \<Rightarrow> nat \<Rightarrow> rpc_ptr \<Rightarrow> int \<Rightarrow> int \<Rightarrow> kstate \<Rightarrow> (errno option \<times> kstate) option" where
  "homa_message_in_init fuel clk core r len unsched s =
     (case homa_pool_allocate fuel clk core r (upd_msgin r (\<lambda>m. message_in_fields m len unsched) s) of
        None \<Rightarrow> None
      | Some (Some err, s) \<Rightarrow> Some (Some err, s)
      | Some (None, s) \<Rightarrow>
          Some (None, if mi_num_bpages (msgin s r) = 0 then upd_msgin r (\<lambda>m. m\<lparr>mi_granted := 0\<rparr>) s else s))"

section \<open>The result of an allocation\<close>

lemma get_pages_fail:
  "homa_pool_get_pages fuel cl cap pool n = Some (pool', None) \<Longrightarrow> pool' = pool \<and> pl_free_bpages pool < n"
  by (auto simp: homa_pool_get_pages_def split: if_splits)

lemma release_loop_free: "pl_free_bpages (fst (release_loop pool offs bad)) \<le> pl_free_bpages pool + int (length offs)"
proof (induction offs arbitrary: pool bad)
  case (Cons off offs)
  have "pl_free_bpages (release_bpage pool p) \<le> pl_free_bpages pool + 1" for p
    by (simp add: release_bpage_def Let_def)
  from this [of "nat (off div HOMA_BPAGE_SIZE)"] Cons.IH [of "release_bpage pool (nat (off div HOMA_BPAGE_SIZE))" bad]
    Cons.IH [of pool True] show ?case by (auto simp: Let_def)
qed simp

lemma release_buffers_free:
  "pl_free_bpages (fst (homa_pool_release_buffers pool offs)) \<le> pl_free_bpages pool + int (length offs)"
  using release_loop_free [of pool offs False]
  by (simp add: homa_pool_release_buffers_def Let_def case_prod_beta)

lemma use_own_page_free: "use_own_page core now lease partial pool = (pool', own) \<Longrightarrow> pl_free_bpages pool' = pl_free_bpages pool"
  by (auto simp: use_own_page_def Let_def split: if_splits)

lemma allocate_partial_fail:
  assumes "allocate_partial fuel clk lease core partial pool m = Some (pool', m', False)" and "0 \<le> mi_num_bpages m"
  shows "pl_free_bpages pool' \<le> mi_num_bpages m" and "m' = m\<lparr>mi_num_bpages := 0\<rparr>"
proof -
  obtain pool1 own where use: "use_own_page core (clk 1) lease partial pool = (pool1, own)" by fastforce
  obtain pool2 where get: "homa_pool_get_pages fuel \<lparr>cl_core = core, cl_now = clk 2, cl_lease_usecs = lease, cl_set_owner = True\<rparr>
       HOMA_MAX_BPAGES pool1 1 = Some (pool2, None)"
    and pool': "pool' = fst (homa_pool_release_buffers pool2 (take (nat (mi_num_bpages m)) (mi_bpage_offsets m)))"
    and m': "m' = m\<lparr>mi_num_bpages := 0\<rparr>"
    using assms(1) use by (auto simp: allocate_partial_def Let_def case_prod_beta split: bool.splits option.splits)
  show "m' = m\<lparr>mi_num_bpages := 0\<rparr>" by (rule m')
  show "pl_free_bpages pool' \<le> mi_num_bpages m"
    using get_pages_fail [OF get] assms(2)
      release_buffers_free [of pool2 "take (nat (mi_num_bpages m)) (mi_bpage_offsets m)"] by (simp add: pool' min_def split: if_splits)
qed

text \<open>An allocation that fails leaves fewer free pages than the message needs.\<close>

lemma allocate_space_fail:
  assumes "allocate_space fuel clk lease core pool m = Some (pool', m', False)" and "0 \<le> mi_length m"
  shows "pl_free_bpages pool' < pages_needed (mi_length m)"
proof -
  have S: "0 < HOMA_BPAGE_SIZE" by (simp add: HOMA_BPAGE_SIZE_def)
  note need = ceil_div [OF S, of "mi_length m", folded pages_needed_def]
  have full: "0 \<le> mi_length m div HOMA_BPAGE_SIZE" using assms(2) S by (simp add: pos_imp_zdiv_nonneg_iff)
  show ?thesis
    using assms(1) full
    by (auto simp: allocate_space_def Let_def need dest!: get_pages_fail allocate_partial_fail(1)
        split: if_splits option.splits)
qed

text \<open>Only the fields on bpages change.\<close>

definition bpage_free :: "homa_message_in \<Rightarrow> homa_message_in" where
  "bpage_free m = m\<lparr>mi_num_bpages := 0, mi_bpage_offsets := []\<rparr>"

lemma bpage_free_upd [simp]:
  "bpage_free (m\<lparr>mi_num_bpages := n\<rparr>) = bpage_free m" "bpage_free (m\<lparr>mi_bpage_offsets := offs\<rparr>) = bpage_free m"
  by (simp_all add: bpage_free_def)

lemma cut_partial_fields: "cut_partial core partial pool m = Some (pool', m') \<Longrightarrow> bpage_free m' = bpage_free m"
  by (auto simp: cut_partial_def store_offset_def Let_def split: if_splits)

lemma allocate_partial_fields:
  assumes "allocate_partial fuel clk lease core partial pool m = Some (pool', m', ok)"
  shows "bpage_free m' = bpage_free m"
  using assms
  by (auto simp: allocate_partial_def Let_def dest: cut_partial_fields split: bool.splits option.splits prod.splits)

lemma allocate_space_fields:
  assumes "allocate_space fuel clk lease core pool m = Some (pool', m', ok)"
  shows "bpage_free m' = bpage_free m"
  using assms
  by (auto simp: allocate_space_def Let_def dest!: allocate_partial_fields split: if_splits option.splits)

lemma bpage_free_sel:
  assumes "bpage_free m' = bpage_free m"
  shows "mi_length m' = mi_length m" "mi_rec_incoming m' = mi_rec_incoming m" "mi_granted m' = mi_granted m"
    "mi_bytes_remaining m' = mi_bytes_remaining m" "mi_rank m' = mi_rank m" "mi_packets m' = mi_packets m"
    "mi_gaps m' = mi_gaps m" "mi_recv_end m' = mi_recv_end m"
  using assms by (cases m; cases m'; simp add: bpage_free_def)+

text \<open>
  The view of the other components: the state without the bpages of the messages, the pools and the queues.
\<close>

definition sock_bufs_free :: "homa_sock \<Rightarrow> homa_sock" where
  "sock_bufs_free h = h\<lparr>hs_buffer_pool := None, hs_waiting_for_bufs := []\<rparr>"

definition rpc_bufs_free :: "homa_rpc \<Rightarrow> homa_rpc" where
  "rpc_bufs_free rpc = rpc\<lparr>rp_msgin := bpage_free (rp_msgin rpc)\<rparr>"

definition buf_view :: "kstate \<Rightarrow> kstate" where
  "buf_view s = s\<lparr>ks_socks := sock_bufs_free \<circ> ks_socks s, ks_rpcs := rpc_bufs_free \<circ> ks_rpcs s\<rparr>"

lemma buf_view_sock: "(\<And>h. sock_bufs_free (f h) = sock_bufs_free h) \<Longrightarrow> buf_view (upd_sock k f s) = buf_view s"
  by (simp add: buf_view_def upd_sock_def fun_eq_iff)

lemma buf_view_msgin: "bpage_free m = bpage_free (msgin s r) \<Longrightarrow> buf_view (upd_msgin r (\<lambda>_. m) s) = buf_view s"
  by (simp add: buf_view_def upd_rpc_def fun_eq_iff rpc_bufs_free_def)

lemma sock_bufs_free_upd:
  "sock_bufs_free (h\<lparr>hs_buffer_pool := p\<rparr>) = sock_bufs_free h"
  "sock_bufs_free (h\<lparr>hs_waiting_for_bufs := q\<rparr>) = sock_bufs_free h"
  by (simp_all add: sock_bufs_free_def)

lemmas buf_views = buf_view_sock buf_view_msgin sock_bufs_free_upd

lemma wait_for_space_frame:
  "buf_view (wait_for_space k r s) = buf_view s" "ks_rpcs (wait_for_space k r s) = ks_rpcs s"
  "j \<noteq> k \<Longrightarrow> ks_socks (wait_for_space k r s) j = ks_socks s j"
  by (simp add: wait_for_space_def set_bpages_needed_def buf_views del: upd_sock_sel)
    (simp_all add: wait_for_space_def set_bpages_needed_def)

lemma allocate_frame:
  assumes "homa_pool_allocate fuel clk core r s = Some (err, s')"
  shows "buf_view s' = buf_view s" and "x \<noteq> r \<Longrightarrow> ks_rpcs s' x = ks_rpcs s x"
    and "j \<noteq> rp_hsk (ks_rpcs s r) \<Longrightarrow> ks_socks s' j = ks_socks s j"
proof -
  let ?k = "rp_hsk (ks_rpcs s r)"
  consider "s' = s" | pool m where "bpage_free m = bpage_free (msgin s r)"
      "s' = upd_pool ?k (\<lambda>_. pool) (upd_msgin r (\<lambda>_. m) s) \<or>
       s' = wait_for_space ?k r (upd_pool ?k (\<lambda>_. pool) (upd_msgin r (\<lambda>_. m) s))"
  proof (cases "s' = s")
    case False
    from assms False obtain pool0 pool m ok
      where a: "allocate_space fuel clk (h_bpage_lease_usecs (ks_homa s)) core pool0 (msgin s r) = Some (pool, m, ok)"
        and "s' = (let s1 = upd_pool ?k (\<lambda>_. pool) (upd_msgin r (\<lambda>_. m) s) in if ok then s1 else wait_for_space ?k r s1)"
      by (auto simp: homa_pool_allocate_def Let_def split: option.splits if_splits)
    then show thesis using that(2) [OF allocate_space_fields [OF a], of pool] by (cases ok) (simp_all add: Let_def)
  qed (rule that(1))
  then have "buf_view s' = buf_view s \<and> (x \<noteq> r \<longrightarrow> ks_rpcs s' x = ks_rpcs s x) \<and> (j \<noteq> ?k \<longrightarrow> ks_socks s' j = ks_socks s j)"
  proof cases
    case 2
    then have "buf_view (upd_pool ?k (\<lambda>_. pool) (upd_msgin r (\<lambda>_. m) s)) = buf_view s"
      by (simp add: buf_views del: upd_sock_sel upd_rpc_sel)
    then show ?thesis using 2(2) by (auto simp: wait_for_space_frame)
  qed simp
  then show "buf_view s' = buf_view s" and "x \<noteq> r \<Longrightarrow> ks_rpcs s' x = ks_rpcs s x"
    and "j \<noteq> ?k \<Longrightarrow> ks_socks s' j = ks_socks s j" by simp_all
qed

lemma buf_view_rpc:
  assumes "buf_view s' = buf_view s"
  shows "rpc_bufs_free (ks_rpcs s' x) = rpc_bufs_free (ks_rpcs s x)"
    and "bpage_free (msgin s' x) = bpage_free (msgin s x)" and "rp_hsk (ks_rpcs s' x) = rp_hsk (ks_rpcs s x)"
    and "rp_peer (ks_rpcs s' x) = rp_peer (ks_rpcs s x)"
    and "ks_homa s' = ks_homa s" and "ks_peers s' = ks_peers s"
proof -
  show x: "rpc_bufs_free (ks_rpcs s' x) = rpc_bufs_free (ks_rpcs s x)"
    using arg_cong [OF assms, of "\<lambda>t. ks_rpcs t x"] by (simp add: buf_view_def)
  show "bpage_free (msgin s' x) = bpage_free (msgin s x)" "rp_hsk (ks_rpcs s' x) = rp_hsk (ks_rpcs s x)"
    "rp_peer (ks_rpcs s' x) = rp_peer (ks_rpcs s x)"
    using arg_cong [OF x, of rp_msgin] arg_cong [OF x, of rp_hsk] arg_cong [OF x, of rp_peer]
    by (simp_all add: rpc_bufs_free_def)
  show "ks_homa s' = ks_homa s" "ks_peers s' = ks_peers s"
    using arg_cong [OF assms, of ks_homa] arg_cong [OF assms, of ks_peers] by (simp_all add: buf_view_def)
qed

lemma buf_view_grant_inv:
  assumes "buf_view s' = buf_view s"
  shows "grant_inv R s' = grant_inv R s"
proof -
  note same = buf_view_rpc [OF assms]
  have "grant_links s' = grant_links s" "grantable_set s' = grantable_set s"
    by (rule grant_links_cong; simp add: same)+
  moreover have "accounted R s' = accounted R s"
    by (rule accounted_cong) (simp_all add: same bpage_free_sel(2) [OF same(2)])
  ultimately show ?thesis by (simp add: grant_inv_def)
qed

section \<open>The queue\<close>

definition shorter :: "kstate \<Rightarrow> rpc_ptr \<Rightarrow> rpc_ptr \<Rightarrow> bool" where
  "shorter s a b \<longleftrightarrow> mi_length (msgin s a) < mi_length (msgin s b)"

interpretation wait_rank: rank_order "shorter s" for s
  unfolding shorter_def by (rule rank_order_key)

definition legal_waiter :: "kstate \<Rightarrow> sock_ptr \<Rightarrow> rpc_ptr \<Rightarrow> bool" where
  "legal_waiter s k r \<longleftrightarrow> rp_hsk (ks_rpcs s r) = k \<and> 0 < mi_length (msgin s r) \<and>
     mi_length (msgin s r) \<le> HOMA_MAX_MESSAGE_LENGTH \<and> mi_num_bpages (msgin s r) = 0"

abbreviation the_pool :: "kstate \<Rightarrow> sock_ptr \<Rightarrow> homa_pool" where
  "the_pool s k \<equiv> the (hs_buffer_pool (ks_socks s k))"

abbreviation usable_pool :: "homa_pool \<Rightarrow> bool" where
  "usable_pool pool \<equiv> pl_region pool \<noteq> 0 \<and> addressable pool"

text \<open>The socket has a pool of at most 4 GB whose invariant holds with the buffers \<open>B\<close> in use, and a queue of RPCs without space,
  shortest message first; \<open>bpages_needed\<close> is not larger than what the first of them needs.\<close>

definition queue_ok :: "sock_ptr \<Rightarrow> kstate \<Rightarrow> bool" where
  "queue_ok k s \<longleftrightarrow> distinct (waiting s k) \<and> ranked (shorter s) (waiting s k) \<and>
     (\<forall>r \<in> set (waiting s k). legal_waiter s k r) \<and>
     (waiting s k \<noteq> [] \<longrightarrow> pl_bpages_needed (the_pool s k) \<le> pages_needed (mi_length (msgin s (hd (waiting s k)))))"

definition buffers_inv :: "sock_ptr \<Rightarrow> buf set \<Rightarrow> kstate \<Rightarrow> bool" where
  "buffers_inv k B s \<longleftrightarrow> hs_buffer_pool (ks_socks s k) \<noteq> None \<and> usable_pool (the_pool s k) \<and>
     pool_inv (the_pool s k) B \<and> queue_ok k s"

lemma queue_okI:
  assumes "distinct (waiting s' k)" "ranked (shorter s) (waiting s' k)"
    and "\<And>r. r \<in> set (waiting s' k) \<Longrightarrow> legal_waiter s' k r"
    and "waiting s' k \<noteq> [] \<Longrightarrow> pl_bpages_needed (the_pool s' k) \<le> pages_needed (mi_length (msgin s (hd (waiting s' k))))"
    and "\<And>r. mi_length (msgin s' r) = mi_length (msgin s r)"
  shows "queue_ok k s'"
proof -
  have "ranked (shorter s') (waiting s' k) = ranked (shorter s) (waiting s' k)"
    by (rule ranked_cong) (simp add: shorter_def assms(5))
  then show ?thesis using assms by (simp add: queue_ok_def)
qed

lemma pool_inv_needed [simp]:
  "pool_inv (pool\<lparr>pl_bpages_needed := n\<rparr>) B = pool_inv pool B" "addressable (pool\<lparr>pl_bpages_needed := n\<rparr>) = addressable pool"
  by (simp_all add: pool_inv_def counts_ok_def refs_ok_def cores_ok_def owned_by_def addressable_def)

lemma wait_for_space_effect:
  assumes "hs_buffer_pool (ks_socks s k) = Some pool"
  shows "waiting (wait_for_space k r s) k = insert_before (shorter s r) r (waiting s k)"
    and "hs_buffer_pool (ks_socks (wait_for_space k r s) k) =
      Some (pool\<lparr>pl_bpages_needed := pages_needed (mi_length (msgin s (hd (insert_before (shorter s r) r (waiting s k)))))\<rparr>)"
proof -
  have "shorter s r = (\<lambda>other. mi_length (msgin s r) < mi_length (msgin s other))"
    by (simp add: shorter_def fun_eq_iff)
  then show "waiting (wait_for_space k r s) k = insert_before (shorter s r) r (waiting s k)"
    "hs_buffer_pool (ks_socks (wait_for_space k r s) k) =
      Some (pool\<lparr>pl_bpages_needed := pages_needed (mi_length (msgin s (hd (insert_before (shorter s r) r (waiting s k)))))\<rparr>)"
    using assms by (simp_all add: wait_for_space_def set_bpages_needed_def)
qed

lemma wait_for_space_inv:
  assumes "buffers_inv k B s" and "legal_waiter s k r" and "r \<notin> set (waiting s k)"
  shows "buffers_inv k B (wait_for_space k r s)"
proof -
  obtain pool where pool: "hs_buffer_pool (ks_socks s k) = Some pool" using assms(1) by (auto simp: buffers_inv_def)
  note q = assms(1) [unfolded buffers_inv_def queue_ok_def, THEN conjunct2, THEN conjunct2, THEN conjunct2]
  have "queue_ok k (wait_for_space k r s)"
  proof (rule queue_okI [where s = s])
    show "ranked (shorter s) (waiting (wait_for_space k r s) k)"
      unfolding wait_for_space_effect [OF pool] by (rule wait_rank.insert_ranked) (use q in blast)
  qed (use q assms(2,3) in \<open>auto simp: wait_for_space_effect [OF pool] wait_for_space_frame legal_waiter_def\<close>)
  then show ?thesis using assms(1) by (simp add: buffers_inv_def wait_for_space_effect [OF pool] pool)
qed

text \<open>What an allocation for an RPC that is not in the queue does.\<close>

lemma homa_pool_allocate_result:
  assumes inv: "buffers_inv k B s" and r: "legal_waiter s k r" "r \<notin> set (waiting s k)"
    and core: "core < length (pl_cores (the_pool s k))" and fuel: "get_pages_fuel (the_pool s k) HOMA_MAX_BPAGES \<le> fuel"
  obtains (space) s' where "homa_pool_allocate fuel clk core r s = Some (None, s')"
      "waiting s' k = waiting s k" "has_space (the_pool s' k) (msgin s' r)" "0 < mi_num_bpages (msgin s' r)"
      "set (msg_bufs (msgin s' r)) \<inter> B = {}" "buffers_inv k (set (msg_bufs (msgin s' r)) \<union> B) s'"
      "pool_shape (the_pool s' k) = pool_shape (the_pool s k)"
    | (queued) s' n where "homa_pool_allocate fuel clk core r s = Some (None, s')"
      "waiting s' k = insert_before (shorter s r) r (waiting s k)" "mi_num_bpages (msgin s' r) = 0" "buffers_inv k B s'"
      "pl_free_bpages (the_pool s' k) < pages_needed (mi_length (msgin s r))"
      "pl_bpages_needed (the_pool s' k) = pages_needed (mi_length (msgin s (hd (waiting s' k))))"
      "pool_shape (the_pool s' k) = pool_shape ((the_pool s k)\<lparr>pl_bpages_needed := n\<rparr>)"
proof -
  let ?lease = "h_bpage_lease_usecs (ks_homa s)"
  have r': "rp_hsk (ks_rpcs s r) = k" "0 < mi_length (msgin s r)" "mi_length (msgin s r) \<le> HOMA_MAX_MESSAGE_LENGTH"
    "mi_num_bpages (msgin s r) = 0" using r(1) by (simp_all add: legal_waiter_def)
  obtain pool where pool: "hs_buffer_pool (ks_socks s k) = Some pool" "pl_region pool \<noteq> 0" "pool_inv pool B" "queue_ok k s"
      "addressable pool"
    using inv by (auto simp: buffers_inv_def)
  have tp: "the_pool s k = pool" using pool(1) by simp
  obtain pool' m ok where a: "allocate_space fuel clk ?lease core pool (msgin s r) = Some (pool', m, ok)"
    and len: "mi_length m = mi_length (msgin s r)"
    and res: "if ok then has_space pool' m \<and> set (msg_bufs m) \<inter> B = {} \<and> pool_inv pool' (set (msg_bufs m) \<union> B)
     else pool_inv pool' B \<and> mi_num_bpages m = 0 \<and> pl_free_bpages pool < (mi_length (msgin s r) + HOMA_BPAGE_SIZE - 1) div HOMA_BPAGE_SIZE"
    using allocate_space_result [OF pool(3,2) core [unfolded tp] r'(2,3) fuel [unfolded tp] r'(4) pool(5), of clk ?lease] by auto
  define s1 where "s1 = upd_pool k (\<lambda>_. pool') (upd_msgin r (\<lambda>_. m) s)"
  have s1: "waiting s1 k = waiting s k" "hs_buffer_pool (ks_socks s1 k) = Some pool'" "msgin s1 r = m"
    using pool(1) by (auto simp: s1_def)
  note shape = allocate_space_shape [OF a]
  have run: "homa_pool_allocate fuel clk core r s = Some (None, if ok then s1 else wait_for_space k r s1)"
    using pool a r'(1) by (simp add: homa_pool_allocate_def s1_def)
  have lens: "mi_length (msgin s1 x) = mi_length (msgin s x)" for x using len by (simp add: s1_def)
  have "queue_ok k s1"
    by (rule queue_okI [where s = s]) (use pool(1,4) lens s1(1,2) shape r(2) in \<open>auto simp: queue_ok_def legal_waiter_def s1_def\<close>)
  moreover have "addressable pool'" using pool(5) shape by (simp add: addressable_def)
  ultimately have inv1: "buffers_inv k (if ok then set (msg_bufs m) \<union> B else B) s1"
    using res pool(2) shape s1(2) by (simp add: buffers_inv_def split: if_splits)
  show thesis
  proof (cases ok)
    case True
    have "mi_num_bpages m = pages_needed (mi_length (msgin s r))"
      using res True len by (simp add: has_space_def pages_needed_def)
    then have "0 < mi_num_bpages m"
      using r'(2) by (simp add: pages_needed_def HOMA_BPAGE_SIZE_def pos_imp_zdiv_pos_iff)
    then show thesis by (intro space [of s1]) (use run True res s1 inv1 shape tp in simp_all)
  next
    case False
    let ?s2 = "wait_for_space k r s1"
    have sh: "shorter s1 r = shorter s r" using lens by (simp add: shorter_def fun_eq_iff)
    note w = wait_for_space_effect [OF s1(2), of r, unfolded sh s1(1)]
    have legal: "legal_waiter s1 k r" using False res r' len by (simp add: legal_waiter_def s1_def)
    have "buffers_inv k B ?s2" using wait_for_space_inv [OF _ legal] inv1 False r(2) s1(1) by simp
    moreover have "pl_free_bpages pool' < pages_needed (mi_length (msgin s r))"
      using allocate_space_fail [OF a [unfolded eq_False [THEN iffD2, OF False]]] r'(2) by simp
    ultimately show thesis
      by (intro queued [of ?s2 "pl_bpages_needed (the_pool ?s2 k)"])
        (use run False res s1(3) shape lens tp in \<open>simp_all add: w wait_for_space_frame\<close>)
  qed
qed

section \<open>Serving the queue\<close>

abbreviation bpages :: "homa_message_in \<Rightarrow> int \<times> int list" where
  "bpages m \<equiv> (mi_num_bpages m, mi_bpage_offsets m)"

lemma same_bpages:
  assumes "mi_length m' = mi_length m" and "bpages m' = bpages m"
  shows "msg_bufs m' = msg_bufs m" and "has_space pool' m' = has_space pool m"
proof -
  have "chunk_size m' = chunk_size m" using assms(1) by (simp add: chunk_size_def fun_eq_iff)
  then show b: "msg_bufs m' = msg_bufs m" using assms(2) by (simp add: msg_bufs_def)
  show "has_space pool' m' = has_space pool m" using assms b by (simp add: has_space_def)
qed

abbreviation pool_dims :: "homa_pool \<Rightarrow> nat \<times> nat \<times> nat" where
  "pool_dims pool \<equiv> (pl_region pool, length (pl_descriptors pool), length (pl_cores pool))"

text \<open>Taking the first RPC off the queue.\<close>

definition take_first :: "sock_ptr \<Rightarrow> kstate \<Rightarrow> kstate" where
  "take_first k s = (let s = upd_waiting k tl s in
     if waiting s k = [] then upd_pool k (\<lambda>pool. pool\<lparr>pl_bpages_needed := INT_MAX\<rparr>) s else set_bpages_needed k s)"

lemma take_first_effect:
  assumes "buffers_inv k B s" and "waiting s k = r # rest"
  shows "waiting (take_first k s) k = rest" "ks_rpcs (take_first k s) = ks_rpcs s"
    "buf_view (take_first k s) = buf_view s" "pool_dims (the_pool (take_first k s) k) = pool_dims (the_pool s k)"
    "buffers_inv k B (take_first k s)"
proof -
  obtain pool where pool: "hs_buffer_pool (ks_socks s k) = Some pool" "pl_region pool \<noteq> 0" "pool_inv pool B" "queue_ok k s"
      "addressable pool"
    using assms(1) by (auto simp: buffers_inv_def)
  show w: "waiting (take_first k s) k = rest" and r: "ks_rpcs (take_first k s) = ks_rpcs s"
    and d: "pool_dims (the_pool (take_first k s) k) = pool_dims (the_pool s k)"
    using assms(2) pool(1) by (simp_all add: take_first_def Let_def set_bpages_needed_def)
  show "buf_view (take_first k s) = buf_view s"
    unfolding take_first_def Let_def set_bpages_needed_def by (simp add: buf_views del: upd_sock_sel)
  have p: "hs_buffer_pool (ks_socks (take_first k s) k) = Some (pool\<lparr>pl_bpages_needed :=
      if rest = [] then INT_MAX else pages_needed (mi_length (msgin s (hd rest)))\<rparr>)"
    using assms(2) pool(1) by (simp add: take_first_def Let_def set_bpages_needed_def)
  have "queue_ok k (take_first k s)"
    by (rule queue_okI [where s = s]) (use pool(4) assms(2) in \<open>auto simp: queue_ok_def w r p legal_waiter_def\<close>)
  then show "buffers_inv k B (take_first k s)" using p pool(2,3,5) by (simp add: buffers_inv_def)
qed

lemma retry_first_eq:
  "retry_first e n k s = (case homa_pool_allocate (we_fuel e) (we_clk e n) (we_core e n) (hd (waiting s k)) (take_first k s) of
     None \<Rightarrow> None
   | Some (_, s') \<Rightarrow>
       let r = hd (waiting s k) in
       if mi_num_bpages (msgin s' r) > 0 then
         homa_grant_check_rpc (we_grant_fuel e) (we_now e n) r (upd_msgin r (\<lambda>m. m\<lparr>mi_resend_all := True\<rparr>) s')
       else Some s')"
  unfolding retry_first_def take_first_def Let_def by (rule refl)

text \<open>What one iteration leaves alone.\<close>

definition retry_frame :: "sock_ptr \<Rightarrow> rpc_ptr \<Rightarrow> kstate \<Rightarrow> kstate \<Rightarrow> bool" where
  "retry_frame k r s s' \<longleftrightarrow> buf_view (grant_view s') = buf_view (grant_view s) \<and>
     pool_dims (the_pool s' k) = pool_dims (the_pool s k) \<and>
     (\<forall>x. mi_length (msgin s' x) = mi_length (msgin s x) \<and> (x \<noteq> r \<longrightarrow> bpages (msgin s' x) = bpages (msgin s x)))"

lemma view_commute: "buf_view (grant_view s) = grant_view (buf_view s)"
proof -
  have "bpage_free (msgin_view m) = msgin_view (bpage_free m)" for m by (simp add: bpage_free_def msgin_view_def)
  then show ?thesis by (simp add: buf_view_def grant_view_def fun_eq_iff rpc_bufs_free_def rpc_view_def)
qed

lemma retry_frame_overcommit:
  assumes "retry_frame k r s s'"
  shows "overcommit_ok (ks_homa s') = overcommit_ok (ks_homa s)"
proof -
  have "buf_view (grant_view s') = buf_view (grant_view s)" using assms by (simp only: retry_frame_def)
  from arg_cong [OF this, of ks_homa] have "homa_view (ks_homa s') = homa_view (ks_homa s)"
    by (simp add: buf_view_def grant_view_def)
  from arg_cong [OF this, of h_max_overcommit] show ?thesis by (simp add: homa_view_def overcommit_ok_def)
qed

lemma first_waiter_length:
  assumes "\<forall>y \<in> set rest. \<not> shorter s y r"
  shows "mi_length (msgin s (hd (insert_before (shorter s r) r rest))) = mi_length (msgin s r)"
  using assms by (cases rest) (auto simp: shorter_def)

lemma retry_first_result:
  assumes inv: "buffers_inv k B s" and w: "waiting s k = r # rest"
    and core: "we_core e n < length (pl_cores (the_pool s k))"
    and fuel: "get_pages_fuel (the_pool s k) HOMA_MAX_BPAGES \<le> we_fuel e"
    and grant: "finite R" "r \<in> R" "grant_inv R s" "2 * card R < we_grant_fuel e" "overcommit_ok (ks_homa s)"
  obtains (served) s' where "retry_first e n k s = Some s'" "waiting s' k = rest" "retry_frame k r s s'" "grant_inv R s'"
      "has_space (the_pool s' k) (msgin s' r)" "set (msg_bufs (msgin s' r)) \<inter> B = {}"
      "buffers_inv k (set (msg_bufs (msgin s' r)) \<union> B) s'"
    | (requeued) s' where "retry_first e n k s = Some s'" "mset (waiting s' k) = mset (waiting s k)" "retry_frame k r s s'"
      "grant_inv R s'" "buffers_inv k B s'" "pl_free_bpages (the_pool s' k) < pl_bpages_needed (the_pool s' k)"
proof -
  define s1 where "s1 = take_first k s"
  note t = take_first_effect [OF inv w, folded s1_def]
  note q = inv [unfolded buffers_inv_def queue_ok_def w, THEN conjunct2, THEN conjunct2, THEN conjunct2]
  have r: "legal_waiter s1 k r" "r \<notin> set (waiting s1 k)" using q t(1,2) by (simp_all add: legal_waiter_def)
  have hsk: "rp_hsk (ks_rpcs s1 r) = k" using r(1) by (simp add: legal_waiter_def)
  have core1: "we_core e n < length (pl_cores (the_pool s1 k))"
    and fuel1: "get_pages_fuel (the_pool s1 k) HOMA_MAX_BPAGES \<le> we_fuel e"
    using core fuel t(4) by (simp_all add: get_pages_fuel_def)
  note frame = allocate_frame [where r = r and s = s1]
  show thesis
  proof (cases rule: homa_pool_allocate_result [OF t(5) r core1 fuel1, of "we_clk e n"])
    case space: (1 s2)
    define s3 where "s3 = upd_msgin r (\<lambda>m. m\<lparr>mi_resend_all := True\<rparr>) s2"
    have s3: "grant_view s3 = grant_view s2" "ks_socks s3 = ks_socks s2"
      by (simp_all add: s3_def grant_view_rpc view_upd)
    have "grant_inv R s2" using buf_view_grant_inv [OF frame(1) [OF space(1)]] buf_view_grant_inv [OF t(3)] grant(3) by simp
    then have "grant_inv R s3"
      using grant_links_cong [of s3 s2] accounted_cong [of s3 s2 R] by (simp add: grant_inv_def s3_def)
    moreover have ov: "overcommit_ok (ks_homa s3)"
      using buf_view_rpc(5) [OF frame(1) [OF space(1)]] buf_view_rpc(5) [OF t(3)] grant(5) by (simp add: s3_def)
    ultimately obtain s' where s': "homa_grant_check_rpc (we_grant_fuel e) (we_now e n) r s3 = Some s'" "grant_inv R s'"
      using check_rpc_result [OF grant(1,2) _ grant(4)] ov by blast
    have v: "grant_view s' = grant_view s2" using check_rpc_view [OF s'(1)] s3(1) by simp
    note sv = same_view [OF v] same_rpc_view [OF same_view(7) [OF v]]
    have len: "mi_length (msgin s' x) = mi_length (msgin s x)" for x
      using sv(20) bpage_free_sel(1) [OF buf_view_rpc(2) [OF frame(1) [OF space(1)]]] t(2) by simp
    have "bpages (msgin s' x) = bpages (msgin s x)" if "x \<noteq> r" for x
      using sv frame(2) [OF space(1) that] t(2) by simp
    moreover have "buf_view (grant_view s') = buf_view (grant_view s)"
      using v frame(1) [OF space(1)] t(3) by (simp add: view_commute)
    ultimately have fr: "retry_frame k r s s'"
      using len sv(1) space(7) t(4) by (simp add: retry_frame_def)
    have bufs: "msg_bufs (msgin s' r) = msg_bufs (msgin s2 r)" "has_space (the_pool s' k) (msgin s' r)"
      using same_bpages(1) [of "msgin s' r" "msgin s2 r"] same_bpages(2) [of "msgin s' r" "msgin s2 r" "the_pool s' k" "the_pool s2 k"]
        sv space(3) by simp_all
    have "shorter s' = shorter s2" using sv(20) by (simp add: shorter_def fun_eq_iff)
    then have "queue_ok k s' = queue_ok k s2" using sv by (simp add: queue_ok_def legal_waiter_def)
    then have "buffers_inv k (set (msg_bufs (msgin s' r)) \<union> B) s'" using space(6) sv(1) bufs(1) by (simp add: buffers_inv_def)
    moreover have "retry_first e n k s = Some s'" using space(1,4) s' w by (simp add: retry_first_eq s1_def s3_def)
    ultimately show thesis using served [of s'] fr s'(2) bufs space(2,5) sv(1) t(1) by simp
  next
    case queued: (2 s2 m)
    have rest: "\<forall>y \<in> set rest. \<not> shorter s1 y r" using q t(2) by (simp add: shorter_def)
    have "retry_first e n k s = Some s2" using queued(1,3) w by (simp add: retry_first_eq s1_def)
    moreover have "mset (waiting s2 k) = mset (waiting s k)" using queued(2) w t(1) by (simp add: insert_before_mset)
    moreover have "retry_frame k r s s2"
      using frame(1,2) [OF queued(1)] t(2,3,4) queued(7) bpage_free_sel(1) [OF buf_view_rpc(2) [OF frame(1) [OF queued(1)]]]
      by (simp add: retry_frame_def view_commute)
    moreover have "grant_inv R s2"
      using buf_view_grant_inv [OF frame(1) [OF queued(1)]] buf_view_grant_inv [OF t(3)] grant(3) by simp
    ultimately show thesis
      using requeued [of s2] queued(2,4,5,6) t(1) first_waiter_length [OF rest] by simp
  qed
qed

text \<open>Messages that were given space one after the other while the buffers \<open>B\<close> were in use.\<close>

fun placed :: "homa_pool \<Rightarrow> buf set \<Rightarrow> homa_message_in list \<Rightarrow> bool" where
  "placed pool B [] = True"
| "placed pool B (m # ms) \<longleftrightarrow>
     has_space pool m \<and> set (msg_bufs m) \<inter> B = {} \<and> placed pool (set (msg_bufs m) \<union> B) ms"

definition bufs_of :: "homa_message_in list \<Rightarrow> buf set" where
  "bufs_of ms = \<Union> (set (map (set \<circ> msg_bufs) ms))"

definition served_state :: "sock_ptr \<Rightarrow> buf set \<Rightarrow> kstate \<Rightarrow> rpc_ptr list \<Rightarrow> kstate \<Rightarrow> bool" where
  "served_state k B s served s' \<longleftrightarrow>
     mset (waiting s k) = mset served + mset (waiting s' k) \<and>
     placed (the_pool s' k) B (map (msgin s') served) \<and>
     buffers_inv k (bufs_of (map (msgin s') served) \<union> B) s' \<and>
     (\<forall>a \<in> set served. \<forall>b \<in> set (waiting s' k). mi_length (msgin s a) \<le> mi_length (msgin s b)) \<and>
     (waiting s' k \<noteq> [] \<longrightarrow> pl_free_bpages (the_pool s' k) < pages_needed (mi_length (msgin s (hd (waiting s' k))))) \<and>
     (\<forall>x. mi_length (msgin s' x) = mi_length (msgin s x) \<and> (x \<notin> set (waiting s k) \<longrightarrow> bpages (msgin s' x) = bpages (msgin s x)))"

lemma served_nothing:
  assumes "buffers_inv k B s'" and "mset (waiting s' k) = mset (waiting s k)"
    and "waiting s' k \<noteq> [] \<Longrightarrow> pl_free_bpages (the_pool s' k) < pl_bpages_needed (the_pool s' k)"
    and "\<And>x. mi_length (msgin s' x) = mi_length (msgin s x)" and "\<And>x. x \<notin> set (waiting s k) \<Longrightarrow> bpages (msgin s' x) = bpages (msgin s x)"
  shows "served_state k B s [] s'"
  using assms by (auto simp: served_state_def bufs_of_def buffers_inv_def queue_ok_def)

lemma served_one:
  assumes "waiting s k = r # waiting s1 k" and "buffers_inv k B s"
    and "has_space pool (msgin s1 r)" and "set (msg_bufs (msgin s1 r)) \<inter> B = {}"
    and "retry_frame k r s s1" and "served_state k (set (msg_bufs (msgin s1 r)) \<union> B) s1 served s'"
  shows "served_state k B s (r # served) s'"
proof -
  let ?B = "set (msg_bufs (msgin s1 r)) \<union> B"
  have q: "distinct (r # waiting s1 k)" "\<forall>y \<in> set (waiting s1 k). mi_length (msgin s r) \<le> mi_length (msgin s y)"
    using assms(1,2) by (auto simp: buffers_inv_def queue_ok_def shorter_def)
  note st = assms(6) [unfolded served_state_def]
  have sub: "set served \<union> set (waiting s' k) = set (waiting s1 k)"
    using st mset_eq_setD [of "waiting s1 k" "served @ waiting s' k"] by simp
  then have r: "r \<notin> set (waiting s1 k)" using q by auto
  have same: "mi_length (msgin s' x) = mi_length (msgin s x)"
    "x \<notin> set (waiting s k) \<Longrightarrow> bpages (msgin s' x) = bpages (msgin s x)" for x
    using st assms(1,5) by (simp_all add: retry_frame_def)
  have bufs: "msg_bufs (msgin s' r) = msg_bufs (msgin s1 r)" "has_space (the_pool s' k) (msgin s' r)"
    using same_bpages(1) [of "msgin s' r" "msgin s1 r"] same_bpages(2) [of "msgin s' r" "msgin s1 r" "the_pool s' k" pool]
      st r assms(3) by simp_all
  have B: "bufs_of (map (msgin s') (r # served)) \<union> B = bufs_of (map (msgin s') served) \<union> ?B"
    using bufs(1) by (auto simp: bufs_of_def)
  have len: "mi_length (msgin s1 x) = mi_length (msgin s x)" for x using assms(5) by (simp add: retry_frame_def)
  show ?thesis
    unfolding served_state_def B
    using st assms(1,4) bufs same q(2) sub len by auto
qed

lemma check_waiting_result:
  assumes "buffers_inv k B s" and "\<And>i. we_core e i < length (pl_cores (the_pool s k))"
    and "get_pages_fuel (the_pool s k) HOMA_MAX_BPAGES \<le> we_fuel e"
    and "finite R" and "set (waiting s k) \<subseteq> R" and "grant_inv R s" and "2 * card R < we_grant_fuel e"
    and "length (waiting s k) + 2 \<le> n" and "overcommit_ok (ks_homa s)"
  shows "\<exists>s' served. check_waiting e n k s = Some s' \<and> served_state k B s served s' \<and> grant_inv R s'"
  using assms
proof (induction n arbitrary: s B)
  case (Suc n)
  obtain pool where pool: "hs_buffer_pool (ks_socks s k) = Some pool" using Suc.prems(1) by (auto simp: buffers_inv_def)
  show ?case
  proof (cases "pl_free_bpages pool < pl_bpages_needed pool")
    case True
    then have "served_state k B s [] s" using Suc.prems(1) pool by (intro served_nothing) simp_all
    then show ?thesis using True pool Suc.prems(6) by auto
  next
    case busy: False
    show ?thesis
    proof (cases "waiting s k")
      case Nil
      let ?s = "upd_pool k (\<lambda>pool. pool\<lparr>pl_bpages_needed := INT_MAX\<rparr>) s"
      have "served_state k B s [] ?s"
        using Suc.prems(1) pool Nil by (intro served_nothing) (auto simp: buffers_inv_def queue_ok_def)
      moreover have "grant_inv R ?s"
        using buf_view_grant_inv [of ?s s R] Suc.prems(6) by (simp add: buf_views del: upd_sock_sel)
      ultimately show ?thesis using busy Nil pool by auto
    next
      case (Cons r rest)
      have R: "r \<in> R" "set rest \<subseteq> R" using Suc.prems(5) Cons by auto
      show ?thesis
      proof (cases rule: retry_first_result [OF Suc.prems(1) Cons Suc.prems(2,3,4) R(1) Suc.prems(6,7,9), of n])
        case one: (1 s1)
        have "length (waiting s1 k) + 2 \<le> n" using Suc.prems(8) Cons one(2) by simp
        moreover have "\<And>i. we_core e i < length (pl_cores (the_pool s1 k))"
          "get_pages_fuel (the_pool s1 k) HOMA_MAX_BPAGES \<le> we_fuel e"
          using Suc.prems(2,3) one(3) by (simp_all add: retry_frame_def get_pages_fuel_def)
        moreover have "overcommit_ok (ks_homa s1)" using retry_frame_overcommit [OF one(3)] Suc.prems(9) by simp
        ultimately obtain s' served where "check_waiting e n k s1 = Some s'" "grant_inv R s'"
          and st: "served_state k (set (msg_bufs (msgin s1 r)) \<union> B) s1 served s'"
          using Suc.IH [OF one(7) _ _ Suc.prems(4) _ one(4) Suc.prems(7)] R(2) one(2) by blast
        moreover have "served_state k B s (r # served) s'"
          using served_one [OF _ Suc.prems(1) one(5,6,3) st] Cons one(2) by simp
        ultimately show ?thesis using busy Cons pool one(1) by auto
      next
        case again: (2 s1)
        obtain m where n: "n = Suc m" using Suc.prems(8) Cons by (cases n) simp_all
        obtain pool1 where pool1: "hs_buffer_pool (ks_socks s1 k) = Some pool1" using again(5) by (auto simp: buffers_inv_def)
        have "served_state k B s [] s1"
          using again Cons by (intro served_nothing) (auto simp: retry_frame_def)
        then show ?thesis using busy Cons pool pool1 again n by auto
      qed
    qed
  qed
qed simp

section \<open>Starting an incoming message\<close>

lemma buffers_inv_msgin:
  assumes "buffers_inv k B s"
    and "r \<in> set (waiting s k) \<Longrightarrow> mi_length (f (msgin s r)) = mi_length (msgin s r) \<and> mi_num_bpages (f (msgin s r)) = mi_num_bpages (msgin s r)"
  shows "buffers_inv k B (upd_msgin r f s)"
proof -
  let ?s = "upd_msgin r f s"
  have len: "mi_length (msgin ?s x) = mi_length (msgin s x)" "mi_num_bpages (msgin ?s x) = mi_num_bpages (msgin s x)"
    if "x \<in> set (waiting s k)" for x using assms(2) that by auto
  have "ranked (shorter ?s) (waiting s k) = ranked (shorter s) (waiting s k)"
    unfolding shorter_def by (rule ranked_cong) (simp only: len(1))
  moreover have "legal_waiter ?s k x = legal_waiter s k x" if "x \<in> set (waiting s k)" for x
    using len [OF that] by (auto simp: legal_waiter_def)
  moreover have "mi_length (msgin ?s (hd (waiting s k))) = mi_length (msgin s (hd (waiting s k)))" if "waiting s k \<noteq> []"
    by (rule len(1)) (use that in simp)
  ultimately show ?thesis
    using assms(1) unfolding buffers_inv_def queue_ok_def by (simp del: upd_rpc_sel(5))
qed

lemma bpage_free_granted: "bpage_free (m\<lparr>mi_granted := g\<rparr>) = (bpage_free m)\<lparr>mi_granted := g\<rparr>"
  by (simp add: bpage_free_def)

lemma message_in_init_result:
  assumes inv: "buffers_inv k B s" and r: "rp_hsk (ks_rpcs s r) = k" "r \<notin> set (waiting s k)"
    and len: "0 < len" "len \<le> HOMA_MAX_MESSAGE_LENGTH"
    and core: "core < length (pl_cores (the_pool s k))" and fuel: "get_pages_fuel (the_pool s k) HOMA_MAX_BPAGES \<le> fuel"
  obtains (space) s' where "homa_message_in_init fuel clk core r len unsched s = Some (None, s')"
      "waiting s' k = waiting s k" "has_space (the_pool s' k) (msgin s' r)" "0 < mi_num_bpages (msgin s' r)"
      "set (msg_bufs (msgin s' r)) \<inter> B = {}" "buffers_inv k (set (msg_bufs (msgin s' r)) \<union> B) s'"
      "bpage_free (msgin s' r) = bpage_free (message_in_fields (msgin s r) len unsched)"
    | (queued) s' where "homa_message_in_init fuel clk core r len unsched s = Some (None, s')"
      "mset (waiting s' k) = add_mset r (mset (waiting s k))" "mi_num_bpages (msgin s' r) = 0" "buffers_inv k B s'"
      "bpage_free (msgin s' r) = bpage_free ((message_in_fields (msgin s r) len unsched)\<lparr>mi_granted := 0\<rparr>)"
proof -
  let ?s = "upd_msgin r (\<lambda>m. message_in_fields m len unsched) s"
  have pre: "buffers_inv k B ?s" by (rule buffers_inv_msgin [OF inv]) (use r in simp)
  have pre': "legal_waiter ?s k r" "r \<notin> set (waiting ?s k)" "core < length (pl_cores (the_pool ?s k))"
    "get_pages_fuel (the_pool ?s k) HOMA_MAX_BPAGES \<le> fuel"
    using r len core fuel by (simp_all add: legal_waiter_def message_in_fields_def)
  show thesis
  proof (cases rule: homa_pool_allocate_result [OF pre pre', of clk])
    case sp: (1 s')
    show thesis
      by (rule space [of s'])
        (use sp(1-6) buf_view_rpc(2) [OF allocate_frame(1) [OF sp(1)], of r] in \<open>simp_all add: homa_message_in_init_def\<close>)
  next
    case qu: (2 s2 n)
    let ?s' = "upd_msgin r (\<lambda>m. m\<lparr>mi_granted := 0\<rparr>) s2"
    have "homa_message_in_init fuel clk core r len unsched s = Some (None, ?s')"
      using qu(1,3) by (simp add: homa_message_in_init_def)
    moreover have "buffers_inv k B ?s'" by (rule buffers_inv_msgin [OF qu(4)]) simp
    moreover have "bpage_free (msgin s2 r) = bpage_free (message_in_fields (msgin s r) len unsched)"
      using buf_view_rpc(2) [OF allocate_frame(1) [OF qu(1)], of r] by simp
    then have "bpage_free (msgin ?s' r) = bpage_free ((message_in_fields (msgin s r) len unsched)\<lparr>mi_granted := 0\<rparr>)"
      by (simp add: bpage_free_granted)
    ultimately show thesis using qu(2,3) by (intro queued [of ?s']) (simp_all add: insert_before_mset)
  qed
qed

text \<open>A message of length 0 gets no bpage and is not queued either: nothing will ever give it space.\<close>

lemma message_in_init_empty:
  assumes "hs_buffer_pool (ks_socks s (rp_hsk (ks_rpcs s r))) = Some pool" and "pl_region pool \<noteq> 0"
  shows "\<exists>s'. homa_message_in_init fuel clk core r 0 unsched s = Some (None, s') \<and> mi_num_bpages (msgin s' r) = 0 \<and>
     waiting s' = waiting s"
proof -
  have "allocate_space fuel clk lease core pool (message_in_fields m 0 unsched) =
    Some (pool, message_in_fields m 0 unsched, True)" for lease m
    by (simp add: allocate_space_def message_in_fields_def)
  then show ?thesis
    using assms by (auto simp: homa_message_in_init_def homa_pool_allocate_def Let_def message_in_fields_def)
qed

section \<open>Properties\<close>

text \<open>A socket with a fresh pool of 20 pages and one RPC in the queue.\<close>

definition wait_example :: kstate where
  "wait_example = kstate_zero\<lparr>
     ks_homa := homa_zero\<lparr>h_max_overcommit := 8\<rparr>,
     ks_socks := (\<lambda>_. sock_zero)(1 := sock_zero\<lparr>hs_buffer_pool := Some (example_pool\<lparr>pl_bpages_needed := 2\<rparr>), hs_waiting_for_bufs := [7]\<rparr>),
     ks_rpcs := (\<lambda>_. rpc_zero)
       (7 := rpc_zero\<lparr>rp_hsk := 1, rp_msgin := message_in_zero\<lparr>mi_length := 70000, mi_bytes_remaining := 70000\<rparr>\<rparr>,
        8 := rpc_zero\<lparr>rp_hsk := 1\<rparr>)\<rparr>"

lemma wait_example_inv: "buffers_inv 1 {} wait_example" "grant_inv {7} wait_example" "overcommit_ok (ks_homa wait_example)"
  by (simp_all add: buffers_inv_def queue_ok_def legal_waiter_def wait_example_def example_pool_facts HOMA_MAX_MESSAGE_LENGTH_def
      pages_needed_def HOMA_BPAGE_SIZE_def grant_inv_def grant_links_def accounted_def grantable_set_def is_grantable_def
      overcommit_ok_def HOMA_MAX_GRANTS_def zero_defs)

text \<open>
  C12: For a pool of at most 4 GB, \<open>homa_pool_check_waiting\<close> returns after at most one attempt more than there are RPCs waiting, if
  \<open>max_overcommit\<close> is between 1 and the size of the array that it indexes.  The RPCs that
  leave the queue have space, each apart from the others and from all buffers in use before, and the pool and the
  queue are consistent with these buffers in use.  No RPC is lost or served before a shorter one, and when some
  still wait, fewer pages are free than the first of them needs.  The account of the grants stays exact.
\<close>

theorem homa_pool_check_waiting_serves:
  assumes "buffers_inv k B s" and "\<And>i. we_core e i < length (pl_cores (the_pool s k))"
    and "get_pages_fuel (the_pool s k) HOMA_MAX_BPAGES \<le> we_fuel e"
    and "finite R" and "set (waiting s k) \<subseteq> R" and "grant_inv R s" and "2 * card R < we_grant_fuel e"
    and "length (waiting s k) + 2 \<le> n" and "overcommit_ok (ks_homa s)"
  shows "\<exists>s' served. homa_pool_check_waiting e n k s = Some s' \<and> served_state k B s served s' \<and> grant_inv R s'"
  using check_waiting_result [OF assms] assms(1) by (auto simp: homa_pool_check_waiting_def buffers_inv_def)

theorem homa_pool_check_waiting_serves_witness:
  "\<exists>s' served. homa_pool_check_waiting \<lparr>we_clk = (\<lambda>_ i. i), we_core = (\<lambda>_. 0), we_now = (\<lambda>i. i), we_fuel = 1000, we_grant_fuel = 3\<rparr>
      3 1 wait_example = Some s' \<and> served_state 1 {} wait_example served s' \<and> grant_inv {7} s'"
proof -
  have "waiting wait_example 1 = [7]" "the_pool wait_example 1 = example_pool\<lparr>pl_bpages_needed := 2\<rparr>"
    by (simp_all add: wait_example_def)
  then show ?thesis
    by (intro homa_pool_check_waiting_serves [OF wait_example_inv(1) _ _ _ _ wait_example_inv(2)])
      (simp_all add: example_pool_facts get_pages_fuel_def HOMA_MAX_BPAGES_def wait_example_inv(3))
qed

text \<open>
  C20: \<open>homa_message_in_init\<close> for a message of legal length, with a pool of at most 4 GB: either it has space, apart from all buffers in use,
  and is granted its unscheduled bytes; or it is in the queue (once, with the others) and nothing is granted.
  The pool and the queue stay consistent, and the message starts with nothing received.
\<close>

theorem homa_message_in_init_places:
  assumes "buffers_inv k B s" and "rp_hsk (ks_rpcs s r) = k" and "r \<notin> set (waiting s k)"
    and "0 < len" and "len \<le> HOMA_MAX_MESSAGE_LENGTH"
    and "core < length (pl_cores (the_pool s k))" and "get_pages_fuel (the_pool s k) HOMA_MAX_BPAGES \<le> fuel"
  shows "\<exists>s'. homa_message_in_init fuel clk core r len unsched s = Some (None, s') \<and>
    mi_length (msgin s' r) = len \<and> mi_bytes_remaining (msgin s' r) = len \<and> mi_packets (msgin s' r) = [] \<and>
    (if mi_num_bpages (msgin s' r) = 0
     then mi_granted (msgin s' r) = 0 \<and> mset (waiting s' k) = add_mset r (mset (waiting s k)) \<and> buffers_inv k B s'
     else mi_granted (msgin s' r) = min unsched len \<and> waiting s' k = waiting s k \<and>
       has_space (the_pool s' k) (msgin s' r) \<and> set (msg_bufs (msgin s' r)) \<inter> B = {} \<and>
       buffers_inv k (set (msg_bufs (msgin s' r)) \<union> B) s')"
proof (cases rule: message_in_init_result [OF assms, of clk unsched])
  case space: (1 s')
  note f = bpage_free_sel [OF space(7)]
  have "mi_granted (msgin s' r) = min unsched len" using f(3) by (simp add: message_in_fields_def)
  then show ?thesis using space f by (intro exI [of _ s']) (simp add: message_in_fields_def)
next
  case queued: (2 s')
  note f = bpage_free_sel [OF queued(5)]
  show ?thesis using queued f by (intro exI [of _ s']) (simp add: message_in_fields_def)
qed

theorem homa_message_in_init_places_witness:
  "\<exists>s'. homa_message_in_init 1000 (\<lambda>i. i) 0 8 5000 10000 wait_example = Some (None, s') \<and>
     mi_length (msgin s' 8) = 5000 \<and> mi_packets (msgin s' 8) = []"
proof -
  have "waiting wait_example 1 = [7]" "the_pool wait_example 1 = example_pool\<lparr>pl_bpages_needed := 2\<rparr>"
    "rp_hsk (ks_rpcs wait_example 8) = 1"
    by (simp_all add: wait_example_def)
  then show ?thesis
    using homa_message_in_init_places [OF wait_example_inv(1), of 8 5000 0 1000 "\<lambda>i. i" 10000]
    by (auto simp: example_pool_facts get_pages_fuel_def HOMA_MAX_BPAGES_def HOMA_MAX_MESSAGE_LENGTH_def)
qed

end
