(* ===== verification/Homa_Rpc.thy ===== *)
theory Homa_Rpc
imports Homa_Handoff Homa_Buffers Homa_Outgoing
begin

text \<open>
  The life of an RPC (\<open>homa_rpc.c\<close>): creation on the client and on the server, lookup, release in two steps (\<open>homa_rpc_free\<close>
  makes it inaccessible, \<open>homa_rpc_reap\<close> gives its resources back), acknowledgement; the functions of
  \<open>homa_incoming.c\<close> that abort RPCs; and the shutdown of a socket (\<open>homa_sock.c\<close>).

  Memory for an RPC is a parameter (None when there is none) and is not cleared.  \<open>homa_rpc_unlock\<close> and the like are left
  out.  The memory of a freed RPC is not used again.
\<close>

section \<open>Creation and lookup\<close>

text \<open>What the code takes from its surroundings; the fuel bounds the loops of the buffer pool and of granting.\<close>

record rpc_env =
  re_hash :: hash_32
  re_route :: "errno + nat"
  re_peer_mem :: "peer_ptr option"
  re_now :: nat
  re_clk :: "nat \<Rightarrow> nat"
  re_core :: nat
  re_fuel :: nat
  re_grant_fuel :: nat
  re_active :: "nat \<Rightarrow> nat"
  re_busy_time :: nat

abbreviation "active_rpcs s k \<equiv> hs_active_rpcs (ks_socks s k)"
abbreviation "dead_rpcs s k \<equiv> hs_dead_rpcs (ks_socks s k)"
abbreviation "client_buckets s k \<equiv> hs_client_rpc_buckets (ks_socks s k)"
abbreviation "server_buckets s k \<equiv> hs_server_rpc_buckets (ks_socks s k)"

text \<open>The key of a server RPC; the bucket depends on the identifier alone.\<close>

type_synonym server_key = "u64 \<times> u16 \<times> in6_addr"

abbreviation server_hash :: "server_key \<Rightarrow> nat" where
  "server_hash key \<equiv> homa_server_rpc_bucket (fst key)"

definition server_key :: "kstate \<Rightarrow> rpc_ptr \<Rightarrow> server_key" where
  "server_key s r = (let rpc = ks_rpcs s r in (rp_id rpc, rp_dport rpc, pe_addr (ks_peers s (rp_peer rpc))))"

definition homa_find_server_rpc :: "kstate \<Rightarrow> sock_ptr \<Rightarrow> in6_addr \<Rightarrow> u64 \<Rightarrow> rpc_ptr option" where
  "homa_find_server_rpc s k saddr rid =
     find (\<lambda>r. rp_id (ks_rpcs s r) = rid \<and> pe_addr (ks_peers s (rp_peer (ks_rpcs s r))) = saddr)
       (server_buckets s k (homa_server_rpc_bucket rid))"

text \<open>The fields that both kinds of RPC set in the same way before the socket is locked.\<close>

definition rpc_init :: "sock_ptr \<Rightarrow> rpc_state \<Rightarrow> u64 \<Rightarrow> peer_ptr \<Rightarrow> u16 \<Rightarrow> u32 \<Rightarrow> nat \<Rightarrow> homa_rpc \<Rightarrow> homa_rpc" where
  "rpc_init k state rid peer dport ticks now rpc = rpc\<lparr>rp_hsk := k, rp_state := state, rp_flags := {},
     rp_grants_in_progress := 0, rp_peer := peer, rp_dport := dport, rp_id := rid, rp_completion_cookie := 0,
     rp_error := None, rp_msgin := (rp_msgin rpc)\<lparr>mi_length := -1, mi_num_bpages := 0\<rparr>,
     rp_msgout := message_out_zero\<lparr>mo_length := -1\<rparr>, rp_interest := None, rp_silent_ticks := 0,
     rp_resend_timer_ticks := ticks, rp_done_timer_ticks := 0, rp_magic := True, rp_start_ns := now\<rparr>"

definition homa_rpc_new_client ::
  "rpc_env \<Rightarrow> rpc_ptr option \<Rightarrow> sock_ptr \<Rightarrow> sockaddr_in_union \<Rightarrow> kstate \<Rightarrow> (errno + rpc_ptr) \<times> kstate" where
  "homa_rpc_new_client e mem k dest s =
     (case mem of
        None \<Rightarrow> (Inl ENOMEM, s)
      | Some r \<Rightarrow>
          let rid = h_next_outgoing_id (ks_homa s);
              s = upd_homa (\<lambda>h. h\<lparr>h_next_outgoing_id := rid + 2\<rparr>) s
          in case homa_peer_find (re_hash e) (re_peer_mem e) (re_route e) (canonical_ipv6_addr (Some dest)) s of
               (Inl err, s) \<Rightarrow> (Inl err, s)
             | (Inr peer, s) \<Rightarrow>
                 let s = upd_rpc r (rpc_init k RPC_OUTGOING rid peer (sa_port dest) (h_timer_ticks (ks_homa s)) (re_now e)) s
                 in if hs_shutdown (ks_socks s k) then (Inl ESHUTDOWN, s)
                    else (Inr r, upd_sock k (\<lambda>h. h\<lparr>
                           hs_client_rpc_buckets := chain_add homa_client_rpc_bucket (\<lambda>r. rp_id (ks_rpcs s r)) r (hs_client_rpc_buckets h),
                           hs_active_rpcs := hs_active_rpcs h @ [r]\<rparr>) s))"

text \<open>
  \<open>homa_rpc_new_server\<close>; the flag is \<open>*created\<close>.  None when the buffer pool gives no result.  On an error after
  \<open>homa_message_in_init\<close> the code frees the RPC, whether or not it is queued for buffer space.
\<close>

definition homa_rpc_new_server ::
  "rpc_env \<Rightarrow> rpc_ptr option \<Rightarrow> sock_ptr \<Rightarrow> in6_addr \<Rightarrow> homa_data_hdr \<Rightarrow> kstate \<Rightarrow> ((errno + rpc_ptr \<times> bool) \<times> kstate) option" where
  "homa_rpc_new_server e mem k source h s =
     (let rid = homa_local_id (ch_sender_id (dh_common h)); dport = ch_sport (dh_common h) in
      case chain_find server_hash (server_key s) (server_buckets s k) (rid, dport, source) of
        Some r \<Rightarrow> Some (Inr (r, False), s)
      | None \<Rightarrow>
          (case mem of
             None \<Rightarrow> Some (Inl ENOMEM, s)
           | Some r \<Rightarrow>
               (case homa_peer_find (re_hash e) (re_peer_mem e) (re_route e) source s of
                  (Inl err, s) \<Rightarrow> Some (Inl err, s)
                | (Inr peer, s) \<Rightarrow>
                    let s = upd_rpc r (rpc_init k RPC_INCOMING rid peer dport (h_timer_ticks (ks_homa s)) (re_now e)) s
                    in case homa_message_in_init (re_fuel e) (re_clk e) (re_core e) r
                              (sint (dh_message_length h)) (sint (dh_incoming h)) s of
                         None \<Rightarrow> None
                       | Some (Some err, s) \<Rightarrow> Some (Inl err, s)
                       | Some (None, s) \<Rightarrow>
                           if hs_shutdown (ks_socks s k) then Some (Inl ESHUTDOWN, s)
                           else
                             let s = upd_sock k (\<lambda>hsk. hsk\<lparr>
                                   hs_server_rpc_buckets := chain_add server_hash (server_key s) r (hs_server_rpc_buckets hsk),
                                   hs_active_rpcs := hs_active_rpcs hsk @ [r]\<rparr>) s;
                                 s = (if sg_offset (dh_seg h) = 0 \<and> mi_num_bpages (msgin s r) > 0
                                      then homa_rpc_handoff (re_active e) (re_busy_time e) r
                                             (upd_rpc r (\<lambda>rpc. rpc\<lparr>rp_flags := rp_flags rpc \<union> {RPC_PKTS_READY}\<rparr>) s)
                                      else s)
                             in Some (Inr (r, True), s))))"

definition homa_protect_rpcs :: "sock_ptr \<Rightarrow> kstate \<Rightarrow> bool \<times> kstate" where
  "homa_protect_rpcs k s =
     (if hs_shutdown (ks_socks s k) then (False, s)
      else (True, upd_sock k (\<lambda>h. h\<lparr>hs_protect_count := hs_protect_count h + 1\<rparr>) s))"

definition homa_unprotect_rpcs :: "sock_ptr \<Rightarrow> kstate \<Rightarrow> kstate" where
  "homa_unprotect_rpcs k s = upd_sock k (\<lambda>h. h\<lparr>hs_protect_count := hs_protect_count h - 1\<rparr>) s"

section \<open>Release\<close>

text \<open>The part of \<open>homa_rpc_free\<close> under the socket lock.\<close>

definition wake_interest :: "rpc_ptr \<Rightarrow> kstate \<Rightarrow> kstate" where
  "wake_interest r s =
     (case rp_interest (ks_rpcs s r) of
        None \<Rightarrow> s
      | Some i \<Rightarrow>
          let s = upd_interest i (\<lambda>n. n\<lparr>in_reg_rpc := None\<rparr>) s;
              s = s\<lparr>ks_wakeups := ks_wakeups s @ [in_thread (interest s i)]\<rparr>
          in upd_rpc r (\<lambda>rpc. rpc\<lparr>rp_interest := None\<rparr>) s)"

definition rpc_unlink :: "rpc_ptr \<Rightarrow> kstate \<Rightarrow> kstate" where
  "rpc_unlink r s =
     (let rpc = ks_rpcs s r; k = rp_hsk rpc in
      upd_sock k (\<lambda>h. h\<lparr>
        hs_client_rpc_buckets := (if homa_is_client (rp_id rpc)
          then chain_del homa_client_rpc_bucket (\<lambda>r. rp_id (ks_rpcs s r)) r (hs_client_rpc_buckets h) else hs_client_rpc_buckets h),
        hs_server_rpc_buckets := (if homa_is_client (rp_id rpc) then hs_server_rpc_buckets h
          else chain_del server_hash (server_key s) r (hs_server_rpc_buckets h)),
        hs_active_rpcs := remove1 r (hs_active_rpcs h), hs_dead_rpcs := hs_dead_rpcs h @ [r],
        hs_ready_requests := remove1 r (hs_ready_requests h), hs_ready_responses := remove1 r (hs_ready_responses h),
        hs_waiting_for_bufs := remove1 r (hs_waiting_for_bufs h)\<rparr>) s)"

definition count_dead :: "rpc_ptr \<Rightarrow> kstate \<Rightarrow> kstate" where
  "count_dead r s =
     (let rpc = ks_rpcs s r; k = rp_hsk rpc; received = mi_length (rp_msgin rpc) \<ge> 0;
          packets = (if received then int (length (mi_packets (rp_msgin rpc))) else 0) + mo_num_skbs (rp_msgout rpc);
          s = upd_sock k (\<lambda>h. h\<lparr>hs_dead_skbs := hs_dead_skbs h + packets\<rparr>) s;
          s = (if received then upd_msgin r (\<lambda>m. m\<lparr>mi_gaps := []\<rparr>) s else s);
          dead = hs_dead_skbs (ks_socks s k)
      in if dead > h_max_dead_buffs (ks_homa s) then upd_homa (\<lambda>h. h\<lparr>h_max_dead_buffs := dead\<rparr>) s else s)"

definition homa_rpc_free :: "nat \<Rightarrow> nat \<Rightarrow> rpc_ptr \<Rightarrow> kstate \<Rightarrow> kstate option" where
  "homa_rpc_free fuel now r s =
     (if rp_state (ks_rpcs s r) = RPC_DEAD then Some s
      else map_option (\<lambda>s. homa_remove_from_throttled r (count_dead r (wake_interest r (rpc_unlink r s))))
             (homa_grant_free_rpc fuel now r (upd_rpc r (\<lambda>rpc. rpc\<lparr>rp_state := RPC_DEAD\<rparr>) s)))"

section \<open>Reaping\<close>

definition BATCH_MAX :: nat where "BATCH_MAX = 20"

definition RPC_CANT_REAP :: "rpc_flag set" where
  "RPC_CANT_REAP = {RPC_COPYING_FROM_USER, RPC_COPYING_TO_USER, RPC_HANDING_OFF}"

definition cant_reap :: "kstate \<Rightarrow> rpc_ptr \<Rightarrow> bool" where
  "cant_reap s r \<longleftrightarrow> rp_flags (ks_rpcs s r) \<inter> RPC_CANT_REAP \<noteq> {} \<or> rp_grants_in_progress (ks_rpcs s r) \<noteq> 0 \<or>
     mo_active_xmits (msgout s r) \<noteq> 0"

primrec take_skbs :: "nat \<Rightarrow> nat \<Rightarrow> out_skb list \<Rightarrow> nat \<times> out_skb list" where
  "take_skbs batch num [] = (num, [])"
| "take_skbs batch num (p # ps) = (if num + 1 \<ge> batch then (num + 1, ps) else take_skbs batch (num + 1) ps)"

text \<open>
  The loop over \<open>dead_rpcs\<close>: the number of transmitted packets collected, of received packets freed so far, the RPCs to
  free, and the state.
\<close>

primrec reap_collect :: "nat \<Rightarrow> nat \<Rightarrow> nat \<Rightarrow> rpc_ptr list \<Rightarrow> rpc_ptr list \<Rightarrow> kstate \<Rightarrow> nat \<times> nat \<times> rpc_ptr list \<times> kstate" where
  "reap_collect batch num_skbs rx_frees rpcs [] s = (num_skbs, rx_frees, rpcs, s)"
| "reap_collect batch num_skbs rx_frees rpcs (r # rs) s =
     (if cant_reap s r then reap_collect batch num_skbs rx_frees rpcs rs s
      else
        let s = upd_rpc r (\<lambda>rpc. rpc\<lparr>rp_magic := False\<rparr>) s;
            (num, packets) = (if mo_length (msgout s r) \<ge> 0 then take_skbs batch num_skbs (mo_packets (msgout s r))
                              else (num_skbs, mo_packets (msgout s r)));
            s = upd_msgout r (\<lambda>m. m\<lparr>mo_packets := packets, mo_num_skbs := mo_num_skbs m - int (num - num_skbs)\<rparr>) s
        in if num \<ge> batch then (num, rx_frees, rpcs, s)
           else
             let received = mi_length (msgin s r) \<ge> 0;
                 rx_frees = rx_frees + (if received then length (mi_packets (msgin s r)) else 0);
                 s = (if received then upd_msgin r (\<lambda>m. m\<lparr>mi_packets := []\<rparr>) s else s);
                 s = upd_sock (rp_hsk (ks_rpcs s r)) (\<lambda>h. h\<lparr>hs_dead_rpcs := remove1 r (hs_dead_rpcs h)\<rparr>) s
             in if length rpcs + 1 \<ge> batch then (num, rx_frees, rpcs @ [r], s)
                else reap_collect batch num rx_frees (rpcs @ [r]) rs s)"

definition reap_free :: "rpc_ptr \<Rightarrow> kstate \<Rightarrow> kstate" where
  "reap_free r s =
     (let k = rp_hsk (ks_rpcs s r); m = msgin s r;
          s = (if mi_num_bpages m \<noteq> 0
               then upd_pool k (\<lambda>pool. fst (homa_pool_release_buffers pool (take (nat (mi_num_bpages m)) (mi_bpage_offsets m)))) s
               else s)
      in if mi_length m \<ge> 0 then upd_msgin r (\<lambda>m. m\<lparr>mi_gaps := []\<rparr>) s else s)"

text \<open>
  The loop over the batches.  The first flag tells whether the loop ended normally (and not by the \<open>return\<close> in the middle);
  \<open>result\<close> has no value at first.
\<close>

function reap_loop :: "nat \<Rightarrow> nat \<Rightarrow> bool option \<Rightarrow> sock_ptr \<Rightarrow> kstate \<Rightarrow> bool \<times> bool option \<times> kstate" where
  "reap_loop todo rx_frees result k s =
     (if todo = 0 then (True, result, s)
      else
        let batch = min todo BATCH_MAX in
        if hs_protect_count (ks_socks s k) \<noteq> 0 then (False, Some False, s)
        else
          let (num_skbs, rx_frees, rpcs, s) = reap_collect batch 0 rx_frees [] (dead_rpcs s k) s;
              s = upd_sock k (\<lambda>h. h\<lparr>hs_dead_skbs := hs_dead_skbs h - int (num_skbs + rx_frees)\<rparr>) s;
              more = (dead_rpcs s k \<noteq> [] \<and> num_skbs + length rpcs \<noteq> 0);
              s = fold reap_free rpcs s
          in if \<not> more then (True, Some False, s) else reap_loop (todo - batch) rx_frees (Some True) k s)"
  by auto
termination by (relation "measure (\<lambda>(todo, _). todo)") (auto simp: BATCH_MAX_def)

declare reap_loop.simps [simp del]

text \<open>None when the result is not determined (a count that is not positive) or the buffer pool gives none.\<close>

definition homa_rpc_reap :: "wait_env \<Rightarrow> nat \<Rightarrow> sock_ptr \<Rightarrow> int \<Rightarrow> kstate \<Rightarrow> (bool \<times> kstate) option" where
  "homa_rpc_reap e n k todo s =
     (case reap_loop (nat todo) 0 None k s of
        (False, result, s) \<Rightarrow> Some (False, s)
      | (True, None, s) \<Rightarrow> None
      | (True, Some result, s) \<Rightarrow> map_option (Pair result) (homa_pool_check_waiting e n k s))"

section \<open>Acknowledgements and aborts\<close>

text \<open>The loop over the sockets of a port: an RPC, or the socket at which the loop ends.\<close>

primrec acked_scan :: "kstate \<Rightarrow> u16 \<Rightarrow> in6_addr \<Rightarrow> u64 \<Rightarrow> sock_ptr \<Rightarrow> sock_ptr list \<Rightarrow> rpc_ptr + sock_ptr" where
  "acked_scan s server_port saddr rid hsk2 [] = Inr hsk2"
| "acked_scan s server_port saddr rid hsk2 (k # ks) =
     (case (if hs_port (ks_socks s k) = server_port then homa_find_server_rpc s k saddr rid else None) of
        Some r \<Rightarrow> Inl r
      | None \<Rightarrow> acked_scan s server_port saddr rid k ks)"

definition homa_rpc_acked :: "rpc_env \<Rightarrow> sock_ptr \<Rightarrow> in6_addr \<Rightarrow> homa_ack \<Rightarrow> kstate \<Rightarrow> kstate option" where
  "homa_rpc_acked e k saddr ack s =
     (let rid = homa_local_id (ak_client_id ack);
          where_to = (if hs_port (ks_socks s k) = ak_server_port ack then Inr k
            else acked_scan s (ak_server_port ack) saddr rid k (sock_buckets s (homa_port_hash (ak_server_port ack))))
      in case (case where_to of Inl r \<Rightarrow> Some r | Inr k2 \<Rightarrow> homa_find_server_rpc s k2 saddr rid) of
           None \<Rightarrow> Some s
         | Some r \<Rightarrow> homa_rpc_free (re_grant_fuel e) (re_now e) r s)"

definition homa_rpc_abort :: "rpc_env \<Rightarrow> rpc_ptr \<Rightarrow> errno option \<Rightarrow> kstate \<Rightarrow> kstate option" where
  "homa_rpc_abort e r error s =
     (if \<not> homa_is_client (rp_id (ks_rpcs s r)) then homa_rpc_free (re_grant_fuel e) (re_now e) r s
      else
        let s = upd_rpc r (\<lambda>rpc. rpc\<lparr>rp_error := error\<rparr>) s
        in Some (if hs_shutdown (ks_socks s (rp_hsk (ks_rpcs s r))) then s
                 else homa_rpc_handoff (re_active e) (re_busy_time e) r s))"

primrec abort_matching :: "rpc_env \<Rightarrow> in6_addr \<Rightarrow> u16 \<Rightarrow> errno option \<Rightarrow> rpc_ptr list \<Rightarrow> kstate \<Rightarrow> kstate option" where
  "abort_matching e addr port error [] s = Some s"
| "abort_matching e addr port error (r # rs) s =
     (let rpc = ks_rpcs s r in
      if pe_addr (ks_peers s (rp_peer rpc)) \<noteq> addr \<or> port \<noteq> 0 \<and> rp_dport rpc \<noteq> port then abort_matching e addr port error rs s
      else case homa_rpc_abort e r error s of None \<Rightarrow> None | Some s \<Rightarrow> abort_matching e addr port error rs s)"

text \<open>One socket of the scan of \<open>homa_abort_rpcs\<close>, and the scan with the sockets that follow.\<close>

definition abort_on_sock :: "rpc_env \<Rightarrow> in6_addr \<Rightarrow> u16 \<Rightarrow> errno option \<Rightarrow> sock_ptr \<Rightarrow> kstate \<Rightarrow> kstate option" where
  "abort_on_sock e addr port error k s =
     (if active_rpcs s k = [] then Some s
      else case homa_protect_rpcs k s of
        (False, s) \<Rightarrow> Some s
      | (True, s) \<Rightarrow> map_option (homa_unprotect_rpcs k) (abort_matching e addr port error (active_rpcs s k) s))"

primrec abort_scan :: "nat \<Rightarrow> rpc_env \<Rightarrow> nat \<Rightarrow> in6_addr \<Rightarrow> u16 \<Rightarrow> errno option \<Rightarrow> sock_ptr option \<times> kstate \<Rightarrow> kstate option" where
  "abort_scan 0 e i addr port error hs = None"
| "abort_scan (Suc n) e i addr port error hs =
     (case hs of
        (None, s) \<Rightarrow> Some (homa_socktab_end_scan i s)
      | (Some k, s) \<Rightarrow>
          (case abort_on_sock e addr port error k s of
             None \<Rightarrow> None
           | Some s \<Rightarrow> abort_scan n e i addr port error (homa_socktab_next i s)))"

definition homa_abort_rpcs :: "nat \<Rightarrow> rpc_env \<Rightarrow> nat \<Rightarrow> in6_addr \<Rightarrow> u16 \<Rightarrow> errno option \<Rightarrow> kstate \<Rightarrow> kstate option" where
  "homa_abort_rpcs n e i addr port error s = abort_scan n e i addr port error (homa_socktab_start_scan i s)"

primrec abort_clients :: "rpc_env \<Rightarrow> errno option \<Rightarrow> rpc_ptr list \<Rightarrow> kstate \<Rightarrow> kstate option" where
  "abort_clients e error [] s = Some s"
| "abort_clients e error (r # rs) s =
     (if \<not> homa_is_client (rp_id (ks_rpcs s r)) \<or> rp_state (ks_rpcs s r) = RPC_DEAD then abort_clients e error rs s
      else case (if error \<noteq> None then homa_rpc_abort e r error s else homa_rpc_free (re_grant_fuel e) (re_now e) r s) of
        None \<Rightarrow> None
      | Some s \<Rightarrow> abort_clients e error rs s)"

definition homa_abort_sock_rpcs :: "rpc_env \<Rightarrow> sock_ptr \<Rightarrow> errno option \<Rightarrow> kstate \<Rightarrow> kstate option" where
  "homa_abort_sock_rpcs e k error s =
     (if active_rpcs s k = [] then Some s
      else case homa_protect_rpcs k s of
        (False, s) \<Rightarrow> Some s
      | (True, s) \<Rightarrow> map_option (homa_unprotect_rpcs k) (abort_clients e error (active_rpcs s k) s))"

section \<open>Shutdown of a socket\<close>

primrec free_all :: "nat \<Rightarrow> nat \<Rightarrow> rpc_ptr list \<Rightarrow> kstate \<Rightarrow> kstate option" where
  "free_all fuel now [] s = Some s"
| "free_all fuel now (r # rs) s =
     (case homa_rpc_free fuel now r s of None \<Rightarrow> None | Some s \<Rightarrow> free_all fuel now rs s)"

primrec reap_all :: "nat \<Rightarrow> wait_env \<Rightarrow> nat \<Rightarrow> sock_ptr \<Rightarrow> kstate \<Rightarrow> kstate option" where
  "reap_all 0 e n k s = None"
| "reap_all (Suc fuel) e n k s =
     (if dead_rpcs s k = [] then Some s
      else case homa_rpc_reap e n k 1000 s of None \<Rightarrow> None | Some (_, s) \<Rightarrow> reap_all fuel e n k s)"

definition homa_sock_shutdown :: "nat \<Rightarrow> rpc_env \<Rightarrow> wait_env \<Rightarrow> nat \<Rightarrow> sock_ptr \<Rightarrow> kstate \<Rightarrow> kstate option" where
  "homa_sock_shutdown fuel e we n k s =
     (if hs_shutdown (ks_socks s k) then Some s
      else
        let s = upd_sock k (\<lambda>h. h\<lparr>hs_shutdown := True\<rparr>) s;
            s = homa_sock_unlink k s
        in case free_all (re_grant_fuel e) (re_now e) (active_rpcs s k) s of
             None \<Rightarrow> None
           | Some s \<Rightarrow>
               let wake = (\<lambda>i. in_thread (interest s i));
                   s = s\<lparr>ks_wakeups := ks_wakeups s @ map wake (req_ints s k) @ map wake (resp_ints s k)\<rparr>
               in map_option (upd_sock k (\<lambda>h. h\<lparr>hs_buffer_pool := None\<rparr>)) (reap_all fuel we n k s))"

text \<open>\<open>homa_sock_destroy\<close> (its flag of the socket layer is left out) and the scan of \<open>homa_socktab_destroy\<close>.\<close>

definition homa_sock_destroy :: "nat \<Rightarrow> rpc_env \<Rightarrow> wait_env \<Rightarrow> nat \<Rightarrow> sock_ptr \<Rightarrow> kstate \<Rightarrow> kstate option" where
  "homa_sock_destroy fuel e we n k s = homa_sock_shutdown fuel e we n k s"

primrec destroy_scan :: "nat \<Rightarrow> nat \<Rightarrow> rpc_env \<Rightarrow> wait_env \<Rightarrow> nat \<Rightarrow> nat \<Rightarrow> sock_ptr option \<times> kstate \<Rightarrow> kstate option" where
  "destroy_scan 0 fuel e we n i hs = None"
| "destroy_scan (Suc m) fuel e we n i hs =
     (case hs of
        (None, s) \<Rightarrow> Some (homa_socktab_end_scan i s)
      | (Some k, s) \<Rightarrow>
          (case homa_sock_destroy fuel e we n k s of
             None \<Rightarrow> None
           | Some s \<Rightarrow> destroy_scan m fuel e we n i (homa_socktab_next i s)))"

definition homa_socktab_destroy :: "nat \<Rightarrow> nat \<Rightarrow> rpc_env \<Rightarrow> wait_env \<Rightarrow> nat \<Rightarrow> nat \<Rightarrow> kstate \<Rightarrow> kstate option" where
  "homa_socktab_destroy m fuel e we n i s = destroy_scan m fuel e we n i (homa_socktab_start_scan i s)"

section \<open>Diagnostics\<close>

definition homa_symbol_for_state :: "rpc_state \<Rightarrow> string" where
  "homa_symbol_for_state state = (case state of RPC_OUTGOING \<Rightarrow> ''OUTGOING'' | RPC_INCOMING \<Rightarrow> ''INCOMING''
     | RPC_IN_SERVICE \<Rightarrow> ''IN_SERVICE'' | RPC_DEAD \<Rightarrow> ''DEAD'')"

text \<open>The sum over the RPCs of a socket in \<open>homa_validate_incoming\<close>, and whether a grantable RPC is not linked.\<close>

definition validate_sock :: "kstate \<Rightarrow> sock_ptr \<Rightarrow> int \<times> bool" where
  "validate_sock s k =
     (let rs = filter (\<lambda>r. rp_state (ks_rpcs s r) = RPC_INCOMING \<and> mi_rec_incoming (msgin s r) \<noteq> 0) (active_rpcs s k)
      in (sum_list (map (\<lambda>r. mi_rec_incoming (msgin s r)) rs),
          list_ex (\<lambda>r. mi_granted (msgin s r) < mi_length (msgin s r) \<and> \<not> is_grantable s r) rs))"

primrec validate_scan :: "nat \<Rightarrow> nat \<Rightarrow> int \<times> bool \<Rightarrow> sock_ptr option \<times> kstate \<Rightarrow> (int \<times> bool \<times> kstate) option" where
  "validate_scan 0 i acc hs = None"
| "validate_scan (Suc n) i acc hs =
     (case hs of
        (None, s) \<Rightarrow> Some (h_total_incoming (ks_homa s) - fst acc, snd acc, homa_socktab_end_scan i s)
      | (Some k, s) \<Rightarrow>
          let (sum, err) = (if active_rpcs s k = [] \<or> hs_shutdown (ks_socks s k) then (0, False) else validate_sock s k)
          in validate_scan n i (fst acc + sum, snd acc \<or> err) (homa_socktab_next i s))"

definition homa_validate_incoming :: "nat \<Rightarrow> nat \<Rightarrow> kstate \<Rightarrow> (int \<times> bool \<times> kstate) option" where
  "homa_validate_incoming n i s = validate_scan n i (0, False) (homa_socktab_start_scan i s)"

end
