(* ===== verification/Homa_Rpc_Use.thy ===== *)
theory Homa_Rpc_Use
imports Homa_Rpc
begin

text \<open>
  What the tables and lists of RPCs guarantee: every live RPC of a socket is in \<open>active_rpcs\<close> and in the hash table of its
  kind, found under its key; a freed one is in \<open>dead_rpcs\<close> and in nothing else; and the shutdown of a socket
  reaps them all.
\<close>

section \<open>The invariant of the tables\<close>

abbreviation is_client_rpc :: "kstate \<Rightarrow> rpc_ptr \<Rightarrow> bool" where
  "is_client_rpc s r \<equiv> homa_is_client (rp_id (ks_rpcs s r))"

abbreviation client_key :: "kstate \<Rightarrow> rpc_ptr \<Rightarrow> u64" where
  "client_key s r \<equiv> rp_id (ks_rpcs s r)"

definition tables_ok :: "sock_ptr \<Rightarrow> kstate \<Rightarrow> bool" where
  "tables_ok k s \<longleftrightarrow>
     chain_inv homa_client_rpc_bucket (client_key s) (client_buckets s k) \<and>
     chain_inv server_hash (server_key s) (server_buckets s k) \<and>
     (\<forall>r. (\<exists>b. r \<in> set (client_buckets s k b)) \<longleftrightarrow> r \<in> set (active_rpcs s k) \<and> is_client_rpc s r) \<and>
     (\<forall>r. (\<exists>b. r \<in> set (server_buckets s k b)) \<longleftrightarrow> r \<in> set (active_rpcs s k) \<and> \<not> is_client_rpc s r)"

definition lists_ok :: "sock_ptr \<Rightarrow> kstate \<Rightarrow> bool" where
  "lists_ok k s \<longleftrightarrow> distinct (active_rpcs s k) \<and> distinct (dead_rpcs s k) \<and>
     (\<forall>r \<in> set (active_rpcs s k). rp_hsk (ks_rpcs s r) = k \<and> rp_state (ks_rpcs s r) \<noteq> RPC_DEAD) \<and>
     (\<forall>r \<in> set (dead_rpcs s k). rp_hsk (ks_rpcs s r) = k \<and> rp_state (ks_rpcs s r) = RPC_DEAD)"

definition queues_ok :: "sock_ptr \<Rightarrow> kstate \<Rightarrow> bool" where
  "queues_ok k s \<longleftrightarrow> distinct (waiting s k) \<and> distinct (ready_reqs s k) \<and> distinct (ready_resps s k) \<and>
     set (waiting s k) \<union> set (ready_reqs s k) \<union> set (ready_resps s k) \<subseteq> set (active_rpcs s k)"

definition rpc_inv :: "sock_ptr \<Rightarrow> kstate \<Rightarrow> bool" where
  "rpc_inv k s \<longleftrightarrow> tables_ok k s \<and> lists_ok k s \<and> queues_ok k s"

lemma tables_okD:
  assumes "tables_ok k s"
  shows "chain_inv homa_client_rpc_bucket (client_key s) (client_buckets s k)"
    and "chain_inv server_hash (server_key s) (server_buckets s k)"
    and "r \<in> set (client_buckets s k b) \<Longrightarrow> r \<in> set (active_rpcs s k) \<and> is_client_rpc s r"
    and "r \<in> set (server_buckets s k b) \<Longrightarrow> r \<in> set (active_rpcs s k) \<and> \<not> is_client_rpc s r"
    and "r \<in> set (active_rpcs s k) \<Longrightarrow> is_client_rpc s r \<Longrightarrow> \<exists>b. r \<in> set (client_buckets s k b)"
    and "r \<in> set (active_rpcs s k) \<Longrightarrow> \<not> is_client_rpc s r \<Longrightarrow> \<exists>b. r \<in> set (server_buckets s k b)"
  using assms unfolding tables_ok_def by blast+

text \<open>What the invariant depends on.\<close>

lemma tables_ok_cong:
  assumes "client_buckets s' k = client_buckets s k" and "server_buckets s' k = server_buckets s k"
    and "active_rpcs s' k = active_rpcs s k"
    and "\<And>r. r \<in> set (active_rpcs s k) \<Longrightarrow> server_key s' r = server_key s r"
    and "tables_ok k s"
  shows "tables_ok k s'" and "homa_find_client_rpc s' k rid = homa_find_client_rpc s k rid"
    and "homa_find_server_rpc s' k a rid = homa_find_server_rpc s k a rid"
proof -
  note tab = tables_okD [OF assms(5)]
  have ids: "client_key s' r = client_key s r" if "r \<in> set (active_rpcs s k)" for r
    using assms(4) [OF that] by (simp add: server_key_def Let_def)
  have addr: "addr_key s' (rp_peer (ks_rpcs s' r)) = addr_key s (rp_peer (ks_rpcs s r))" if "r \<in> set (active_rpcs s k)" for r
    using assms(4) [OF that] by (simp add: server_key_def Let_def)
  have c: "chain_inv homa_client_rpc_bucket (client_key s') (client_buckets s k)"
      "chain_find homa_client_rpc_bucket (client_key s') (client_buckets s k) i =
       chain_find homa_client_rpc_bucket (client_key s) (client_buckets s k) i" for i
    using chain_cong [of "client_buckets s k" "client_key s'" "client_key s"] tab(1,3) ids by blast+
  have sv: "chain_inv server_hash (server_key s') (server_buckets s k)"
    using chain_cong(1) [of "server_buckets s k" "server_key s'" "server_key s"] tab(2,4) assms(4) by blast
  show "tables_ok k s'"
    using assms(5) c(1) sv ids unfolding tables_ok_def assms(1-3) by metis
  show "homa_find_client_rpc s' k rid = homa_find_client_rpc s k rid"
    using c(2) by (simp add: homa_find_client_rpc_def assms(1))
  show "homa_find_server_rpc s' k a rid = homa_find_server_rpc s k a rid"
    unfolding homa_find_server_rpc_def assms(2)
    by (rule find_cong) (use tab(4) ids addr in auto)
qed

lemma lists_ok_cong:
  assumes "active_rpcs s' k = active_rpcs s k" and "dead_rpcs s' k = dead_rpcs s k"
    and "\<And>r. r \<in> set (active_rpcs s k) \<union> set (dead_rpcs s k) \<Longrightarrow>
      rp_hsk (ks_rpcs s' r) = rp_hsk (ks_rpcs s r) \<and> rp_state (ks_rpcs s' r) = rp_state (ks_rpcs s r)"
  shows "lists_ok k s' = lists_ok k s"
  using assms by (auto simp: lists_ok_def)

section \<open>Lookup\<close>

lemma find_client_iff:
  assumes "rpc_inv k s"
  shows "homa_find_client_rpc s k rid = Some r \<longleftrightarrow> r \<in> set (active_rpcs s k) \<and> is_client_rpc s r \<and> rp_id (ks_rpcs s r) = rid"
proof -
  have t: "tables_ok k s" using assms by (simp add: rpc_inv_def)
  note tab = tables_okD [OF t]
  have "r \<in> set (client_buckets s k (homa_client_rpc_bucket rid))"
    if "r \<in> set (active_rpcs s k)" "is_client_rpc s r" "rp_id (ks_rpcs s r) = rid"
    using tab(5) [OF that(1,2)] chain_invD(2) [OF tab(1)] that(3) by blast
  then show ?thesis
    unfolding homa_find_client_rpc_def chain_find_Some [OF tab(1)] using tab(3) by blast
qed

lemma find_server_Some:
  assumes "rpc_inv k s" and "homa_find_server_rpc s k a rid = Some r"
  shows "r \<in> set (active_rpcs s k)" "\<not> is_client_rpc s r" "rp_id (ks_rpcs s r) = rid"
    "pe_addr (ks_peers s (rp_peer (ks_rpcs s r))) = a"
proof -
  have t: "tables_ok k s" using assms by (simp add: rpc_inv_def)
  obtain i where "i < length (server_buckets s k (homa_server_rpc_bucket rid))" "r = server_buckets s k (homa_server_rpc_bucket rid) ! i"
    "rp_id (ks_rpcs s r) = rid" "pe_addr (ks_peers s (rp_peer (ks_rpcs s r))) = a"
    using assms(2) unfolding homa_find_server_rpc_def find_Some_iff by blast
  then show "r \<in> set (active_rpcs s k)" "\<not> is_client_rpc s r" "rp_id (ks_rpcs s r) = rid"
      "pe_addr (ks_peers s (rp_peer (ks_rpcs s r))) = a"
    using tables_okD(4) [OF t] by (metis nth_mem)+
qed

lemma find_server_None:
  assumes "rpc_inv k s" and "homa_find_server_rpc s k a rid = None" and "r \<in> set (active_rpcs s k)"
    and "\<not> is_client_rpc s r" and "rp_id (ks_rpcs s r) = rid"
  shows "pe_addr (ks_peers s (rp_peer (ks_rpcs s r))) \<noteq> a"
proof -
  have t: "tables_ok k s" using assms by (simp add: rpc_inv_def)
  obtain b where b: "r \<in> set (server_buckets s k b)" using tables_okD(6) [OF t assms(3,4)] by blast
  then have "b = homa_server_rpc_bucket rid"
    using chain_invD(2) [OF tables_okD(2) [OF t] b] assms(5) by (simp add: server_key_def Let_def)
  then show ?thesis using assms(2,5) b unfolding homa_find_server_rpc_def find_None_iff by blast
qed

section \<open>New client RPCs\<close>

lemma peer_find_frame:
  assumes "homa_peer_find hash_32 mem route addr s = (res, s1)"
  shows "ks_rpcs s1 = ks_rpcs s" "ks_socks s1 = ks_socks s" "ks_homa s1 = ks_homa s" "ks_interests s1 = ks_interests s"
    "mem \<noteq> Some p \<Longrightarrow> ks_peers s1 p = ks_peers s p"
  using assms by (auto simp: homa_peer_find_def peer_link_def Let_def split: option.splits sum.splits)

text \<open>The memory for a new RPC and for a new peer is not in use.\<close>

definition fresh_mem :: "rpc_env \<Rightarrow> rpc_ptr option \<Rightarrow> sock_ptr \<Rightarrow> kstate \<Rightarrow> bool" where
  "fresh_mem e mem k s \<longleftrightarrow> (\<forall>r. mem = Some r \<longrightarrow> r \<notin> set (active_rpcs s k) \<and> r \<notin> set (dead_rpcs s k)) \<and>
     (\<forall>p r. re_peer_mem e = Some p \<and> r \<in> set (active_rpcs s k) \<longrightarrow> rp_peer (ks_rpcs s r) \<noteq> p)"

text \<open>A fresh RPC, not linked yet, does not disturb the others.\<close>

lemma fresh_rpc_inv:
  assumes inv: "rpc_inv k s" and fresh: "fresh_mem e (Some r) k s"
    and find: "homa_peer_find (re_hash e) (re_peer_mem e) route addr s = (res, s1)"
    and s2: "s2 = upd_rpc r f s1"
  shows "rpc_inv k s2" and "homa_find_client_rpc s2 k rid = homa_find_client_rpc s k rid"
    and "homa_find_server_rpc s2 k a rid = homa_find_server_rpc s k a rid"
    and "x \<in> set (active_rpcs s k) \<Longrightarrow> server_key s2 x = server_key s x"
proof -
  note frame = peer_find_frame [OF find]
  have r: "r \<notin> set (active_rpcs s k)" "r \<notin> set (dead_rpcs s k)" using fresh by (simp_all add: fresh_mem_def)
  have key: "server_key s2 x = server_key s x" if "x \<in> set (active_rpcs s k)" for x
  proof -
    have "re_peer_mem e \<noteq> Some (rp_peer (ks_rpcs s x))" using fresh that unfolding fresh_mem_def by blast
    moreover have "x \<noteq> r" using that r by blast
    ultimately show ?thesis using frame(5) by (simp add: server_key_def Let_def s2 frame(1))
  qed
  then show "x \<in> set (active_rpcs s k) \<Longrightarrow> server_key s2 x = server_key s x" .
  have socks: "ks_socks s2 = ks_socks s" by (simp add: s2 frame)
  have t: "tables_ok k s" using inv by (simp add: rpc_inv_def)
  note cong = tables_ok_cong [of s2 k s, OF _ _ _ key t]
  have "lists_ok k s2 = lists_ok k s" using r by (intro lists_ok_cong) (auto simp: s2 frame)
  moreover have "queues_ok k s2 = queues_ok k s" by (simp add: queues_ok_def socks)
  ultimately show "rpc_inv k s2" using inv cong(1) socks by (simp add: rpc_inv_def)
  show "homa_find_client_rpc s2 k rid = homa_find_client_rpc s k rid" by (rule cong(2)) (simp_all add: socks)
  show "homa_find_server_rpc s2 k a rid = homa_find_server_rpc s k a rid" by (rule cong(3)) (simp_all add: socks)
qed

text \<open>Linking a new client RPC.\<close>

definition link_client :: "sock_ptr \<Rightarrow> rpc_ptr \<Rightarrow> kstate \<Rightarrow> kstate" where
  "link_client k r s = upd_sock k (\<lambda>h. h\<lparr>
     hs_client_rpc_buckets := chain_add homa_client_rpc_bucket (client_key s) r (hs_client_rpc_buckets h),
     hs_active_rpcs := hs_active_rpcs h @ [r]\<rparr>) s"

lemma link_client_inv:
  assumes inv: "rpc_inv k s" and r: "r \<notin> set (active_rpcs s k)" "rp_hsk (ks_rpcs s r) = k" "rp_state (ks_rpcs s r) \<noteq> RPC_DEAD"
    and client: "is_client_rpc s r" and new: "homa_find_client_rpc s k (rp_id (ks_rpcs s r)) = None"
  shows "rpc_inv k (link_client k r s)"
    and "homa_find_client_rpc (link_client k r s) k rid = (if rid = rp_id (ks_rpcs s r) then Some r else homa_find_client_rpc s k rid)"
    and "homa_find_server_rpc (link_client k r s) k a rid = homa_find_server_rpc s k a rid"
proof -
  let ?s = "link_client k r s"
  have sock: "client_buckets ?s k = chain_add homa_client_rpc_bucket (client_key s) r (client_buckets s k)"
    "server_buckets ?s k = server_buckets s k" "active_rpcs ?s k = active_rpcs s k @ [r]" "dead_rpcs ?s k = dead_rpcs s k"
    "waiting ?s k = waiting s k" "ready_reqs ?s k = ready_reqs s k" "ready_resps ?s k = ready_resps s k"
    "ks_rpcs ?s = ks_rpcs s" "ks_peers ?s = ks_peers s" by (simp_all add: link_client_def)
  have keys: "server_key ?s = server_key s" by (simp add: server_key_def fun_eq_iff sock)
  have t: "tables_ok k s" and dead: "r \<notin> set (dead_rpcs s k)" using inv r(3) by (auto simp: rpc_inv_def lists_ok_def)
  note new' = new [unfolded homa_find_client_rpc_def]
  have "tables_ok k ?s"
    unfolding tables_ok_def sock keys chain_add_members
    using chain.add_inv [OF tables_okD(1) [OF t] new'] tables_okD(2-6) [OF t] client r(1) by auto
  moreover have "lists_ok k ?s" using inv r by (auto simp: rpc_inv_def lists_ok_def sock)
  moreover have "queues_ok k ?s" using inv by (auto simp: rpc_inv_def queues_ok_def sock)
  ultimately show "rpc_inv k ?s" by (simp add: rpc_inv_def)
  show "homa_find_client_rpc ?s k rid = (if rid = rp_id (ks_rpcs s r) then Some r else homa_find_client_rpc s k rid)"
    unfolding homa_find_client_rpc_def sock chain.lookup_add [OF tables_okD(1) [OF t] new'] ..
  show "homa_find_server_rpc ?s k a rid = homa_find_server_rpc s k a rid"
    by (simp add: homa_find_server_rpc_def sock)
qed

definition client_outcome ::
  "rpc_ptr option \<Rightarrow> sock_ptr \<Rightarrow> sockaddr_in_union \<Rightarrow> kstate \<Rightarrow> errno + rpc_ptr \<Rightarrow> kstate \<Rightarrow> bool" where
  "client_outcome mem k dest s res s' \<longleftrightarrow>
     (case res of
       Inl err \<Rightarrow> active_rpcs s' k = active_rpcs s k \<and> (\<forall>rid. homa_find_client_rpc s' k rid = homa_find_client_rpc s k rid)
     | Inr r \<Rightarrow> mem = Some r \<and> \<not> hs_shutdown (ks_socks s k) \<and> active_rpcs s' k = active_rpcs s k @ [r] \<and>
         rp_state (ks_rpcs s' r) = RPC_OUTGOING \<and> rp_dport (ks_rpcs s' r) = sa_port dest \<and>
         h_next_outgoing_id (ks_homa s') = h_next_outgoing_id (ks_homa s) + 2 \<and>
         (\<forall>rid. homa_find_client_rpc s' k rid =
            (if rid = h_next_outgoing_id (ks_homa s) then Some r else homa_find_client_rpc s k rid)))"

lemma new_client_result:
  assumes inv: "rpc_inv k s" and fresh: "fresh_mem e mem k s" and client: "homa_is_client (h_next_outgoing_id (ks_homa s))"
    and new: "homa_find_client_rpc s k (h_next_outgoing_id (ks_homa s)) = None"
    and run: "homa_rpc_new_client e mem k dest s = (res, s')"
  shows "rpc_inv k s'" and "homa_find_server_rpc s' k a rid = homa_find_server_rpc s k a rid"
    and "client_outcome mem k dest s res s'"
proof -
  let ?id = "h_next_outgoing_id (ks_homa s)"
  define s0 where "s0 = upd_homa (\<lambda>h. h\<lparr>h_next_outgoing_id := ?id + 2\<rparr>) s"
  have s0: "ks_socks s0 = ks_socks s" "ks_rpcs s0 = ks_rpcs s" "ks_peers s0 = ks_peers s" "h_next_outgoing_id (ks_homa s0) = ?id + 2"
    by (simp_all add: s0_def)
  have f0: "fresh_mem e mem k s0" using fresh by (simp add: fresh_mem_def s0)
  have key0: "server_key s0 = server_key s" by (simp add: server_key_def fun_eq_iff s0)
  have inv0: "rpc_inv k s0"
    using inv by (simp add: rpc_inv_def tables_ok_def lists_ok_def queues_ok_def s0 key0)
  have look0: "homa_find_client_rpc s0 = homa_find_client_rpc s" "homa_find_server_rpc s0 = homa_find_server_rpc s"
    by (simp_all add: homa_find_client_rpc_def homa_find_server_rpc_def fun_eq_iff s0)
  have "rpc_inv k s' \<and> homa_find_server_rpc s' k a rid = homa_find_server_rpc s k a rid \<and>
    client_outcome mem k dest s res s'"
  proof (cases mem)
    case None
    then show ?thesis using run inv by (auto simp: homa_rpc_new_client_def client_outcome_def)
  next
    case (Some r)
    obtain pres s1 where find: "homa_peer_find (re_hash e) (re_peer_mem e) (re_route e) (canonical_ipv6_addr (Some dest)) s0 = (pres, s1)"
      by fastforce
    note frame = peer_find_frame [OF find]
    show ?thesis
    proof (cases pres)
      case (Inl err)
      then have "res = Inl err" "s' = s1" using run Some find by (simp_all add: homa_rpc_new_client_def Let_def s0_def [symmetric])
      then show ?thesis
        using fresh_rpc_inv [OF inv0 f0 [unfolded Some] find, of s1 "\<lambda>x. x"] frame s0 look0 by (simp add: upd_rpc_def client_outcome_def)
    next
      case (Inr peer)
      define s2 where "s2 = upd_rpc r (rpc_init k RPC_OUTGOING ?id peer (sa_port dest) (h_timer_ticks (ks_homa s1)) (re_now e)) s1"
      note s2 = fresh_rpc_inv [OF inv0 f0 [unfolded Some] find s2_def]
      have sock2: "ks_socks s2 = ks_socks s" by (simp add: s2_def frame s0)
      have run': "(res, s') = (if hs_shutdown (ks_socks s k) then (Inl ESHUTDOWN, s2) else (Inr r, link_client k r s2))"
        using run sock2 unfolding homa_rpc_new_client_def Some Let_def option.case s0_def [symmetric] find prod.case Inr sum.case
          s2_def [symmetric] link_client_def [symmetric] by simp
      have sel: "ks_socks s2 = ks_socks s" "h_next_outgoing_id (ks_homa s2) = ?id + 2" "rp_id (ks_rpcs s2 r) = ?id"
        "rp_hsk (ks_rpcs s2 r) = k" "rp_state (ks_rpcs s2 r) = RPC_OUTGOING" "rp_dport (ks_rpcs s2 r) = sa_port dest"
        by (simp_all add: s2_def frame s0 rpc_init_def)
      have "r \<notin> set (active_rpcs s2 k)" using fresh Some by (simp add: sel fresh_mem_def)
      note link = link_client_inv [OF s2(1) this sel(4)]
      show ?thesis
      proof (cases "hs_shutdown (ks_socks s k)")
        case True
        then show ?thesis using run' s2 sel look0 by (simp add: client_outcome_def)
      next
        case False
        have "homa_find_client_rpc s2 k (rp_id (ks_rpcs s2 r)) = None" using new s2(2) sel look0 by simp
        note link' = link [OF _ _ this]
        have eqs: "res = Inr r" "s' = link_client k r s2" using run' False by simp_all
        have lsel: "active_rpcs s' k = active_rpcs s k @ [r]" "ks_rpcs s' = ks_rpcs s2" "ks_homa s' = ks_homa s2"
          by (simp_all add: eqs link_client_def sel)
        show ?thesis
          using link' client Some False s2(2,3) sel look0 lsel by (simp add: eqs client_outcome_def)
      qed
    qed
  qed
  then show "rpc_inv k s'" "homa_find_server_rpc s' k a rid = homa_find_server_rpc s k a rid" "client_outcome mem k dest s res s'" by blast+
qed

section \<open>New server RPCs\<close>

text \<open>Handing off touches the flags, the interests and the ready queues.\<close>

lemma handoff_cases:
  obtains "homa_rpc_handoff a bt r s = s" | i where "homa_rpc_handoff a bt r s = thread_waiting i r s" |
    "r \<notin> set (ready_resps s (rp_hsk (ks_rpcs s r)))"
    "homa_rpc_handoff a bt r s = upd_sock (rp_hsk (ks_rpcs s r)) (\<lambda>h. h\<lparr>hs_ready_responses := hs_ready_responses h @ [r]\<rparr>) s" |
    "r \<notin> set (ready_reqs s (rp_hsk (ks_rpcs s r)))"
    "homa_rpc_handoff a bt r s = upd_sock (rp_hsk (ks_rpcs s r)) (\<lambda>h. h\<lparr>hs_ready_requests := hs_ready_requests h @ [r]\<rparr>) s"
proof -
  let ?k = "rp_hsk (ks_rpcs s r)"
  let ?ints = "if is_client_rpc s r then resp_ints s ?k else req_ints s ?k"
  note eq = homa_rpc_handoff_def [of a bt r s, unfolded Let_def]
  consider "RPC_HANDING_OFF \<in> rp_flags (ks_rpcs s r) \<or> r \<in> set (ready_reqs s ?k) \<or> r \<in> set (ready_resps s ?k)" |
    (new) "RPC_HANDING_OFF \<notin> rp_flags (ks_rpcs s r)" "r \<notin> set (ready_reqs s ?k)" "r \<notin> set (ready_resps s ?k)" by blast
  then show thesis
  proof cases
    case 1
    then show ?thesis using eq that(1) by simp
  next
    case new
    show ?thesis
    proof (cases "rp_interest (ks_rpcs s r)")
      case (Some i)
      then show ?thesis using eq new that(2) [of i] by simp
    next
      case None
      show ?thesis
      proof (cases "homa_choose_interest a bt s ?ints")
        case (Some i)
        then show ?thesis using eq new None that(2) [of i] by simp
      next
        case none: None
        have "homa_rpc_handoff a bt r s = (if is_client_rpc s r
            then upd_sock ?k (\<lambda>h. h\<lparr>hs_ready_responses := hs_ready_responses h @ [r]\<rparr>) s
            else upd_sock ?k (\<lambda>h. h\<lparr>hs_ready_requests := hs_ready_requests h @ [r]\<rparr>) s)"
          unfolding eq none None option.case using new by simp
        then show ?thesis using new that(3,4) by (cases "is_client_rpc s r") simp_all
      qed
    qed
  qed
qed

lemma thread_waiting_frame:
  "client_buckets (thread_waiting i r s) j = client_buckets s j" "server_buckets (thread_waiting i r s) j = server_buckets s j"
  "active_rpcs (thread_waiting i r s) j = active_rpcs s j" "dead_rpcs (thread_waiting i r s) j = dead_rpcs s j"
  "waiting (thread_waiting i r s) j = waiting s j" "hs_shutdown (ks_socks (thread_waiting i r s) j) = hs_shutdown (ks_socks s j)"
  "hs_buffer_pool (ks_socks (thread_waiting i r s) j) = hs_buffer_pool (ks_socks s j)"
  "ready_reqs (thread_waiting i r s) j = ready_reqs s j" "ready_resps (thread_waiting i r s) j = ready_resps s j"
  by (cases "rp_hsk (ks_rpcs s r) = j"; simp add: thread_waiting_sel(9,10))+

lemma thread_waiting_frame2:
  "ks_peers (thread_waiting i r s) = ks_peers s" "ks_homa (thread_waiting i r s) = ks_homa s"
  "rp_state (ks_rpcs (thread_waiting i r s) x) = rp_state (ks_rpcs s x)" "rp_peer (ks_rpcs (thread_waiting i r s) x) = rp_peer (ks_rpcs s x)"
  "rp_dport (ks_rpcs (thread_waiting i r s) x) = rp_dport (ks_rpcs s x)" "rp_msgin (ks_rpcs (thread_waiting i r s) x) = rp_msgin (ks_rpcs s x)"
  "rp_msgout (ks_rpcs (thread_waiting i r s) x) = rp_msgout (ks_rpcs s x)" "ks_xmits (thread_waiting i r s) = ks_xmits s"
  unfolding thread_waiting_def Let_def by (simp_all split: option.split)

lemma handoff_frame:
  fixes a bt r s defines "s' \<equiv> homa_rpc_handoff a bt r s"
  shows "client_buckets s' j = client_buckets s j" "server_buckets s' j = server_buckets s j" "active_rpcs s' j = active_rpcs s j"
    "dead_rpcs s' j = dead_rpcs s j" "waiting s' j = waiting s j" "hs_shutdown (ks_socks s' j) = hs_shutdown (ks_socks s j)"
    "hs_buffer_pool (ks_socks s' j) = hs_buffer_pool (ks_socks s j)" "ks_peers s' = ks_peers s" "ks_homa s' = ks_homa s"
    "rp_id (ks_rpcs s' x) = rp_id (ks_rpcs s x)" "rp_hsk (ks_rpcs s' x) = rp_hsk (ks_rpcs s x)"
    "rp_state (ks_rpcs s' x) = rp_state (ks_rpcs s x)" "rp_peer (ks_rpcs s' x) = rp_peer (ks_rpcs s x)"
    "rp_dport (ks_rpcs s' x) = rp_dport (ks_rpcs s x)" "rp_msgin (ks_rpcs s' x) = rp_msgin (ks_rpcs s x)"
    "rp_msgout (ks_rpcs s' x) = rp_msgout (ks_rpcs s x)" "ks_xmits s' = ks_xmits s"
  unfolding s'_def
  by (cases rule: handoff_cases [of a bt r s];
      simp add: thread_waiting_frame thread_waiting_frame2 thread_waiting_sel(7,8))+

lemma handoff_ready:
  fixes a bt r s defines "s' \<equiv> homa_rpc_handoff a bt r s"
  shows "ready_reqs s' j = ready_reqs s j \<or> rp_hsk (ks_rpcs s r) = j \<and> r \<notin> set (ready_reqs s j) \<and> ready_reqs s' j = ready_reqs s j @ [r]"
    and "ready_resps s' j = ready_resps s j \<or> rp_hsk (ks_rpcs s r) = j \<and> r \<notin> set (ready_resps s j) \<and> ready_resps s' j = ready_resps s j @ [r]"
  unfolding s'_def
  by (cases rule: handoff_cases [of a bt r s]; simp add: thread_waiting_frame)+

lemma handoff_rpc_inv:
  assumes inv: "rpc_inv k s" and r: "rp_hsk (ks_rpcs s r) = k \<Longrightarrow> r \<in> set (active_rpcs s k)"
  shows "rpc_inv k (homa_rpc_handoff a bt r s)"
    and "homa_find_client_rpc (homa_rpc_handoff a bt r s) k rid = homa_find_client_rpc s k rid"
    and "homa_find_server_rpc (homa_rpc_handoff a bt r s) k addr rid = homa_find_server_rpc s k addr rid"
proof -
  let ?s = "homa_rpc_handoff a bt r s"
  note frame = handoff_frame [of a bt r s]
  have key: "server_key ?s x = server_key s x" for x by (simp add: server_key_def Let_def frame)
  have t: "tables_ok k s" using inv by (simp add: rpc_inv_def)
  note cong = tables_ok_cong [of ?s k s, OF frame(1-3) key t]
  have "lists_ok k ?s" using lists_ok_cong [of ?s k s] inv by (simp add: rpc_inv_def frame)
  moreover have "queues_ok k ?s"
    using inv handoff_ready [of a bt r s k] r unfolding rpc_inv_def queues_ok_def frame by auto
  ultimately show "rpc_inv k ?s" using cong(1) by (simp add: rpc_inv_def)
  show "homa_find_client_rpc ?s k rid = homa_find_client_rpc s k rid" "homa_find_server_rpc ?s k addr rid = homa_find_server_rpc s k addr rid"
    by (rule cong)+
qed

text \<open>Starting a message touches the buffer pool, the queue for space and the message.\<close>

lemma insert_before_queue [simp]:
  "set (insert_before P x xs) = insert x (set xs)" "x \<notin> set xs \<Longrightarrow> distinct (insert_before P x xs) = distinct xs"
  by (induction xs) auto

lemma allocate_waiting:
  assumes "homa_pool_allocate fuel clk core r s = Some (err, s')"
  shows "waiting s' j = waiting s j \<or> j = rp_hsk (ks_rpcs s r) \<and> (\<exists>P. waiting s' j = insert_before P r (waiting s j))"
  using assms
  by (auto simp: homa_pool_allocate_def wait_for_space_def set_bpages_needed_def Let_def split: option.splits if_splits)

lemma buf_view_socks:
  assumes "buf_view s' = buf_view s"
  shows "client_buckets s' j = client_buckets s j" "server_buckets s' j = server_buckets s j" "active_rpcs s' j = active_rpcs s j"
    "dead_rpcs s' j = dead_rpcs s j" "ready_reqs s' j = ready_reqs s j" "ready_resps s' j = ready_resps s j"
    "hs_shutdown (ks_socks s' j) = hs_shutdown (ks_socks s j)"
proof -
  have j: "sock_bufs_free (ks_socks s' j) = sock_bufs_free (ks_socks s j)"
    using arg_cong [OF assms, of "\<lambda>t. ks_socks t j"] by (simp add: buf_view_def)
  show "client_buckets s' j = client_buckets s j" "server_buckets s' j = server_buckets s j" "active_rpcs s' j = active_rpcs s j"
    "dead_rpcs s' j = dead_rpcs s j" "ready_reqs s' j = ready_reqs s j" "ready_resps s' j = ready_resps s j"
    "hs_shutdown (ks_socks s' j) = hs_shutdown (ks_socks s j)"
    using arg_cong [OF j, of hs_client_rpc_buckets] arg_cong [OF j, of hs_server_rpc_buckets] arg_cong [OF j, of hs_active_rpcs]
      arg_cong [OF j, of hs_dead_rpcs] arg_cong [OF j, of hs_ready_requests] arg_cong [OF j, of hs_ready_responses]
      arg_cong [OF j, of hs_shutdown]
    by (simp_all add: sock_bufs_free_def)
qed

lemma message_in_init_frame:
  assumes "homa_message_in_init fuel clk core r len unsched s = Some (err, s')"
  shows "client_buckets s' j = client_buckets s j" "server_buckets s' j = server_buckets s j" "active_rpcs s' j = active_rpcs s j"
    "dead_rpcs s' j = dead_rpcs s j" "ready_reqs s' j = ready_reqs s j" "ready_resps s' j = ready_resps s j"
    "hs_shutdown (ks_socks s' j) = hs_shutdown (ks_socks s j)" "ks_peers s' = ks_peers s" "ks_homa s' = ks_homa s"
    "x \<noteq> r \<Longrightarrow> ks_rpcs s' x = ks_rpcs s x" "(ks_rpcs s' r)\<lparr>rp_msgin := m\<rparr> = (ks_rpcs s r)\<lparr>rp_msgin := m\<rparr>"
    "waiting s' j = waiting s j \<or> j = rp_hsk (ks_rpcs s r) \<and> (\<exists>P. waiting s' j = insert_before P r (waiting s j))"
proof -
  define s0 where "s0 = upd_msgin r (\<lambda>m. message_in_fields m len unsched) s"
  obtain e s1 where alloc: "homa_pool_allocate fuel clk core r s0 = Some (e, s1)"
    and s': "s' = s1 \<or> s' = upd_msgin r (\<lambda>m. m\<lparr>mi_granted := 0\<rparr>) s1"
    using assms unfolding homa_message_in_init_def s0_def [symmetric] by (auto split: option.splits if_splits)
  note fr = allocate_frame [OF alloc] and w = allocate_waiting [OF alloc]
  note bv = buf_view_rpc [OF fr(1)] and bs = buf_view_socks [OF fr(1)]
  have s0: "ks_socks s0 = ks_socks s" "ks_peers s0 = ks_peers s" "ks_homa s0 = ks_homa s" "x \<noteq> r \<Longrightarrow> ks_rpcs s0 x = ks_rpcs s x"
    "rp_hsk (ks_rpcs s0 r) = rp_hsk (ks_rpcs s r)" "(ks_rpcs s0 r)\<lparr>rp_msgin := m\<rparr> = (ks_rpcs s r)\<lparr>rp_msgin := m\<rparr>" for x m
    by (simp_all add: s0_def)
  have socks: "ks_socks s' = ks_socks s1" "ks_peers s' = ks_peers s1" "ks_homa s' = ks_homa s1" using s' by auto
  show "client_buckets s' j = client_buckets s j" "server_buckets s' j = server_buckets s j" "active_rpcs s' j = active_rpcs s j"
    "dead_rpcs s' j = dead_rpcs s j" "ready_reqs s' j = ready_reqs s j" "ready_resps s' j = ready_resps s j"
    "hs_shutdown (ks_socks s' j) = hs_shutdown (ks_socks s j)" "ks_peers s' = ks_peers s" "ks_homa s' = ks_homa s"
    unfolding socks by (simp_all add: bs bv s0)
  show "x \<noteq> r \<Longrightarrow> ks_rpcs s' x = ks_rpcs s x" using s' fr(2) s0(4) by auto
  have "(ks_rpcs s1 r)\<lparr>rp_msgin := m\<rparr> = (ks_rpcs s0 r)\<lparr>rp_msgin := m\<rparr>"
    using arg_cong [OF bv(1) [of r], of "\<lambda>x. x\<lparr>rp_msgin := m\<rparr>"] by (simp add: rpc_bufs_free_def)
  then show "(ks_rpcs s' r)\<lparr>rp_msgin := m\<rparr> = (ks_rpcs s r)\<lparr>rp_msgin := m\<rparr>" using s' s0 by auto
  show "waiting s' j = waiting s j \<or> j = rp_hsk (ks_rpcs s r) \<and> (\<exists>P. waiting s' j = insert_before P r (waiting s j))"
    using w [of j] unfolding socks s0(1,5) .
qed

text \<open>Linking a new server RPC, which may be in the queue for buffer space already.\<close>

definition link_server :: "sock_ptr \<Rightarrow> rpc_ptr \<Rightarrow> kstate \<Rightarrow> kstate" where
  "link_server k r s = upd_sock k (\<lambda>h. h\<lparr>
     hs_server_rpc_buckets := chain_add server_hash (server_key s) r (hs_server_rpc_buckets h),
     hs_active_rpcs := hs_active_rpcs h @ [r]\<rparr>) s"

lemma link_server_inv:
  assumes t: "tables_ok k s" and l: "lists_ok k s"
    and q: "distinct (waiting s k)" "distinct (ready_reqs s k)" "distinct (ready_resps s k)"
      "set (waiting s k) \<union> set (ready_reqs s k) \<union> set (ready_resps s k) \<subseteq> insert r (set (active_rpcs s k))"
    and r: "r \<notin> set (active_rpcs s k)" "rp_hsk (ks_rpcs s r) = k" "rp_state (ks_rpcs s r) \<noteq> RPC_DEAD"
    and server: "\<not> is_client_rpc s r" and new: "chain_find server_hash (server_key s) (server_buckets s k) (server_key s r) = None"
  shows "rpc_inv k (link_server k r s)"
    and "homa_find_client_rpc (link_server k r s) k rid = homa_find_client_rpc s k rid"
    and "chain_find server_hash (server_key (link_server k r s)) (server_buckets (link_server k r s) k) key =
      (if key = server_key s r then Some r else chain_find server_hash (server_key s) (server_buckets s k) key)"
    and "homa_find_server_rpc (link_server k r s) k a rid =
      (if rid = rp_id (ks_rpcs s r) \<and> a = pe_addr (ks_peers s (rp_peer (ks_rpcs s r))) then Some r else homa_find_server_rpc s k a rid)"
proof -
  let ?s = "link_server k r s"
  have sock: "server_buckets ?s k = chain_add server_hash (server_key s) r (server_buckets s k)"
    "client_buckets ?s k = client_buckets s k" "active_rpcs ?s k = active_rpcs s k @ [r]" "dead_rpcs ?s k = dead_rpcs s k"
    "waiting ?s k = waiting s k" "ready_reqs ?s k = ready_reqs s k" "ready_resps ?s k = ready_resps s k"
    "ks_rpcs ?s = ks_rpcs s" "ks_peers ?s = ks_peers s" by (simp_all add: link_server_def)
  have keys: "server_key ?s = server_key s" by (simp add: server_key_def fun_eq_iff sock)
  have dead: "r \<notin> set (dead_rpcs s k)" using l r(3) by (auto simp: lists_ok_def)
  have "tables_ok k ?s"
    unfolding tables_ok_def sock keys chain_add_members
    using chain.add_inv [OF tables_okD(2) [OF t] new] tables_okD(1,3-6) [OF t] server r(1) by auto
  moreover have "lists_ok k ?s" using l r by (auto simp: lists_ok_def sock)
  moreover have "queues_ok k ?s" using q by (auto simp: queues_ok_def sock)
  ultimately show "rpc_inv k ?s" by (simp add: rpc_inv_def)
  show "homa_find_client_rpc ?s k rid = homa_find_client_rpc s k rid"
    by (simp add: homa_find_client_rpc_def sock)
  show "chain_find server_hash (server_key ?s) (server_buckets ?s k) key =
      (if key = server_key s r then Some r else chain_find server_hash (server_key s) (server_buckets s k) key)"
    unfolding sock keys by (rule chain.lookup_add [OF tables_okD(2) [OF t] new])
  show "homa_find_server_rpc ?s k a rid =
      (if rid = rp_id (ks_rpcs s r) \<and> a = pe_addr (ks_peers s (rp_peer (ks_rpcs s r))) then Some r else homa_find_server_rpc s k a rid)"
    unfolding homa_find_server_rpc_def sock by (auto simp: chain_add_def server_key_def Let_def)
qed

lemma flags_rpc_inv:
  assumes "\<And>rpc. rp_id (f rpc) = rp_id rpc \<and> rp_hsk (f rpc) = rp_hsk rpc \<and> rp_state (f rpc) = rp_state rpc \<and>
      rp_peer (f rpc) = rp_peer rpc \<and> rp_dport (f rpc) = rp_dport rpc" and "rpc_inv k s"
  shows "rpc_inv k (upd_rpc r f s)" "homa_find_client_rpc (upd_rpc r f s) k rid = homa_find_client_rpc s k rid"
    "homa_find_server_rpc (upd_rpc r f s) k a rid = homa_find_server_rpc s k a rid" "server_key (upd_rpc r f s) = server_key s"
proof -
  have key: "server_key (upd_rpc r f s) x = server_key s x" for x using assms(1) by (simp add: server_key_def Let_def)
  then show "server_key (upd_rpc r f s) = server_key s" by blast
  have t: "tables_ok k s" using assms(2) by (simp add: rpc_inv_def)
  note cong = tables_ok_cong [of "upd_rpc r f s" k s, OF _ _ _ key t]
  have "lists_ok k (upd_rpc r f s) = lists_ok k s" using assms(1) by (intro lists_ok_cong) simp_all
  then show "rpc_inv k (upd_rpc r f s)" using cong(1) assms(2) by (simp add: rpc_inv_def queues_ok_def)
  show "homa_find_client_rpc (upd_rpc r f s) k rid = homa_find_client_rpc s k rid"
    "homa_find_server_rpc (upd_rpc r f s) k a rid = homa_find_server_rpc s k a rid"
    by (rule cong(2,3); simp)+
qed

lemma peer_find_addr:
  assumes "peertab_inv hash_32 s" and "homa_peer_find hash_32 mem route addr s = (Inr p, s1)"
  shows "pe_addr (ks_peers s1 p) = addr"
proof (cases "peer_lookup hash_32 addr s")
  case (Some q)
  then show ?thesis using peer_lookup_key [OF assms(1) Some] assms(2) by (simp add: homa_peer_find_def)
next
  case None
  then show ?thesis
    using assms(2)
    by (auto simp: homa_peer_find_def peer_link_def peer_init_before_def peer_init_after_def Let_def split: option.splits sum.splits)
qed

lemma message_in_init_error:
  assumes "homa_message_in_init fuel clk core r len unsched s = Some (Some err, s')"
  shows "s' = upd_msgin r (\<lambda>m. message_in_fields m len unsched) s"
  using assms by (auto simp: homa_message_in_init_def homa_pool_allocate_def Let_def split: option.splits if_splits)

text \<open>The state of a new server RPC once its message is initialised, before it is linked.\<close>

lemma started_rpc:
  assumes inv: "rpc_inv k s" and fresh: "fresh_mem e (Some r) k s"
    and find: "homa_peer_find (re_hash e) (re_peer_mem e) (re_route e) source s = (Inr peer, s1)" and addr: "peertab_inv (re_hash e) s"
    and s2: "s2 = upd_rpc r (rpc_init k RPC_INCOMING rid peer dport ticks now) s1"
    and start: "homa_message_in_init fuel clk core r len unsched s2 = Some (err, s3)"
  shows "tables_ok k s3" "lists_ok k s3" "distinct (waiting s3 k)" "distinct (ready_reqs s3 k)" "distinct (ready_resps s3 k)"
    "set (waiting s3 k) \<union> set (ready_reqs s3 k) \<union> set (ready_resps s3 k) \<subseteq> insert r (set (active_rpcs s3 k))"
    "active_rpcs s3 k = active_rpcs s k" "hs_shutdown (ks_socks s3 k) = hs_shutdown (ks_socks s k)"
    "rp_hsk (ks_rpcs s3 r) = k" "rp_state (ks_rpcs s3 r) = RPC_INCOMING" "server_key s3 r = (rid, dport, source)"
    "chain_find server_hash (server_key s3) (server_buckets s3 k) key = chain_find server_hash (server_key s) (server_buckets s k) key"
    "homa_find_client_rpc s3 k i = homa_find_client_rpc s k i" "homa_find_server_rpc s3 k a i = homa_find_server_rpc s k a i"
    "err \<noteq> None \<Longrightarrow> rpc_inv k s3"
proof -
  note f2 = fresh_rpc_inv [OF inv fresh find s2] and fr = message_in_init_frame [OF start] and pf = peer_find_frame [OF find]
  have r: "r \<notin> set (active_rpcs s k)" "r \<notin> set (dead_rpcs s k)" "r \<notin> set (waiting s k)"
    using fresh inv by (auto simp: fresh_mem_def rpc_inv_def queues_ok_def)
  have s2': "ks_socks s2 = ks_socks s" "rp_hsk (ks_rpcs s2 r) = k" by (simp_all add: s2 pf rpc_init_def)
  have msg: "rp_hsk (ks_rpcs s3 r) = rp_hsk (ks_rpcs s2 r)" "rp_state (ks_rpcs s3 r) = rp_state (ks_rpcs s2 r)"
      "rp_id (ks_rpcs s3 r) = rp_id (ks_rpcs s2 r)" "rp_dport (ks_rpcs s3 r) = rp_dport (ks_rpcs s2 r)" "rp_peer (ks_rpcs s3 r) = rp_peer (ks_rpcs s2 r)"
    using arg_cong [OF fr(11) [of undefined], of rp_hsk] arg_cong [OF fr(11) [of undefined], of rp_state]
      arg_cong [OF fr(11) [of undefined], of rp_id] arg_cong [OF fr(11) [of undefined], of rp_dport]
      arg_cong [OF fr(11) [of undefined], of rp_peer] by simp_all
  have key: "server_key s3 x = server_key s2 x" for x
    by (cases "x = r") (simp_all add: server_key_def Let_def fr(8,10) msg)
  have t2: "tables_ok k s2" "lists_ok k s2" "queues_ok k s2" using f2(1) by (simp_all add: rpc_inv_def)
  note cong = tables_ok_cong [OF fr(1,2,3) key t2(1)]
  show t3: "tables_ok k s3" by (rule cong(1))
  have same: "rp_hsk (ks_rpcs s3 x) = rp_hsk (ks_rpcs s2 x) \<and> rp_state (ks_rpcs s3 x) = rp_state (ks_rpcs s2 x)" for x
    by (cases "x = r") (simp_all add: fr(10) msg)
  show l3: "lists_ok k s3" using lists_ok_cong [OF fr(3,4) same] t2(2) by simp
  show "active_rpcs s3 k = active_rpcs s k" "hs_shutdown (ks_socks s3 k) = hs_shutdown (ks_socks s k)" by (simp_all add: fr s2')
  have w: "waiting s3 k = waiting s k \<or> (\<exists>P. waiting s3 k = insert_before P r (waiting s k))"
    using fr(12) [of k] by (simp add: s2')
  have q: "distinct (waiting s k)" "distinct (ready_reqs s k)" "distinct (ready_resps s k)"
      "set (waiting s k) \<union> set (ready_reqs s k) \<union> set (ready_resps s k) \<subseteq> set (active_rpcs s k)"
    using inv by (simp_all add: rpc_inv_def queues_ok_def)
  show "distinct (waiting s3 k)" using w q(1) r(3) by auto
  show "distinct (ready_reqs s3 k)" "distinct (ready_resps s3 k)" using q by (simp_all add: fr s2')
  show "set (waiting s3 k) \<union> set (ready_reqs s3 k) \<union> set (ready_resps s3 k) \<subseteq> insert r (set (active_rpcs s3 k))"
    using w q(4) by (auto simp: fr s2')
  show "rp_hsk (ks_rpcs s3 r) = k" "rp_state (ks_rpcs s3 r) = RPC_INCOMING" by (simp_all add: msg s2 rpc_init_def)
  have "pe_addr (ks_peers s2 peer) = source" using peer_find_addr [OF addr find] by (simp add: s2)
  then show "server_key s3 r = (rid, dport, source)"
    unfolding key by (simp add: server_key_def Let_def s2 rpc_init_def)
  have "chain_find server_hash (server_key s3) (server_buckets s3 k) key = chain_find server_hash (server_key s) (server_buckets s3 k) key" for key
    using chain_cong(2) [of "server_buckets s3 k" "server_key s3" "server_key s" server_hash key] tables_okD(4) [OF t3] f2(4) key
    by (metis fr(3) s2'(1))
  then show "chain_find server_hash (server_key s3) (server_buckets s3 k) key = chain_find server_hash (server_key s) (server_buckets s k) key"
    by (simp add: fr s2')
  show "homa_find_client_rpc s3 k i = homa_find_client_rpc s k i" "homa_find_server_rpc s3 k a i = homa_find_server_rpc s k a i"
    using cong(2,3) f2(2,3) by simp_all
  assume "err \<noteq> None"
  then have "s3 = upd_msgin r (\<lambda>m. message_in_fields m len unsched) s2" using message_in_init_error start by blast
  then show "rpc_inv k s3" using t3 l3 t2(3) by (simp add: rpc_inv_def queues_ok_def)
qed

definition server_outcome ::
  "rpc_ptr option \<Rightarrow> sock_ptr \<Rightarrow> server_key \<Rightarrow> kstate \<Rightarrow> errno + rpc_ptr \<times> bool \<Rightarrow> kstate \<Rightarrow> bool" where
  "server_outcome mem k key s res s' \<longleftrightarrow>
     (case res of
       Inl err \<Rightarrow> active_rpcs s' k = active_rpcs s k \<and> (\<forall>a i. homa_find_server_rpc s' k a i = homa_find_server_rpc s k a i)
     | Inr (r, created) \<Rightarrow>
         if created then mem = Some r \<and> active_rpcs s' k = active_rpcs s k @ [r] \<and> rp_state (ks_rpcs s' r) = RPC_INCOMING \<and>
           server_key s' r = key \<and>
           (\<forall>a i. homa_find_server_rpc s' k a i = (if i = fst key \<and> a = snd (snd key) then Some r else homa_find_server_rpc s k a i))
         else s' = s \<and> r \<in> set (active_rpcs s k) \<and> server_key s r = key)"

lemma new_server_result:
  assumes inv: "rpc_inv k s" and fresh: "fresh_mem e mem k s" and addr: "peertab_inv (re_hash e) s"
    and server: "homa_is_client (ch_sender_id (dh_common h))" and live: "\<not> hs_shutdown (ks_socks s k)"
    and run: "homa_rpc_new_server e mem k source h s = Some (res, s')"
  defines "rid \<equiv> homa_local_id (ch_sender_id (dh_common h))" and "dport \<equiv> ch_sport (dh_common h)"
  shows "rpc_inv k s'" and "homa_find_client_rpc s' k i = homa_find_client_rpc s k i"
    and "server_outcome mem k (rid, dport, source) s res s'"
proof -
  have t: "tables_ok k s" using inv by (simp add: rpc_inv_def)
  have "rpc_inv k s' \<and> homa_find_client_rpc s' k i = homa_find_client_rpc s k i \<and>
    server_outcome mem k (rid, dport, source) s res s'"
  proof (cases "chain_find server_hash (server_key s) (server_buckets s k) (rid, dport, source)")
    case (Some r)
    then have "res = Inr (r, False)" "s' = s" using run by (simp_all add: homa_rpc_new_server_def rid_def dport_def Let_def)
    then show ?thesis
      using Some inv tables_okD(4) [OF t] unfolding chain_find_Some [OF tables_okD(2) [OF t]] by (auto simp: server_outcome_def)
  next
    case none: None
    show ?thesis
    proof (cases mem)
      case None
      then show ?thesis using none run inv by (auto simp: homa_rpc_new_server_def rid_def dport_def Let_def server_outcome_def)
    next
      case (Some r)
      obtain pres s1 where find: "homa_peer_find (re_hash e) (re_peer_mem e) (re_route e) source s = (pres, s1)" by fastforce
      show ?thesis
      proof (cases pres)
        case (Inl err)
        then have "res = Inl err" "s' = s1"
          using run Some none find by (simp_all add: homa_rpc_new_server_def rid_def dport_def Let_def)
        then show ?thesis
          using fresh_rpc_inv [OF inv fresh [unfolded Some] find, of s1 "\<lambda>x. x"] peer_find_frame [OF find] by (simp add: upd_rpc_def server_outcome_def)
      next
        case (Inr peer)
        define s2 where "s2 = upd_rpc r (rpc_init k RPC_INCOMING rid peer dport (h_timer_ticks (ks_homa s1)) (re_now e)) s1"
        obtain err s3 where start: "homa_message_in_init (re_fuel e) (re_clk e) (re_core e) r
            (sint (dh_message_length h)) (sint (dh_incoming h)) s2 = Some (err, s3)"
          using run unfolding homa_rpc_new_server_def Let_def rid_def [symmetric] dport_def [symmetric] none Some option.case find
            Inr prod.case sum.case s2_def [symmetric] by (auto split: option.splits)
        note s3 = started_rpc [OF inv fresh [unfolded Some] find [unfolded Inr] addr s2_def start]
        show ?thesis
        proof (cases err)
          case (Some x)
          then have "res = Inl x" "s' = s3"
            using run unfolding homa_rpc_new_server_def Let_def rid_def [symmetric] dport_def [symmetric] none \<open>mem = Some r\<close>
              option.case find Inr prod.case sum.case s2_def [symmetric] start by simp_all
          then show ?thesis using s3 Some by (simp add: server_outcome_def)
        next
          case None
          define s4 where "s4 = link_server k r s3"
          define s5 where "s5 = upd_rpc r (\<lambda>rpc. rpc\<lparr>rp_flags := rp_flags rpc \<union> {RPC_PKTS_READY}\<rparr>) s4"
          have eqs: "res = Inr (r, True)"
              "s' = (if sg_offset (dh_seg h) = 0 \<and> mi_num_bpages (msgin s4 r) > 0 then homa_rpc_handoff (re_active e) (re_busy_time e) r s5 else s4)"
            using run live s3(8) unfolding homa_rpc_new_server_def Let_def rid_def [symmetric] dport_def [symmetric] none \<open>mem = Some r\<close>
              option.case find Inr prod.case sum.case s2_def [symmetric] start None link_server_def [symmetric] s4_def [symmetric]
              s5_def [symmetric] by simp_all
          have act: "r \<notin> set (active_rpcs s3 k)" using fresh \<open>mem = Some r\<close> by (simp add: s3(7) fresh_mem_def)
          have key: "rp_id (ks_rpcs s3 r) = rid" "rp_dport (ks_rpcs s3 r) = dport" "pe_addr (ks_peers s3 (rp_peer (ks_rpcs s3 r))) = source"
            using s3(11) by (simp_all add: server_key_def Let_def)
          have srv: "\<not> is_client_rpc s3 r" using server by (simp add: key rid_def homa_local_id_client)
          note link = link_server_inv [OF s3(1-6) act s3(9) _ srv, folded s4_def]
          have new: "chain_find server_hash (server_key s3) (server_buckets s3 k) (server_key s3 r) = None" unfolding s3(11,12) by (rule none)
          have inv4: "rpc_inv k s4" by (rule link(1)) (use s3(10) new in simp_all)
          have look4: "homa_find_client_rpc s4 k i = homa_find_client_rpc s k i"
            "homa_find_server_rpc s4 k a j = (if j = rid \<and> a = source then Some r else homa_find_server_rpc s k a j)" for a j
            using link(2,4) new s3 by (simp_all add: key)
          have sel4: "active_rpcs s4 k = active_rpcs s k @ [r]" "ks_rpcs s4 = ks_rpcs s3" "ks_peers s4 = ks_peers s3"
            by (simp_all add: s4_def link_server_def s3)
          have key4: "server_key s4 r = (rid, dport, source)" using s3(11) by (simp add: server_key_def sel4)
          note fl = flags_rpc_inv [of "\<lambda>rpc. rpc\<lparr>rp_flags := rp_flags rpc \<union> {RPC_PKTS_READY}\<rparr>" k s4 r, folded s5_def, OF _ inv4]
          have inv5: "rpc_inv k s5" by (rule fl(1)) simp
          have look5: "homa_find_client_rpc s5 k i = homa_find_client_rpc s4 k i" "homa_find_server_rpc s5 k a j = homa_find_server_rpc s4 k a j"
              "server_key s5 = server_key s4" for a j by (rule fl(2-4); simp)+
          have sel5: "active_rpcs s5 k = active_rpcs s k @ [r]" "rp_state (ks_rpcs s5 r) = RPC_INCOMING"
            using s3(10) by (simp_all add: s5_def sel4)
          note ho = handoff_rpc_inv [OF inv5, of r "re_active e" "re_busy_time e"] and hf = handoff_frame [of "re_active e" "re_busy_time e" r s5]
          have "server_key (homa_rpc_handoff (re_active e) (re_busy_time e) r s5) r = server_key s5 r"
            by (simp add: server_key_def Let_def hf)
          then show ?thesis
            using inv4 ho look4 look5 sel4 sel5 key4 hf(3,12) s3(10) \<open>mem = Some r\<close> by (simp add: eqs server_outcome_def)
        qed
      qed
    qed
  qed
  then show "rpc_inv k s'" "homa_find_client_rpc s' k i = homa_find_client_rpc s k i" "server_outcome mem k (rid, dport, source) s res s'" by blast+
qed

section \<open>Freeing an RPC\<close>

lemma chain_del_members:
  assumes "chain_inv hash key t" and "v \<in> set (t b0)"
  shows "(\<exists>b. q \<in> set (chain_del hash key v t b)) \<longleftrightarrow> q \<noteq> v \<and> (\<exists>b. q \<in> set (t b))"
proof -
  have h: "hash (key v) = b0" using chain_invD(2) [OF assms] .
  have d: "distinct (t b)" for b using chain_invD(1) [OF assms(1), of b] by (simp add: distinct_map)
  have only: "v \<in> set (t b) \<longleftrightarrow> b = b0" for b using chain_invD(2) [OF assms(1), of v b] h assms(2) by auto
  show ?thesis using h only d by (auto simp: chain_del_def) (metis in_set_remove1)
qed

text \<open>What the end of \<open>homa_rpc_free\<close> does to an RPC of socket \<open>k\<close>.\<close>

definition released :: "rpc_ptr \<Rightarrow> kstate \<Rightarrow> kstate" where
  "released r s = homa_remove_from_throttled r (count_dead r (wake_interest r (rpc_unlink r s)))"

lemma rpc_unlink_sel:
  "ks_rpcs (rpc_unlink r s) = ks_rpcs s" "ks_interests (rpc_unlink r s) = ks_interests s" "ks_peers (rpc_unlink r s) = ks_peers s"
  "ks_homa (rpc_unlink r s) = ks_homa s" "ks_wakeups (rpc_unlink r s) = ks_wakeups s"
  by (simp_all add: rpc_unlink_def Let_def)

lemma wake_sel:
  "ks_socks (wake_interest r s) = ks_socks s" "ks_peers (wake_interest r s) = ks_peers s" "ks_homa (wake_interest r s) = ks_homa s"
  "ks_rpcs (wake_interest r s) = (ks_rpcs s)(r := (ks_rpcs s r)\<lparr>rp_interest := None\<rparr>)"
  "in_ready_rpc (interest (wake_interest r s) i) = in_ready_rpc (interest s i)"
  "in_reg_rpc (interest (wake_interest r s) i) = (if rp_interest (ks_rpcs s r) = Some i then None else in_reg_rpc (interest s i))"
  "in_thread (interest (wake_interest r s) i) = in_thread (interest s i)"
  "ks_wakeups (wake_interest r s) = ks_wakeups s @ (case rp_interest (ks_rpcs s r) of None \<Rightarrow> [] | Some i \<Rightarrow> [in_thread (interest s i)])"
proof -
  have "ks_rpcs s = (ks_rpcs s)(r := (ks_rpcs s r)\<lparr>rp_interest := None\<rparr>)" if "rp_interest (ks_rpcs s r) = None"
    using that by (simp add: fun_eq_iff)
  then show "ks_rpcs (wake_interest r s) = (ks_rpcs s)(r := (ks_rpcs s r)\<lparr>rp_interest := None\<rparr>)"
    by (auto simp: wake_interest_def Let_def split: option.split)
qed (auto simp: wake_interest_def Let_def split: option.split)

lemma count_sel:
  "ks_interests (count_dead r s) = ks_interests s" "ks_peers (count_dead r s) = ks_peers s" "ks_wakeups (count_dead r s) = ks_wakeups s"
  "ks_socks (count_dead r s) = (ks_socks s)(rp_hsk (ks_rpcs s r) := (ks_socks s (rp_hsk (ks_rpcs s r)))\<lparr>hs_dead_skbs :=
     hs_dead_skbs (ks_socks s (rp_hsk (ks_rpcs s r))) + (if mi_length (msgin s r) \<ge> 0 then int (length (mi_packets (msgin s r))) else 0) +
     mo_num_skbs (msgout s r)\<rparr>)"
  "ks_rpcs (count_dead r s) = (if mi_length (msgin s r) \<ge> 0
     then (ks_rpcs s)(r := (ks_rpcs s r)\<lparr>rp_msgin := (msgin s r)\<lparr>mi_gaps := []\<rparr>\<rparr>) else ks_rpcs s)"
  "(ks_homa (count_dead r s))\<lparr>h_max_dead_buffs := n\<rparr> = (ks_homa s)\<lparr>h_max_dead_buffs := n\<rparr>"
  by (simp_all add: count_dead_def Let_def add.assoc)

lemma count_homa:
  "h_throttled_rpcs (ks_homa (count_dead r s)) = h_throttled_rpcs (ks_homa s)" "grantable_peers (count_dead r s) = grantable_peers s"
  "h_num_grantable_rpcs (ks_homa (count_dead r s)) = h_num_grantable_rpcs (ks_homa s)"
  "h_total_incoming (ks_homa (count_dead r s)) = h_total_incoming (ks_homa s)"
  using arg_cong [OF count_sel(6) [where r = r and s = s and n = 0], of h_throttled_rpcs] arg_cong [OF count_sel(6) [where r = r and s = s and n = 0], of h_grantable_peers]
    arg_cong [OF count_sel(6) [where r = r and s = s and n = 0], of h_num_grantable_rpcs] arg_cong [OF count_sel(6) [where r = r and s = s and n = 0], of h_total_incoming]
  by simp_all

lemmas release_sels = rpc_unlink_sel wake_sel count_sel(1-5) count_homa

lemma released_sel:
  fixes r s k defines "s' \<equiv> released r s"
  assumes k: "rp_hsk (ks_rpcs s r) = k"
  shows "client_buckets s' k = (if is_client_rpc s r then chain_del homa_client_rpc_bucket (client_key s) r (client_buckets s k) else client_buckets s k)"
    "server_buckets s' k = (if is_client_rpc s r then server_buckets s k else chain_del server_hash (server_key s) r (server_buckets s k))"
    "active_rpcs s' k = remove1 r (active_rpcs s k)" "dead_rpcs s' k = dead_rpcs s k @ [r]"
    "ready_reqs s' k = remove1 r (ready_reqs s k)" "ready_resps s' k = remove1 r (ready_resps s k)" "waiting s' k = remove1 r (waiting s k)"
    "req_ints s' k = req_ints s k" "resp_ints s' k = resp_ints s k" "hs_buffer_pool (ks_socks s' k) = hs_buffer_pool (ks_socks s k)"
    "hs_protect_count (ks_socks s' k) = hs_protect_count (ks_socks s k)" "hs_shutdown (ks_socks s' k) = hs_shutdown (ks_socks s k)"
    "ks_peers s' = ks_peers s"
    "h_throttled_rpcs (ks_homa s') = remove1 r (h_throttled_rpcs (ks_homa s))"
  unfolding s'_def released_def homa_remove_from_throttled_def
  using k by (simp_all add: release_sels) (simp_all add: rpc_unlink_def Let_def)

lemma released_rpc:
  fixes r s defines "s' \<equiv> released r s"
  shows "rp_id (ks_rpcs s' x) = rp_id (ks_rpcs s x)" "rp_hsk (ks_rpcs s' x) = rp_hsk (ks_rpcs s x)"
    "rp_state (ks_rpcs s' x) = rp_state (ks_rpcs s x)" "rp_peer (ks_rpcs s' x) = rp_peer (ks_rpcs s x)"
    "rp_dport (ks_rpcs s' x) = rp_dport (ks_rpcs s x)" "rp_flags (ks_rpcs s' x) = rp_flags (ks_rpcs s x)"
    "rp_msgout (ks_rpcs s' x) = rp_msgout (ks_rpcs s x)" "rp_grants_in_progress (ks_rpcs s' x) = rp_grants_in_progress (ks_rpcs s x)"
    "rp_interest (ks_rpcs s' x) = (if x = r then None else rp_interest (ks_rpcs s x))"
    "mi_rec_incoming (msgin s' x) = mi_rec_incoming (msgin s x)"
    "in_ready_rpc (interest s' i) = in_ready_rpc (interest s i)" "in_thread (interest s' i) = in_thread (interest s i)"
    "in_reg_rpc (interest s' i) = (if rp_interest (ks_rpcs s r) = Some i then None else in_reg_rpc (interest s i))"
    "ks_wakeups s' = ks_wakeups s @ (case rp_interest (ks_rpcs s r) of None \<Rightarrow> [] | Some i \<Rightarrow> [in_thread (interest s i)])"
    "grantable_peers s' = grantable_peers s" "h_num_grantable_rpcs (ks_homa s') = h_num_grantable_rpcs (ks_homa s)"
    "h_total_incoming (ks_homa s') = h_total_incoming (ks_homa s)"
  unfolding s'_def released_def homa_remove_from_throttled_def by (simp_all add: release_sels split: option.split)

lemma released_inv:
  assumes t: "tables_ok k s" and l: "distinct (active_rpcs s k)" "distinct (dead_rpcs s k)" and q: "queues_ok k s"
    and act: "\<forall>x \<in> set (active_rpcs s k). rp_hsk (ks_rpcs s x) = k \<and> (rp_state (ks_rpcs s x) = RPC_DEAD \<longleftrightarrow> x = r)"
    and dead: "\<forall>x \<in> set (dead_rpcs s k). rp_hsk (ks_rpcs s x) = k \<and> rp_state (ks_rpcs s x) = RPC_DEAD \<and> x \<noteq> r"
    and r: "r \<in> set (active_rpcs s k)"
  shows "rpc_inv k (released r s)"
    and "homa_find_client_rpc (released r s) k rid = (if homa_find_client_rpc s k rid = Some r then None else homa_find_client_rpc s k rid)"
proof -
  let ?s = "released r s"
  have k: "rp_hsk (ks_rpcs s r) = k" using act r by blast
  note sel = released_sel [OF k] and rpc = released_rpc [of r s]
  have keys: "server_key ?s = server_key s" "client_key ?s = client_key s" by (simp_all add: server_key_def Let_def fun_eq_iff rpc sel)
  note tab = tables_okD [OF t]
  have mem: "r \<in> set (active_rpcs ?s k) \<longleftrightarrow> False" "x \<noteq> r \<Longrightarrow> x \<in> set (active_rpcs ?s k) \<longleftrightarrow> x \<in> set (active_rpcs s k)" for x
    using l(1) by (simp_all add: sel)
  have tab': "tables_ok k ?s \<and> homa_find_client_rpc ?s k rid = (if homa_find_client_rpc s k rid = Some r then None else homa_find_client_rpc s k rid)"
  proof (cases "is_client_rpc s r")
    case True
    obtain b where b: "r \<in> set (client_buckets s k b)" using tab(5) [OF r True] by blast
    have inv: "chain_inv homa_client_rpc_bucket (client_key s) (client_buckets ?s k)"
      using chain.del_inv [OF tab(1)] True by (simp add: sel)
    have found: "chain_find homa_client_rpc_bucket (client_key s) (client_buckets s k) (client_key s r) = Some r"
      unfolding chain_find_Some [OF tab(1)] using b chain_invD(2) [OF tab(1) b] by simp
    have cl: "(\<exists>b. x \<in> set (client_buckets ?s k b)) \<longleftrightarrow> x \<in> set (active_rpcs ?s k) \<and> is_client_rpc s x" for x
      using chain_del_members [OF tab(1) b, of x] tab(3,5) mem True by (cases "x = r") (auto simp: sel)
    have sv: "server_buckets ?s k = server_buckets s k" using True by (simp add: sel)
    have "(\<exists>b. x \<in> set (server_buckets s k b)) \<longleftrightarrow> x \<in> set (active_rpcs ?s k) \<and> \<not> is_client_rpc s x" for x
      using tab(4,6) mem True by (cases "x = r") auto
    then have "tables_ok k ?s" unfolding tables_ok_def keys sv using inv tab(2) cl rpc(1) by simp
    moreover have "homa_find_client_rpc ?s k rid = (if rid = client_key s r then None else homa_find_client_rpc s k rid)"
      unfolding homa_find_client_rpc_def keys using chain.lookup_del [OF tab(1) found] True by (simp add: sel)
    moreover have "homa_find_client_rpc s k rid = Some r \<longleftrightarrow> rid = client_key s r"
      using found chain_find_Some [OF tab(1)] by (auto simp: homa_find_client_rpc_def)
    ultimately show ?thesis by simp
  next
    case False
    obtain b where b: "r \<in> set (server_buckets s k b)" using tab(6) [OF r False] by blast
    have inv: "chain_inv server_hash (server_key s) (server_buckets ?s k)"
      using chain.del_inv [OF tab(2)] False by (simp add: sel)
    have sv: "(\<exists>b. x \<in> set (server_buckets ?s k b)) \<longleftrightarrow> x \<in> set (active_rpcs ?s k) \<and> \<not> is_client_rpc s x" for x
      using chain_del_members [OF tab(2) b, of x] tab(4,6) mem False by (cases "x = r") (auto simp: sel)
    have cl: "client_buckets ?s k = client_buckets s k" using False by (simp add: sel)
    have "(\<exists>b. x \<in> set (client_buckets s k b)) \<longleftrightarrow> x \<in> set (active_rpcs ?s k) \<and> is_client_rpc s x" for x
      using tab(3,5) mem False by (cases "x = r") auto
    then have "tables_ok k ?s" unfolding tables_ok_def keys cl using inv tab(1) sv rpc(1) by simp
    moreover have "homa_find_client_rpc ?s k rid = homa_find_client_rpc s k rid" by (simp add: homa_find_client_rpc_def keys cl)
    moreover have "homa_find_client_rpc s k rid \<noteq> Some r"
      using False tab(3) unfolding homa_find_client_rpc_def chain_find_Some [OF tab(1)] by blast
    ultimately show ?thesis by simp
  qed
  have "lists_ok k ?s" using l act dead r k by (auto simp: lists_ok_def sel rpc)
  moreover have "queues_ok k ?s" using q l(1) by (auto simp: queues_ok_def sel)
  ultimately show "rpc_inv k ?s" using tab' by (simp add: rpc_inv_def)
  show "homa_find_client_rpc ?s k rid = (if homa_find_client_rpc s k rid = Some r then None else homa_find_client_rpc s k rid)"
    using tab' by simp
qed

lemma released_handoff:
  assumes "handoff_inv k s" and "rp_hsk (ks_rpcs s r) = k"
  shows "handoff_inv k (released r s)"
proof -
  let ?s = "released r s"
  note sel = released_sel [OF assms(2)] and rpc = released_rpc [of r s]
  have links: "interest_links ?s" using assms(1) unfolding handoff_inv_def interest_links_def rpc by (metis option.distinct(1) option.inject)
  have "ready_ok ?s k c (remove1 r rs)" if "ready_ok s k c rs" for c rs
    using that by (auto simp: ready_ok_def rpc)
  moreover have "registered ?s k i \<Longrightarrow> registered s k i" for i by (auto simp: registered_def sel rpc split: if_splits)
  ultimately show ?thesis using assms(1) links by (auto simp: handoff_inv_def sel rpc)
qed

lemma released_grant: "grant_inv R (released r s) = grant_inv R s"
proof -
  have "ks_peers (released r s) = ks_peers s" using released_sel [of s r "rp_hsk (ks_rpcs s r)"] by simp
  then have "grant_links (released r s) = grant_links s" "grantable_set (released r s) = grantable_set s"
    by (intro grant_links_cong; simp add: released_rpc)+
  moreover have "accounted R (released r s) = accounted R s" by (intro accounted_cong) (simp_all add: released_rpc)
  ultimately show ?thesis by (simp add: grant_inv_def)
qed

text \<open>A recalculation of grants releases every RPC it has claimed.\<close>

abbreviation claims :: "kstate \<Rightarrow> rpc_ptr \<Rightarrow> int" where
  "claims s x \<equiv> rp_grants_in_progress (ks_rpcs s x)"

lemma grant_op_claims:
  "claims (fst (homa_grant_send r s)) x = claims s x" "claims (fst (homa_grant_update_incoming r s)) x = claims s x"
  "claims (homa_grant_remove_rpc now r s) x = claims s x"
  by (simp_all add: homa_grant_send_def homa_grant_update_incoming_def homa_grant_remove_rpc_def homa_xmit_control_def Let_def)

lemma grant_active_claims: "claims (fst (grant_active now rs s)) x = claims s x - int (count_list rs x)"
proof (induction rs arbitrary: s)
  case (Cons r rs)
  have "claims (fst (grant_one now r s)) x = claims s x - (if x = r then 1 else 0)"
    by (simp add: grant_one_def Let_def case_prod_beta grant_op_claims)
  then show ?case using Cons [of "fst (grant_one now r s)"] by (simp add: Let_def case_prod_beta)
qed simp

lemma set_ranks_claims: "claims (set_ranks n i rs s) x = claims s x + int (count_list rs x)"
  by (induction rs arbitrary: i s) (simp_all add: Let_def)

lemma clear_ranks_claims: "claims (clear_ranks rs s) x = claims s x"
  by (induction rs arbitrary: s) simp_all

lemma recalc_claims: "homa_grant_recalc fuel now s = Some s' \<Longrightarrow> claims s' x = claims s x"
proof (induction fuel arbitrary: s)
  case (Suc fuel)
  have "claims (fst (recalc_round now s)) x = claims s x"
    by (simp add: recalc_round_def Let_def grant_active_claims set_ranks_claims clear_ranks_claims)
  then show ?case using Suc by (auto simp: Let_def case_prod_beta split: if_splits)
qed simp

lemma grant_free_claims:
  assumes "homa_grant_free_rpc fuel now r s = Some s'"
  shows "claims s' x = claims s x"
proof -
  let ?after = "if is_grantable s r then
      if mi_rank (msgin (homa_grant_remove_rpc now r s) r) \<ge> 0 then homa_grant_recalc fuel now (homa_grant_remove_rpc now r s)
      else Some (homa_grant_remove_rpc now r s) else Some s"
  obtain s1 where s1: "?after = Some s1" and "claims s' x = claims s1 x"
    using assms unfolding homa_grant_free_rpc_def Let_def by (cases ?after) (auto split: if_splits)
  moreover have "claims s1 x = claims s x"
  proof (cases "is_grantable s r \<and> mi_rank (msgin (homa_grant_remove_rpc now r s) r) \<ge> 0")
    case True
    then show ?thesis using recalc_claims [of fuel now "homa_grant_remove_rpc now r s" s1 x] s1 by (simp add: grant_op_claims)
  next
    case False
    then show ?thesis using s1 grant_op_claims(3) [of now r s x] by (auto split: if_splits)
  qed
  ultimately show ?thesis by simp
qed

lemma same_peer_addr: "grant_view s' = grant_view s \<Longrightarrow> pe_addr (ks_peers s' p) = pe_addr (ks_peers s p)"
  using arg_cong [OF same_view(8), of s' s pe_addr p] by (simp add: peer_view_def)

text \<open>The effect of \<open>homa_rpc_free\<close> on an RPC that is alive.\<close>

definition freed :: "sock_ptr \<Rightarrow> rpc_ptr \<Rightarrow> kstate \<Rightarrow> kstate \<Rightarrow> bool" where
  "freed k r s s' \<longleftrightarrow> active_rpcs s' k = remove1 r (active_rpcs s k) \<and> dead_rpcs s' k = dead_rpcs s k @ [r] \<and>
     r \<notin> set (waiting s' k) \<and> r \<notin> set (ready_reqs s' k) \<and> r \<notin> set (ready_resps s' k) \<and> rp_interest (ks_rpcs s' r) = None \<and>
     r \<notin> set (h_throttled_rpcs (ks_homa s')) \<and>
     (\<forall>rid. homa_find_client_rpc s' k rid = (if homa_find_client_rpc s k rid = Some r then None else homa_find_client_rpc s k rid)) \<and>
     ks_wakeups s' = ks_wakeups s @ (case rp_interest (ks_rpcs s r) of None \<Rightarrow> [] | Some i \<Rightarrow> [in_thread (interest s i)])"

text \<open>Everything but granting: the tables, the queues and the threads.\<close>

definition free_frame :: "sock_ptr \<Rightarrow> rpc_ptr \<Rightarrow> kstate \<Rightarrow> kstate \<Rightarrow> bool" where
  "free_frame k r s s' \<longleftrightarrow> freed k r s s' \<and> distinct (h_throttled_rpcs (ks_homa s')) \<and>
    hs_buffer_pool (ks_socks s' k) = hs_buffer_pool (ks_socks s k) \<and>
    hs_protect_count (ks_socks s' k) = hs_protect_count (ks_socks s k) \<and> hs_shutdown (ks_socks s' k) = hs_shutdown (ks_socks s k) \<and>
    req_ints s' k = req_ints s k \<and> resp_ints s' k = resp_ints s k \<and>
    (\<forall>x. cant_reap s' x = cant_reap s x \<and> msgout s' x = msgout s x) \<and> (\<forall>i. in_thread (interest s' i) = in_thread (interest s i))"

lemma rpc_free_tables:
  assumes inv: "rpc_inv k s" and r: "r \<in> set (active_rpcs s k)" and thr: "distinct (h_throttled_rpcs (ks_homa s))"
    and free: "homa_grant_free_rpc fuel now r (upd_rpc r (\<lambda>rpc. rpc\<lparr>rp_state := RPC_DEAD\<rparr>) s) = Some s1"
  shows "homa_rpc_free fuel now r s = Some (released r s1)" "rpc_inv k (released r s1)" "free_frame k r s (released r s1)"
    "handoff_inv k s \<Longrightarrow> handoff_inv k (released r s1)"
proof -
  have lists: "distinct (active_rpcs s k)" "distinct (dead_rpcs s k)"
      "\<forall>x \<in> set (active_rpcs s k). rp_hsk (ks_rpcs s x) = k \<and> rp_state (ks_rpcs s x) \<noteq> RPC_DEAD"
      "\<forall>x \<in> set (dead_rpcs s k). rp_hsk (ks_rpcs s x) = k \<and> rp_state (ks_rpcs s x) = RPC_DEAD"
    using inv by (simp_all add: rpc_inv_def lists_ok_def)
  define s0 where "s0 = upd_rpc r (\<lambda>rpc. rpc\<lparr>rp_state := RPC_DEAD\<rparr>) s"
  note view = free_rpc_view [OF free, folded s0_def]
  note sv = same_view [OF view] and rv = same_rpc_view [OF same_view(7) [OF view]]
  have socks: "ks_socks s1 = ks_socks s" "ks_interests s1 = ks_interests s" "ks_wakeups s1 = ks_wakeups s" by (simp_all add: sv s0_def)
  have thr1: "h_throttled_rpcs (ks_homa s1) = h_throttled_rpcs (ks_homa s)"
    using arg_cong [OF sv(9), of h_throttled_rpcs] by (simp add: homa_view_def s0_def)
  have rpc: "rp_hsk (ks_rpcs s1 x) = rp_hsk (ks_rpcs s x)" "rp_id (ks_rpcs s1 x) = rp_id (ks_rpcs s x)"
      "rp_interest (ks_rpcs s1 x) = rp_interest (ks_rpcs s x)" "rp_flags (ks_rpcs s1 x) = rp_flags (ks_rpcs s x)"
      "rp_state (ks_rpcs s1 x) = (if x = r then RPC_DEAD else rp_state (ks_rpcs s x))" "rp_dport (ks_rpcs s1 x) = rp_dport (ks_rpcs s x)"
      "rp_peer (ks_rpcs s1 x) = rp_peer (ks_rpcs s x)" "rp_msgout (ks_rpcs s1 x) = rp_msgout (ks_rpcs s x)" "claims s1 x = claims s x" for x
    using rv [of x] grant_free_claims [OF free, of x] by (simp_all add: s0_def)
  have key: "server_key s1 x = server_key s x" for x
    using same_peer_addr [OF view] by (simp add: server_key_def Let_def rpc s0_def)
  have t: "tables_ok k s" using inv by (simp add: rpc_inv_def)
  note cong = tables_ok_cong [of s1 k s, OF _ _ _ key t]
  have t1: "tables_ok k s1" and look1: "homa_find_client_rpc s1 k = homa_find_client_rpc s k"
    using cong(1) by (simp_all add: socks) (simp add: homa_find_client_rpc_def fun_eq_iff socks rpc)
  have k: "rp_hsk (ks_rpcs s1 r) = k" using lists(3) r by (simp add: rpc)
  have q1: "queues_ok k s1" using inv by (simp add: rpc_inv_def queues_ok_def socks)
  have pre: "distinct (active_rpcs s1 k)" "distinct (dead_rpcs s1 k)" "r \<in> set (active_rpcs s1 k)"
      "\<forall>x \<in> set (active_rpcs s1 k). rp_hsk (ks_rpcs s1 x) = k \<and> (rp_state (ks_rpcs s1 x) = RPC_DEAD \<longleftrightarrow> x = r)"
      "\<forall>x \<in> set (dead_rpcs s1 k). rp_hsk (ks_rpcs s1 x) = k \<and> rp_state (ks_rpcs s1 x) = RPC_DEAD \<and> x \<noteq> r"
    using lists r by (auto simp: socks rpc)
  note ri = released_inv [OF t1 pre(1,2) q1 pre(4,5,3)] and sel = released_sel [OF k] and rr = released_rpc [of r s1]
  show "homa_rpc_free fuel now r s = Some (released r s1)"
    using lists(3) r free by (simp add: homa_rpc_free_def released_def)
  show "rpc_inv k (released r s1)" by (rule ri(1))
  have "freed k r s (released r s1)"
    using ri(2) inv thr by (auto simp: look1 freed_def sel rr socks rpc thr1 rpc_inv_def queues_ok_def split: option.split)
  then show "free_frame k r s (released r s1)" using thr by (simp add: free_frame_def sel socks thr1 cant_reap_def rr rpc)
  assume "handoff_inv k s"
  then have "handoff_inv k s1" by (simp add: handoff_inv_def interest_links_def ready_ok_def registered_def socks rpc)
  then show "handoff_inv k (released r s1)" by (rule released_handoff [OF _ k])
qed

lemma rpc_free_result:
  assumes inv: "rpc_inv k s" and hand: "handoff_inv k s" and r: "r \<in> set (active_rpcs s k)"
    and R: "finite R" "r \<in> R" "grant_inv R s" "2 * card R < fuel" and thr: "distinct (h_throttled_rpcs (ks_homa s))"
  shows "\<exists>s'. homa_rpc_free fuel now r s = Some s' \<and> rpc_inv k s' \<and> handoff_inv k s' \<and> grant_inv (R - {r}) s' \<and> free_frame k r s s'"
proof -
  define s0 where "s0 = upd_rpc r (\<lambda>rpc. rpc\<lparr>rp_state := RPC_DEAD\<rparr>) s"
  have "grant_inv R s0"
    using R(3) grant_links_cong [of s0 s] by (simp add: s0_def grant_inv_def)
  then obtain s1 where free: "homa_grant_free_rpc fuel now r s0 = Some s1" and g1: "grant_inv (R - {r}) s1"
    using free_rpc_result [OF R(1,2) _ R(4)] by blast
  from rpc_free_tables [OF inv r thr free [unfolded s0_def]] hand g1 show ?thesis by (simp add: released_grant)
qed

lemma free_all_result:
  assumes "rpc_inv k s" and "handoff_inv k s" and "active_rpcs s k = rs" and "finite R" and "set rs \<subseteq> R" and "grant_inv R s"
    and "2 * card R < fuel" and "distinct (h_throttled_rpcs (ks_homa s))"
  shows "\<exists>s'. free_all fuel now rs s = Some s' \<and> rpc_inv k s' \<and> handoff_inv k s' \<and> grant_inv (R - set rs) s' \<and> active_rpcs s' k = [] \<and>
    dead_rpcs s' k = dead_rpcs s k @ rs \<and> hs_buffer_pool (ks_socks s' k) = hs_buffer_pool (ks_socks s k) \<and>
    hs_protect_count (ks_socks s' k) = hs_protect_count (ks_socks s k) \<and> hs_shutdown (ks_socks s' k) = hs_shutdown (ks_socks s k) \<and>
    req_ints s' k = req_ints s k \<and> resp_ints s' k = resp_ints s k \<and> (\<forall>x. cant_reap s' x = cant_reap s x \<and> msgout s' x = msgout s x) \<and>
    (\<forall>i. in_thread (interest s' i) = in_thread (interest s i))"
  using assms
proof (induction rs arbitrary: s R)
  case Nil
  then show ?case by simp
next
  case (Cons r rs)
  have r: "r \<in> set (active_rpcs s k)" "r \<in> R" using Cons.prems by auto
  obtain s1 where s1: "homa_rpc_free fuel now r s = Some s1" "rpc_inv k s1" "handoff_inv k s1" "grant_inv (R - {r}) s1" and fr: "free_frame k r s s1"
    using rpc_free_result [OF Cons.prems(1,2) r(1) Cons.prems(4) r(2) Cons.prems(6,7,8)] by blast
  note fr = fr [unfolded free_frame_def]
  have act: "active_rpcs s1 k = rs" "dead_rpcs s1 k = dead_rpcs s k @ [r]" using fr Cons.prems(3) by (simp_all add: freed_def)
  have "distinct (active_rpcs s k)" using Cons.prems(1) by (simp add: rpc_inv_def lists_ok_def)
  then have sub: "set rs \<subseteq> R - {r}" using Cons.prems(3,5) by auto
  have "card (R - {r}) \<le> card R" using Cons.prems(4) by (simp add: card_mono)
  then have "2 * card (R - {r}) < fuel" using Cons.prems(7) by linarith
  from Cons.IH [OF s1(2,3) act(1) _ sub s1(4) this] fr obtain s' where s': "free_all fuel now rs s1 = Some s'" "rpc_inv k s'"
      "handoff_inv k s'" "grant_inv (R - {r} - set rs) s'" "active_rpcs s' k = []" "dead_rpcs s' k = dead_rpcs s1 k @ rs"
      "hs_buffer_pool (ks_socks s' k) = hs_buffer_pool (ks_socks s1 k)"
      "hs_protect_count (ks_socks s' k) = hs_protect_count (ks_socks s1 k)" "hs_shutdown (ks_socks s' k) = hs_shutdown (ks_socks s1 k)"
      "req_ints s' k = req_ints s1 k" "resp_ints s' k = resp_ints s1 k" "\<forall>x. cant_reap s' x = cant_reap s1 x \<and> msgout s' x = msgout s1 x"
      "\<forall>i. in_thread (interest s' i) = in_thread (interest s1 i)"
    using Cons.prems(4) by auto
  have "R - {r} - set rs = R - set (r # rs)" by auto
  then show ?case using s1 s' act fr by (intro exI [of _ s']) simp
qed

section \<open>Properties\<close>

text \<open>
  The operations on the RPCs of one socket, with what they rely on: memory that is not in use, an identifier of a new client RPC that
  is not in use (\<open>next_outgoing_id\<close> has not wrapped around), a request whose sender is a client.
\<close>

inductive rpc_step :: "sock_ptr \<Rightarrow> kstate \<Rightarrow> kstate \<Rightarrow> bool" for k where
  New_Client: "fresh_mem e mem k s \<Longrightarrow> homa_is_client (h_next_outgoing_id (ks_homa s)) \<Longrightarrow>
    homa_find_client_rpc s k (h_next_outgoing_id (ks_homa s)) = None \<Longrightarrow>
    homa_rpc_new_client e mem k dest s = (res, s') \<Longrightarrow> rpc_step k s s'"
| New_Server: "fresh_mem e mem k s \<Longrightarrow> peertab_inv (re_hash e) s \<Longrightarrow> homa_is_client (ch_sender_id (dh_common h)) \<Longrightarrow>
    \<not> hs_shutdown (ks_socks s k) \<Longrightarrow> homa_rpc_new_server e mem k source h s = Some (res', s') \<Longrightarrow> rpc_step k s s'"
| Free: "r \<in> set (active_rpcs s k) \<Longrightarrow> distinct (h_throttled_rpcs (ks_homa s)) \<Longrightarrow>
    homa_rpc_free fuel now r s = Some s' \<Longrightarrow> rpc_step k s s'"
| Handoff: "r \<in> set (active_rpcs s k) \<Longrightarrow> rpc_step k s (homa_rpc_handoff active busy_time r s)"

lemma rpc_step_inv: "rpc_step k s s' \<Longrightarrow> rpc_inv k s \<Longrightarrow> rpc_inv k s'"
proof (induction rule: rpc_step.induct)
  case (Free r s fuel now s')
  then have "rp_state (ks_rpcs s r) \<noteq> RPC_DEAD" by (auto simp: rpc_inv_def lists_ok_def)
  then obtain s1 where "homa_grant_free_rpc fuel now r (upd_rpc r (\<lambda>rpc. rpc\<lparr>rp_state := RPC_DEAD\<rparr>) s) = Some s1" "s' = released r s1"
    using Free(3) by (auto simp: homa_rpc_free_def released_def)
  then show ?case using rpc_free_tables(2) [OF Free(4,1,2)] by blast
qed (auto intro: new_client_result(1) new_server_result(1) handoff_rpc_inv(1))

text \<open>
  C3: Whatever sequence of creations (of client RPCs, and of server RPCs while it is not shut down), frees and hand-offs a socket sees, its tables stay well formed: every live
  RPC is in \<open>active_rpcs\<close> once and in the hash table of its kind and no other, every dead one in \<open>dead_rpcs\<close> and in no table or
  queue.  So \<open>homa_find_client_rpc\<close> returns exactly the live client RPC with the identifier, and \<open>homa_find_server_rpc\<close> a
  live server RPC with the identifier and the address of the client, if there is one.
\<close>

theorem rpc_tables_well_formed:
  assumes "(rpc_step k)\<^sup>*\<^sup>* s s'" and "rpc_inv k s"
  shows "rpc_inv k s' \<and>
    (homa_find_client_rpc s' k rid = Some r \<longleftrightarrow> r \<in> set (active_rpcs s' k) \<and> is_client_rpc s' r \<and> rp_id (ks_rpcs s' r) = rid) \<and>
    (case homa_find_server_rpc s' k a rid of
       Some x \<Rightarrow> x \<in> set (active_rpcs s' k) \<and> \<not> is_client_rpc s' x \<and> rp_id (ks_rpcs s' x) = rid \<and>
         pe_addr (ks_peers s' (rp_peer (ks_rpcs s' x))) = a
     | None \<Rightarrow> \<forall>x \<in> set (active_rpcs s' k). \<not> is_client_rpc s' x \<and> rp_id (ks_rpcs s' x) = rid \<longrightarrow>
         pe_addr (ks_peers s' (rp_peer (ks_rpcs s' x))) \<noteq> a)"
proof -
  have inv: "rpc_inv k s'" using assms by (induction rule: rtranclp_induct) (auto intro: rpc_step_inv)
  show ?thesis
    using inv find_client_iff [OF inv, of rid r] find_server_Some [OF inv, of a rid] find_server_None [OF inv, of a rid]
    by (simp split: option.split) blast
qed

definition example_env :: rpc_env where
  "example_env = \<lparr>re_hash = example_hash, re_route = Inr 3, re_peer_mem = Some 7, re_now = 0, re_clk = (\<lambda>i. i), re_core = 0,
     re_fuel = 0, re_grant_fuel = 10, re_active = (\<lambda>_. 0), re_busy_time = 0\<rparr>"

definition example_dest :: sockaddr_in_union where
  "example_dest = \<lparr>sa_fam = AF_INET6, sa_port = 80, sa_in4 = 0, sa_in6 = example_addr\<rparr>"

lemma zero_rpc_inv: "rpc_inv k kstate_zero"
  by (simp add: rpc_inv_def tables_ok_def lists_ok_def queues_ok_def kstate_zero_def sock_zero_def)

theorem rpc_tables_well_formed_witness:
  "\<exists>s'. homa_rpc_new_client example_env (Some 5) 1 example_dest kstate_zero = (Inr 5, s') \<and> rpc_inv 1 s' \<and>
     homa_find_client_rpc s' 1 0 = Some 5"
proof -
  obtain s' where new: "homa_rpc_new_client example_env (Some 5) 1 example_dest kstate_zero = (Inr 5, s')"
    and act: "active_rpcs s' 1 = [5]" "rp_id (ks_rpcs s' 5) = 0"
  proof -
    have "homa_peer_find (re_hash example_env) (re_peer_mem example_env) (re_route example_env) addr s =
        (Inr 7, upd_peer 7 peer_init_after (peer_link example_hash addr 3 7 s))" if "peer_lookup example_hash addr s = None" for addr s
      using that by (simp add: homa_peer_find_def example_env_def)
    moreover have "peer_lookup example_hash addr (upd_homa f kstate_zero) = None" for addr f
      by (simp add: peer_lookup_def peer_buckets_def kstate_zero_def)
    moreover have "\<not> hs_shutdown (ks_socks kstate_zero 1)" "active_rpcs kstate_zero 1 = []" "h_next_outgoing_id (ks_homa kstate_zero) = 0"
      by (simp_all add: kstate_zero_def sock_zero_def homa_zero_def)
    ultimately show thesis
      using that by (simp add: homa_rpc_new_client_def Let_def peer_link_def rpc_init_def)
  qed
  have "fresh_mem example_env (Some 5) 1 kstate_zero" "homa_is_client (h_next_outgoing_id (ks_homa kstate_zero))"
    "homa_find_client_rpc kstate_zero 1 (h_next_outgoing_id (ks_homa kstate_zero)) = None"
    by (simp_all add: fresh_mem_def kstate_zero_def sock_zero_def homa_zero_def is_client_even homa_find_client_rpc_def)
  then have "rpc_step 1 kstate_zero s'" using new by (rule rpc_step.New_Client)
  then have step: "(rpc_step 1)\<^sup>*\<^sup>* kstate_zero s'" by blast
  from rpc_tables_well_formed [OF step zero_rpc_inv, of 0 5] new act show ?thesis by (auto simp: is_client_even)
qed

text \<open>
  C15: \<open>homa_rpc_free\<close> on a live RPC returns and makes it inaccessible: it moves from \<open>active_rpcs\<close> to \<open>dead_rpcs\<close>, is in no
  queue of its socket and not throttled, its identifier is no longer found, every other client RPC still is, and a thread that waits for it
  is woken.  The invariants of the tables, of the hand-off queues and of granting hold afterwards.
\<close>

theorem homa_rpc_free_unlinks:
  assumes "rpc_inv k s" and "handoff_inv k s" and "r \<in> set (active_rpcs s k)" and "finite R" and "r \<in> R" and "grant_inv R s"
    and "2 * card R < fuel" and "distinct (h_throttled_rpcs (ks_homa s))"
  shows "\<exists>s'. homa_rpc_free fuel now r s = Some s' \<and> rpc_inv k s' \<and> handoff_inv k s' \<and> grant_inv (R - {r}) s' \<and>
    active_rpcs s' k = remove1 r (active_rpcs s k) \<and> dead_rpcs s' k = dead_rpcs s k @ [r] \<and>
    r \<notin> set (waiting s' k) \<union> set (ready_reqs s' k) \<union> set (ready_resps s' k) \<union> set (h_throttled_rpcs (ks_homa s')) \<and>
    rp_interest (ks_rpcs s' r) = None \<and>
    (\<forall>rid. homa_find_client_rpc s' k rid = (if homa_find_client_rpc s k rid = Some r then None else homa_find_client_rpc s k rid)) \<and>
    (\<forall>i. rp_interest (ks_rpcs s r) = Some i \<longrightarrow> ks_wakeups s' = ks_wakeups s @ [in_thread (interest s i)])"
  using rpc_free_result [OF assms] by (fastforce simp: free_frame_def freed_def)

definition rpc_example :: kstate where
  "rpc_example = kstate_zero\<lparr>
     ks_socks := (\<lambda>_. sock_zero)(2 := sock_zero\<lparr>hs_active_rpcs := [8], hs_client_rpc_buckets := (\<lambda>_. [])(4 := [8]),
       hs_ready_responses := [8], hs_buffer_pool := Some pool_zero\<rparr>),
     ks_rpcs := (\<lambda>_. rpc_zero)(8 := rpc_zero\<lparr>rp_hsk := 2, rp_id := 8\<rparr>)\<rparr>"

lemma rpc_example_inv: "rpc_inv 2 rpc_example" "handoff_inv 2 rpc_example" "grant_inv {8} rpc_example"
proof -
  have "homa_client_rpc_bucket 8 = 4" by (simp add: homa_client_rpc_bucket_def drop_bit_eq_div)
  then show "rpc_inv 2 rpc_example"
    by (auto simp: rpc_inv_def tables_ok_def lists_ok_def queues_ok_def chain_inv_def rpc_example_def zero_defs is_client_even)
  show "handoff_inv 2 rpc_example"
    by (auto simp: handoff_inv_def interest_links_def ready_ok_def registered_def rpc_example_def zero_defs is_client_even)
  show "grant_inv {8} rpc_example"
    by (simp add: grant_inv_def grant_links_def grantable_set_def is_grantable_def accounted_def rpc_example_def zero_defs)
qed

theorem homa_rpc_free_unlinks_witness:
  "\<exists>s'. homa_rpc_free 3 0 8 rpc_example = Some s' \<and> rpc_inv 2 s' \<and> dead_rpcs s' 2 = [8] \<and> ready_resps s' 2 = [] \<and>
     homa_find_client_rpc s' 2 8 = None"
proof -
  have ex: "active_rpcs rpc_example 2 = [8]" "dead_rpcs rpc_example 2 = []" "h_throttled_rpcs (ks_homa rpc_example) = []"
    "homa_find_client_rpc rpc_example 2 8 = Some 8"
    by (simp_all add: rpc_example_def zero_defs homa_find_client_rpc_def chain_find_def homa_client_rpc_bucket_def drop_bit_eq_div)
  obtain s' where s': "homa_rpc_free 3 0 8 rpc_example = Some s'" "rpc_inv 2 s'" "dead_rpcs s' 2 = [8]" "active_rpcs s' 2 = []"
      "homa_find_client_rpc s' 2 8 = None"
    using homa_rpc_free_unlinks [OF rpc_example_inv(1,2), of 8 "{8}" 3 0] rpc_example_inv(3) ex by auto
  then have "ready_resps s' 2 = []" by (simp add: rpc_inv_def queues_ok_def)
  then show ?thesis using s' by blast
qed

end
