(* ===== verification/Homa_Reap.thy ===== *)
theory Homa_Reap
imports Homa_Rpc_Use
begin

text \<open>
  Reaping dead RPCs (\<open>homa_rpc_reap\<close>) and the shutdown of a socket: how much each call of the reaper does, that the loop in
  \<open>homa_sock_shutdown\<close> ends, and what it leaves behind.
\<close>

section \<open>Reaping\<close>

text \<open>The work left for the reaper: the dead RPCs and their packets.\<close>

definition tx_packets :: "kstate \<Rightarrow> rpc_ptr \<Rightarrow> nat" where
  "tx_packets s r = (if mo_length (msgout s r) \<ge> 0 then length (mo_packets (msgout s r)) else 0)"

definition reap_work :: "kstate \<Rightarrow> rpc_ptr list \<Rightarrow> nat" where
  "reap_work s rs = (\<Sum>r \<in> set rs. Suc (tx_packets s r))"

lemma take_skbs_result:
  assumes "take_skbs batch num ps = (num', ps')" and "num < batch"
  shows "num' + length ps' = num + length ps" "num \<le> num'" "num' < batch \<Longrightarrow> ps' = []" "num' \<ge> batch \<Longrightarrow> num < num'"
proof -
  have "num' + length ps' = num + length ps \<and> num \<le> num' \<and> (num' < batch \<longrightarrow> ps' = [])"
    using assms
  proof (induction ps arbitrary: num)
    case (Cons p ps)
    show ?case
    proof (cases "Suc num \<ge> batch")
      case False
      then have "take_skbs batch (Suc num) ps = (num', ps')" "Suc num < batch" using Cons.prems by simp_all
      from Cons.IH [OF this] show ?thesis by auto
    qed (use Cons.prems in auto)
  qed simp
  then show "num' + length ps' = num + length ps" "num \<le> num'" "num' < batch \<Longrightarrow> ps' = []" "num' \<ge> batch \<Longrightarrow> num < num'"
    using assms(2) by simp_all
qed

text \<open>What the reaper needs of a socket, and what it leaves alone.\<close>

definition reapable :: "sock_ptr \<Rightarrow> kstate \<Rightarrow> bool" where
  "reapable k s \<longleftrightarrow> distinct (dead_rpcs s k) \<and> (\<forall>r \<in> set (dead_rpcs s k). rp_hsk (ks_rpcs s r) = k \<and> \<not> cant_reap s r) \<and>
     hs_protect_count (ks_socks s k) = 0 \<and> hs_buffer_pool (ks_socks s k) \<noteq> None \<and> waiting s k = []"

definition reap_step :: "sock_ptr \<Rightarrow> nat \<Rightarrow> kstate \<Rightarrow> kstate \<Rightarrow> bool" where
  "reap_step k n s s' \<longleftrightarrow> reapable k s' \<and> reap_work s' (dead_rpcs s' k) + n = reap_work s (dead_rpcs s k) \<and>
     set (dead_rpcs s' k) \<subseteq> set (dead_rpcs s k) \<and> active_rpcs s' k = active_rpcs s k \<and>
     hs_shutdown (ks_socks s' k) = hs_shutdown (ks_socks s k) \<and> ks_wakeups s' = ks_wakeups s"

lemma reap_step_refl: "reapable k s \<Longrightarrow> reap_step k 0 s s"
  by (simp add: reap_step_def)

lemma reap_step_trans: "reap_step k m s s1 \<Longrightarrow> reap_step k n s1 s2 \<Longrightarrow> reap_step k (m + n) s s2"
  by (auto simp: reap_step_def)

text \<open>One dead RPC: some of its packets, or all of them and the RPC itself.\<close>

lemma reap_one_step:
  assumes ok: "reapable k s" and r: "r \<in> set (dead_rpcs s k)"
    and upd: "\<And>rpc. rp_hsk (f rpc) = rp_hsk rpc" "\<And>rpc. rp_flags (f rpc) = rp_flags rpc"
      "\<And>rpc. rp_grants_in_progress (f rpc) = rp_grants_in_progress rpc" "\<And>rpc. mo_active_xmits (rp_msgout (f rpc)) = mo_active_xmits (rp_msgout rpc)"
    and tx: "tx_packets (upd_rpc r f s) r + n = tx_packets s r"
  shows "reap_step k n s (upd_rpc r f s)"
    and "tx_packets (upd_rpc r f s) r = 0 \<Longrightarrow>
      reap_step k (Suc n) s (upd_sock k (\<lambda>h. h\<lparr>hs_dead_rpcs := remove1 r (hs_dead_rpcs h)\<rparr>) (upd_rpc r f s))"
proof -
  let ?s = "upd_rpc r f s" and ?D = "dead_rpcs s k"
  have other: "tx_packets ?s x = tx_packets s x" if "x \<noteq> r" for x using that by (simp add: tx_packets_def)
  have "(\<Sum>x \<in> set ?D - {r}. Suc (tx_packets ?s x)) = (\<Sum>x \<in> set ?D - {r}. Suc (tx_packets s x))"
    by (intro sum.cong) (simp_all add: other)
  then have rest: "reap_work s ?D = Suc (tx_packets s r) + (\<Sum>x \<in> set ?D - {r}. Suc (tx_packets ?s x))"
      "reap_work ?s ?D = Suc (tx_packets ?s r) + (\<Sum>x \<in> set ?D - {r}. Suc (tx_packets ?s x))"
    using r by (simp_all add: reap_work_def sum.remove [of "set ?D" r])
  have can: "cant_reap ?s x = cant_reap s x" for x by (simp add: cant_reap_def upd)
  show "reap_step k n s ?s"
    using ok rest tx by (auto simp: reap_step_def reapable_def can upd)
  assume zero: "tx_packets ?s r = 0"
  let ?s2 = "upd_sock k (\<lambda>h. h\<lparr>hs_dead_rpcs := remove1 r (hs_dead_rpcs h)\<rparr>) ?s"
  have d: "distinct ?D" using ok by (simp add: reapable_def)
  have can2: "cant_reap ?s2 x = cant_reap s x" "tx_packets ?s2 x = tx_packets ?s x" for x
    using can [of x] by (simp_all add: cant_reap_def tx_packets_def)
  have "reap_work ?s2 (dead_rpcs ?s2 k) = (\<Sum>x \<in> set ?D - {r}. Suc (tx_packets ?s x))"
    using d by (simp add: reap_work_def can2)
  then show "reap_step k (Suc n) s ?s2"
    using ok rest(1) tx zero d by (auto simp: reap_step_def reapable_def can2 upd)
qed

lemma reap_collect_result:
  assumes "reapable k s" and "set rs \<subseteq> set (dead_rpcs s k)" and "distinct rs" and "num < batch" and "length rpcs < batch"
    and "reap_collect batch num rx rpcs rs s = (num', rx', rpcs', s')"
  shows "\<exists>n. reap_step k n s s' \<and> n = (num' - num) + (length rpcs' - length rpcs) \<and> num \<le> num' \<and> length rpcs \<le> length rpcs' \<and> (rs \<noteq> [] \<longrightarrow> 0 < n)"
  using assms
proof (induction rs arbitrary: num rx rpcs s)
  case Nil
  then show ?case using reap_step_refl by auto
next
  case (Cons r rs)
  have r: "r \<in> set (dead_rpcs s k)" "rp_hsk (ks_rpcs s r) = k" "\<not> cant_reap s r"
    using Cons.prems(1,2) by (auto simp: reapable_def)
  define m where "m = msgout s r"
  obtain num1 ps where taken: "(if mo_length m \<ge> 0 then take_skbs batch num (mo_packets m) else (num, mo_packets m)) = (num1, ps)" by fastforce
  define f where "f rpc = rpc\<lparr>rp_magic := False, rp_msgout := (rp_msgout rpc)\<lparr>mo_packets := ps, mo_num_skbs := mo_num_skbs (rp_msgout rpc) - int (num1 - num)\<rparr>\<rparr>" for rpc :: homa_rpc
  have s1: "upd_msgout r (\<lambda>m. m\<lparr>mo_packets := ps, mo_num_skbs := mo_num_skbs m - int (num1 - num)\<rparr>)
      (upd_rpc r (\<lambda>rpc. rpc\<lparr>rp_magic := False\<rparr>) s) = upd_rpc r f s"
    by (simp add: upd_rpc_def f_def)
  have le: "num \<le> num1" "num1 \<ge> batch \<Longrightarrow> num < num1" and tx: "tx_packets (upd_rpc r f s) r + (num1 - num) = tx_packets s r"
      and all: "num1 < batch \<Longrightarrow> tx_packets (upd_rpc r f s) r = 0"
    using taken take_skbs_result [of batch num "mo_packets m" num1 ps] Cons.prems(4)
    by (auto simp: tx_packets_def f_def m_def split: if_splits)
  have fs: "rp_hsk (f rpc) = rp_hsk rpc" "rp_flags (f rpc) = rp_flags rpc" "rp_grants_in_progress (f rpc) = rp_grants_in_progress rpc"
      "mo_active_xmits (rp_msgout (f rpc)) = mo_active_xmits (rp_msgout rpc)" for rpc by (simp_all add: f_def)
  define g where "g rpc = (if mi_length (rp_msgin rpc) \<ge> 0 then (f rpc)\<lparr>rp_msgin := (rp_msgin rpc)\<lparr>mi_packets := []\<rparr>\<rparr> else f rpc)" for rpc :: homa_rpc
  have gs: "rp_hsk (g rpc) = rp_hsk rpc" "rp_flags (g rpc) = rp_flags rpc" "rp_grants_in_progress (g rpc) = rp_grants_in_progress rpc"
      "mo_active_xmits (rp_msgout (g rpc)) = mo_active_xmits (rp_msgout rpc)" "rp_msgout (g rpc) = rp_msgout (f rpc)" for rpc
    by (simp_all add: g_def fs)
  have s2: "(if mi_length (msgin (upd_rpc r f s) r) \<ge> 0 then upd_msgin r (\<lambda>m. m\<lparr>mi_packets := []\<rparr>) (upd_rpc r f s) else upd_rpc r f s) = upd_rpc r g s"
    by (simp add: upd_rpc_def g_def f_def)
  have txg: "tx_packets (upd_rpc r g s) r = tx_packets (upd_rpc r f s) r" by (simp add: tx_packets_def gs)
  define s3 where "s3 = upd_sock k (\<lambda>h. h\<lparr>hs_dead_rpcs := remove1 r (hs_dead_rpcs h)\<rparr>) (upd_rpc r g s)"
  define rx1 where "rx1 = rx + (if mi_length (msgin (upd_rpc r f s) r) \<ge> 0 then length (mi_packets (msgin (upd_rpc r f s) r)) else 0)"
  have m0: "msgout (upd_rpc r (\<lambda>rpc. rpc\<lparr>rp_magic := False\<rparr>) s) r = m" by (simp add: m_def)
  have k: "rp_hsk (ks_rpcs (upd_rpc r g s) r) = k" using r(2) by (simp add: gs)
  have run: "reap_collect batch num rx rpcs (r # rs) s = (if num1 \<ge> batch then (num1, rx, rpcs, upd_rpc r f s)
      else if length rpcs + 1 \<ge> batch then (num1, rx1, rpcs @ [r], s3) else reap_collect batch num1 rx1 (rpcs @ [r]) rs s3)"
    unfolding reap_collect.simps Let_def m0 taken prod.case s1 s2 k s3_def [symmetric] rx1_def [symmetric] using r(3) by (simp only: if_False)
  show ?case
  proof (cases "num1 \<ge> batch")
    case True
    then have "(num', rpcs', s') = (num1, rpcs, upd_rpc r f s)" using Cons.prems(6) run by simp
    then show ?thesis using reap_one_step(1) [OF Cons.prems(1) r(1) fs tx] le True by auto
  next
    case False
    have step: "reap_step k (Suc (num1 - num)) s s3"
      unfolding s3_def using reap_one_step(2) [OF Cons.prems(1) r(1) gs(1-4), of "num1 - num"] tx all txg False by simp
    have rec: "(num', rx', rpcs', s') = (if length rpcs + 1 \<ge> batch then (num1, rx1, rpcs @ [r], s3)
        else reap_collect batch num1 rx1 (rpcs @ [r]) rs s3)"
      using Cons.prems(6) run False by simp
    show ?thesis
    proof (cases "length rpcs + 1 \<ge> batch")
      case True
      then show ?thesis using rec step le by auto
    next
      case more: False
      have d3: "dead_rpcs s3 k = remove1 r (dead_rpcs s k)" by (simp add: s3_def)
      have "reapable k s3" using step by (simp add: reap_step_def)
      moreover have "set rs \<subseteq> set (dead_rpcs s3 k)"
        using Cons.prems(1-3) by (auto simp: d3 reapable_def)
      moreover have "distinct rs" "num1 < batch" "length (rpcs @ [r]) < batch" using Cons.prems(3) False more by simp_all
      moreover have "reap_collect batch num1 rx1 (rpcs @ [r]) rs s3 = (num', rx', rpcs', s')" using rec more by simp
      ultimately obtain n where n: "reap_step k n s3 s'" "n = (num' - num1) + (length rpcs' - length (rpcs @ [r]))" "num1 \<le> num'"
          "length (rpcs @ [r]) \<le> length rpcs'" using Cons.IH by blast
      have "Suc (num1 - num) + n = (num' - num) + (length rpcs' - length rpcs)" using n le by simp
      then show ?thesis using reap_step_trans [OF step n(1)] n(3,4) le by (intro exI [of _ "Suc (num1 - num) + n"]) simp
    qed
  qed
qed

lemma reap_free_step: "reapable k s \<Longrightarrow> reap_step k 0 s (reap_free r s)"
proof -
  let ?s = "reap_free r s"
  have "dead_rpcs ?s j = dead_rpcs s j" "waiting ?s j = waiting s j" "active_rpcs ?s j = active_rpcs s j"
      "hs_shutdown (ks_socks ?s j) = hs_shutdown (ks_socks s j)" "ks_wakeups ?s = ks_wakeups s"
      "hs_protect_count (ks_socks ?s j) = hs_protect_count (ks_socks s j)"
      "hs_buffer_pool (ks_socks ?s j) = None \<longleftrightarrow> hs_buffer_pool (ks_socks s j) = None"
      "rp_hsk (ks_rpcs ?s x) = rp_hsk (ks_rpcs s x)" "rp_flags (ks_rpcs ?s x) = rp_flags (ks_rpcs s x)"
      "rp_grants_in_progress (ks_rpcs ?s x) = rp_grants_in_progress (ks_rpcs s x)" "rp_msgout (ks_rpcs ?s x) = rp_msgout (ks_rpcs s x)" for j x
    by (simp_all add: reap_free_def Let_def)
  moreover from this have "tx_packets ?s x = tx_packets s x" "cant_reap ?s x = cant_reap s x" for x by (auto simp: tx_packets_def cant_reap_def)
  ultimately show "reapable k s \<Longrightarrow> reap_step k 0 s ?s" by (simp add: reap_step_def reapable_def reap_work_def)
qed

lemma reap_free_steps: "reapable k s \<Longrightarrow> reap_step k 0 s (fold reap_free rs s)"
proof (induction rs arbitrary: s)
  case (Cons r rs)
  have step: "reap_step k 0 s (reap_free r s)" by (rule reap_free_step [OF Cons.prems])
  then have "reapable k (reap_free r s)" by (simp add: reap_step_def)
  from reap_step_trans [OF step Cons.IH [OF this]] show ?case by simp
qed (simp add: reap_step_refl)

lemma dead_skbs_step:
  "reapable k s \<Longrightarrow> reap_step k 0 s (upd_sock k (\<lambda>h. h\<lparr>hs_dead_skbs := x h\<rparr>) s)"
  by (simp add: reap_step_def reapable_def reap_work_def cong: if_cong) (simp add: cant_reap_def tx_packets_def cong: if_cong)

lemma reap_loop_result:
  assumes "reapable k s" and "0 < todo"
  shows "\<exists>more s' n. reap_loop todo rx res k s = (True, Some more, s') \<and> reap_step k n s s' \<and> (dead_rpcs s k \<noteq> [] \<longrightarrow> 0 < n)"
  using assms
proof (induction todo rx res k s rule: reap_loop.induct)
  case (1 todo rx res k s)
  define batch where "batch = min todo BATCH_MAX"
  have batch: "0 < batch" using 1(3) by (simp add: batch_def BATCH_MAX_def)
  obtain num rx1 rpcs s1 where col: "reap_collect batch 0 rx [] (dead_rpcs s k) s = (num, rx1, rpcs, s1)" by (metis prod_cases4)
  have "distinct (dead_rpcs s k)" and prot: "hs_protect_count (ks_socks s k) = 0" using 1(2) by (simp_all add: reapable_def)
  then obtain n where n: "reap_step k n s s1" "dead_rpcs s k \<noteq> [] \<longrightarrow> 0 < n" "n = num + length rpcs"
    using reap_collect_result [OF 1(2) _ _ _ _ col] batch by auto
  define s2 where "s2 = upd_sock k (\<lambda>h. h\<lparr>hs_dead_skbs := hs_dead_skbs h - int (num + rx1)\<rparr>) s1"
  define s3 where "s3 = fold reap_free rpcs s2"
  have "reapable k s1" using n(1) by (simp add: reap_step_def)
  then have st2: "reap_step k 0 s1 s2" unfolding s2_def by (rule dead_skbs_step)
  then have "reapable k s2" by (simp add: reap_step_def)
  then have "reap_step k 0 s2 s3" unfolding s3_def by (rule reap_free_steps)
  from reap_step_trans [OF reap_step_trans [OF n(1) st2] this] have st: "reap_step k n s s3" by simp
  define more where "more \<longleftrightarrow> dead_rpcs s2 k \<noteq> [] \<and> num + length rpcs \<noteq> 0"
  have run: "reap_loop todo rx res k s = (if \<not> more then (True, Some False, s3) else reap_loop (todo - batch) rx1 (Some True) k s3)"
    unfolding reap_loop.simps [of todo rx res k s] Let_def batch_def [symmetric] col prod.case s2_def [symmetric] more_def [symmetric]
      s3_def [symmetric] using 1(3) prot by simp
  show ?case
  proof (cases "more \<and> 0 < todo - batch")
    case True
    have "reapable k s3" using st by (simp add: reap_step_def)
    then obtain m s' j where "reap_loop (todo - batch) rx1 (Some True) k s3 = (True, Some m, s')" "reap_step k j s3 s'"
      using 1(1) [OF _ batch_def _ col [symmetric] refl refl refl s2_def more_def s3_def] True 1(3) prot by auto
    then show ?thesis using run True reap_step_trans [OF st] n(2) by (intro exI [of _ m] exI [of _ s'] exI [of _ "n + j"]) auto
  next
    case False
    then have "reap_loop todo rx res k s = (True, Some more, s3)" using run by (auto simp: reap_loop.simps [of "todo - batch"])
    then show ?thesis using st n(2) by blast
  qed
qed

lemma check_waiting_idle:
  assumes "reapable k s" and "0 < n"
  shows "\<exists>s'. homa_pool_check_waiting e n k s = Some s' \<and> reap_step k 0 s s'"
proof -
  obtain pool where pool: "hs_buffer_pool (ks_socks s k) = Some pool" and w: "waiting s k = []" using assms(1) by (auto simp: reapable_def)
  obtain m where "n = Suc m" using assms(2) by (cases n) auto
  then have "homa_pool_check_waiting e n k s = Some s \<or>
      homa_pool_check_waiting e n k s = Some (upd_pool k (\<lambda>pool. pool\<lparr>pl_bpages_needed := INT_MAX\<rparr>) s)"
    using pool w by (simp add: homa_pool_check_waiting_def)
  moreover have "reap_step k 0 s (upd_pool k (\<lambda>pool. pool\<lparr>pl_bpages_needed := INT_MAX\<rparr>) s)"
    using assms(1) by (simp add: reap_step_def reapable_def reap_work_def pool) (simp add: cant_reap_def tx_packets_def cong: if_cong)
  ultimately show ?thesis using reap_step_refl [OF assms(1)] by blast
qed

lemma rpc_reap_result:
  assumes "reapable k s" and "0 < todo" and "0 < n"
  shows "\<exists>more s' w. homa_rpc_reap e n k todo s = Some (more, s') \<and> reap_step k w s s' \<and> (dead_rpcs s k \<noteq> [] \<longrightarrow> 0 < w)"
proof -
  have "0 < nat todo" using assms(2) by simp
  from reap_loop_result [OF assms(1) this, of 0 None] obtain more s1 w where
    loop: "reap_loop (nat todo) 0 None k s = (True, Some more, s1)" "reap_step k w s s1" "dead_rpcs s k \<noteq> [] \<longrightarrow> 0 < w" by blast
  have "reapable k s1" using loop(2) by (simp add: reap_step_def)
  then obtain s2 where "homa_pool_check_waiting e n k s1 = Some s2" "reap_step k 0 s1 s2" using check_waiting_idle [OF _ assms(3)] by blast
  then show ?thesis
    using loop reap_step_trans [OF loop(2)] by (intro exI [of _ more] exI [of _ s2] exI [of _ w]) (simp add: homa_rpc_reap_def, force)
qed

lemma reap_all_result:
  assumes "reapable k s" and "reap_work s (dead_rpcs s k) < fuel" and "0 < n"
  shows "\<exists>s' w. reap_all fuel e n k s = Some s' \<and> reap_step k w s s' \<and> dead_rpcs s' k = []"
  using assms(1,2)
proof (induction fuel arbitrary: s)
  case (Suc fuel)
  show ?case
  proof (cases "dead_rpcs s k = []")
    case True
    then show ?thesis using reap_step_refl [OF Suc.prems(1)] by auto
  next
    case False
    obtain more s1 w where s1: "homa_rpc_reap e n k 1000 s = Some (more, s1)" "reap_step k w s s1" "0 < w"
      using rpc_reap_result [OF Suc.prems(1) _ assms(3), of 1000 e] False by auto
    have "reapable k s1" "reap_work s1 (dead_rpcs s1 k) < fuel" using s1(2,3) Suc.prems(2) by (simp_all add: reap_step_def)
    from Suc.IH [OF this] obtain s' w' where "reap_all fuel e n k s1 = Some s'" "reap_step k w' s1 s'" "dead_rpcs s' k = []" by blast
    then show ?thesis using s1 False reap_step_trans [OF s1(2)] by (intro exI [of _ s'] exI [of _ "w + w'"]) simp
  qed
qed simp

section \<open>Shutting a socket down\<close>

lemma marked_rpc_inv:
  fixes s k defines "s' \<equiv> homa_sock_unlink k (upd_sock k (\<lambda>h. h\<lparr>hs_shutdown := True\<rparr>) s)"
  shows "ks_socks s' = (ks_socks s)(k := (ks_socks s k)\<lparr>hs_shutdown := True\<rparr>)" "ks_rpcs s' = ks_rpcs s" "ks_homa s' = ks_homa s"
    "ks_interests s' = ks_interests s" "ks_wakeups s' = ks_wakeups s"
    "rpc_inv k s \<Longrightarrow> rpc_inv k s'" "handoff_inv k s \<Longrightarrow> handoff_inv k s'" "grant_inv R s \<Longrightarrow> grant_inv R s'"
proof -
  show sel: "ks_socks s' = (ks_socks s)(k := (ks_socks s k)\<lparr>hs_shutdown := True\<rparr>)" "ks_rpcs s' = ks_rpcs s" "ks_homa s' = ks_homa s"
    "ks_interests s' = ks_interests s" "ks_wakeups s' = ks_wakeups s"
    by (simp_all add: s'_def homa_sock_unlink_def sock_del_def Let_def upd_sock_def)
  have peers: "ks_peers s' = ks_peers s" by (simp add: s'_def homa_sock_unlink_def sock_del_def Let_def)
  show "rpc_inv k s \<Longrightarrow> rpc_inv k s'"
    using tables_ok_cong(1) [of s' k s] lists_ok_cong [of s' k s]
    by (simp add: rpc_inv_def queues_ok_def sel server_key_def Let_def peers)
  show "handoff_inv k s \<Longrightarrow> handoff_inv k s'"
    by (simp add: handoff_inv_def interest_links_def ready_ok_def registered_def sel)
  show "grant_inv R s \<Longrightarrow> grant_inv R s'"
    by (simp add: grant_inv_def grant_links_def grantable_set_def is_grantable_def accounted_def sel peers)
qed

lemma shutdown_result:
  assumes inv: "rpc_inv k s" "handoff_inv k s" "grant_inv R s" and R: "finite R" "set (active_rpcs s k) \<subseteq> R" "2 * card R < re_grant_fuel e"
    and thr: "distinct (h_throttled_rpcs (ks_homa s))" and pool: "hs_buffer_pool (ks_socks s k) \<noteq> None"
    and idle: "hs_protect_count (ks_socks s k) = 0" "\<forall>r \<in> set (active_rpcs s k) \<union> set (dead_rpcs s k). \<not> cant_reap s r"
    and fuel: "reap_work s (dead_rpcs s k @ active_rpcs s k) < fuel" "0 < n" and live: "\<not> hs_shutdown (ks_socks s k)"
  shows "\<exists>s'. homa_sock_shutdown fuel e we n k s = Some s' \<and> hs_shutdown (ks_socks s' k) \<and> active_rpcs s' k = [] \<and> dead_rpcs s' k = [] \<and>
    hs_buffer_pool (ks_socks s' k) = None \<and> (\<forall>i \<in> set (req_ints s k) \<union> set (resp_ints s k). in_thread (interest s i) \<in> set (ks_wakeups s'))"
proof -
  define s1 where "s1 = homa_sock_unlink k (upd_sock k (\<lambda>h. h\<lparr>hs_shutdown := True\<rparr>) s)"
  note m = marked_rpc_inv [where k = k and s = s, folded s1_def]
  have cant: "cant_reap s1 x = cant_reap s x" for x by (simp add: cant_reap_def m)
  have "active_rpcs s1 k = active_rpcs s k" by (simp add: m)
  from free_all_result [OF m(6) [OF inv(1)] m(7) [OF inv(2)] this R(1,2) m(8) [OF inv(3)] R(3), of "re_now e"] thr obtain s2 where
    free: "free_all (re_grant_fuel e) (re_now e) (active_rpcs s k) s1 = Some s2" and inv2: "rpc_inv k s2" and
    s2: "active_rpcs s2 k = []" "dead_rpcs s2 k = dead_rpcs s k @ active_rpcs s k" "hs_buffer_pool (ks_socks s2 k) \<noteq> None"
      "hs_protect_count (ks_socks s2 k) = 0" "hs_shutdown (ks_socks s2 k)" "req_ints s2 k = req_ints s k" "resp_ints s2 k = resp_ints s k"
      "\<forall>x. cant_reap s2 x = cant_reap s x \<and> msgout s2 x = msgout s x" "\<forall>i. in_thread (interest s2 i) = in_thread (interest s i)"
    using pool idle(1) by (auto simp: m cant)
  define wakes where "wakes = map (\<lambda>i. in_thread (interest s2 i)) (req_ints s2 k) @ map (\<lambda>i. in_thread (interest s2 i)) (resp_ints s2 k)"
  define s3 where "s3 = s2\<lparr>ks_wakeups := ks_wakeups s2 @ wakes\<rparr>"
  have "\<not> cant_reap s3 r" if "r \<in> set (dead_rpcs s2 k)" for r
    using that s2(2,8) idle(2) by (auto simp: s3_def cant_reap_def)
  then have "reapable k s3"
    using inv2 s2(1,3,4) by (simp add: reapable_def s3_def rpc_inv_def lists_ok_def queues_ok_def)
  moreover have "reap_work s3 (dead_rpcs s3 k) < fuel"
    using fuel(1) s2(2,8) by (simp add: reap_work_def tx_packets_def s3_def cong: if_cong)
  ultimately obtain s4 w where s4: "reap_all fuel we n k s3 = Some s4" "reap_step k w s3 s4" "dead_rpcs s4 k = []"
    using reap_all_result [OF _ _ fuel(2)] by blast
  have "homa_sock_shutdown fuel e we n k s = Some (upd_sock k (\<lambda>h. h\<lparr>hs_buffer_pool := None\<rparr>) s4)"
    using live free s4(1) by (simp add: homa_sock_shutdown_def Let_def s1_def [symmetric] m s3_def wakes_def)
  then show ?thesis using s4(2,3) s2 by (auto simp: reap_step_def s3_def wakes_def)
qed

section \<open>Properties\<close>

text \<open>
  C6: \<open>homa_sock_shutdown\<close> always finishes when no RPC of the socket is pinned (no copy, hand-off, grant or transmission in progress and
  reaping not disabled): whatever RPCs the socket has, every one is freed and its packets reaped, the loop that calls \<open>homa_rpc_reap\<close>
  ends with \<open>dead_rpcs\<close> empty (each pass removes at least one RPC or packet), the buffer pool is destroyed after that, and every
  thread on the lists of those that wait for a request or a response is woken.
\<close>

theorem homa_sock_shutdown_completes:
  assumes "rpc_inv k s" and "handoff_inv k s" and "grant_inv R s" and "finite R" and "set (active_rpcs s k) \<subseteq> R"
    and "2 * card R < re_grant_fuel e" and "distinct (h_throttled_rpcs (ks_homa s))" and "hs_buffer_pool (ks_socks s k) \<noteq> None"
    and "hs_protect_count (ks_socks s k) = 0" and "\<forall>r \<in> set (active_rpcs s k) \<union> set (dead_rpcs s k). \<not> cant_reap s r"
    and "reap_work s (dead_rpcs s k @ active_rpcs s k) < fuel" and "0 < n" and "\<not> hs_shutdown (ks_socks s k)"
  shows "\<exists>s'. homa_sock_shutdown fuel e we n k s = Some s' \<and> hs_shutdown (ks_socks s' k) \<and> active_rpcs s' k = [] \<and> dead_rpcs s' k = [] \<and>
    hs_buffer_pool (ks_socks s' k) = None \<and> (\<forall>i \<in> set (req_ints s k) \<union> set (resp_ints s k). in_thread (interest s i) \<in> set (ks_wakeups s'))"
  using assms by (rule shutdown_result)

definition example_wait :: wait_env where
  "example_wait = \<lparr>we_clk = (\<lambda>_ i. i), we_core = (\<lambda>_. 0), we_now = (\<lambda>_. 0), we_fuel = 1, we_grant_fuel = 1\<rparr>"

theorem homa_sock_shutdown_completes_witness:
  "\<exists>s'. homa_sock_shutdown 3 example_env example_wait 1 2 rpc_example = Some s' \<and> active_rpcs s' 2 = [] \<and> dead_rpcs s' 2 = [] \<and>
     hs_buffer_pool (ks_socks s' 2) = None"
proof -
  have ex: "active_rpcs rpc_example 2 = [8]" "dead_rpcs rpc_example 2 = []" "h_throttled_rpcs (ks_homa rpc_example) = []"
    "hs_buffer_pool (ks_socks rpc_example 2) \<noteq> None" "hs_protect_count (ks_socks rpc_example 2) = 0" "\<not> cant_reap rpc_example 8"
    "\<not> hs_shutdown (ks_socks rpc_example 2)" "reap_work rpc_example [8] < 3" "re_grant_fuel example_env = 10"
    by (simp_all add: rpc_example_def zero_defs cant_reap_def reap_work_def tx_packets_def example_env_def)
  show ?thesis
    using homa_sock_shutdown_completes [OF rpc_example_inv, of example_env 3 1 example_wait] ex by auto
qed

end
