(* ===== verification/Spec2Isabelle.thy ===== *)
theory Spec2Isabelle
imports
  Homa_Prelude
  Homa_MsgIn
  Homa_Wire
  Homa_Addr
  Homa_Pool
  Homa_Pool_Use
  Homa_State
  Homa_Table
  Homa_Peer Homa_Sock
  Homa_Grant
  Homa_Grant_Use
  Homa_Grant_Frame
  Homa_Outgoing
  Homa_Outgoing_Use
  Homa_Handoff
  Homa_Buffers
  Homa_Rpc
  Homa_Rpc_Use
  Homa_Reap
begin

text \<open>
  A verification development for the Homa transport module (ConnectedHoma).

  The program is a Linux kernel module that implements the Homa transport
  protocol.  A client RPC sends a request message and receives a response
  message; both are cut into DATA packets.  The receiver reassembles packets
  (\<open>homa_incoming.c\<close>), places them in a buffer pool that the application has
  registered (\<open>homa_pool.c\<close>) and controls the senders with grants
  (\<open>homa_grant.c\<close>).  The sender packetises and retransmits (\<open>homa_outgoing.c\<close>).
  Sockets (\<open>homa_sock.c\<close>), RPCs (\<open>homa_rpc.c\<close>) and peers (\<open>homa_peer.c\<close>) live in
  hash tables, and a timer (\<open>homa_timer.c\<close>) retries and times out.

  \<^item> \<open>Homa_Prelude\<close>: machine integers, ordered kernel lists and their interface.
  \<^item> \<open>Homa_MsgIn\<close>: reassembly of an incoming message.
\<close>

end
